(* ===== verification/Prelude.thy ===== *)
theory Prelude
  imports Main "HOL-Library.Word"
begin

text \<open>
  What every component shares: the machine integers of the Rust code at their width, the
  results of fallible code (an \<open>Err\<close>, a panic and a loop that never ends are values),
  actions that thread a state through fallible code, and the generic lemmas on them.
\<close>

named_theorems action_defs \<open>the combinators of fallible state-passing code\<close>

section \<open>Machine integers\<close>

type_synonym u8 = "8 word"
type_synonym u64 = "64 word"

text \<open>An \<open>i64\<close> is the same 64 bits, read with \<open>sint\<close>: the casts \<open>as i64\<close> and
  \<open>as u64\<close> of the code are the identity.\<close>

type_synonym i64 = "64 word"

text \<open>The byte view of a Rust string, \<open>str::as_bytes\<close>; an HOL \<open>char\<close> is a byte.\<close>

definition as_bytes :: "string \<Rightarrow> u8 list" where
  "as_bytes s = map of_char s"

lemma length_as_bytes [simp]: "length (as_bytes s) = length s"
  by (simp add: as_bytes_def)

lemma of_char_u8_inj: "(of_char c :: u8) = of_char d \<longleftrightarrow> c = d"
proof -
  have "unat (of_char a :: u8) = of_char a" for a
  proof -
    have "(of_char a :: u8) = of_nat (of_char a)" by (rule of_nat_of_char [symmetric])
    then show ?thesis by (simp only: unat_of_nat) simp
  qed
  then show ?thesis by (metis of_char_eqI)
qed

lemma as_bytes_inj [simp]: "as_bytes s = as_bytes t \<longleftrightarrow> s = t"
  using inj_map_eq_map [of "of_char :: char \<Rightarrow> u8"] by (simp add: as_bytes_def inj_def of_char_u8_inj)

definition u64_MAX :: u64 where
  "u64_MAX = - 1"

definition i64_MAX :: i64 where
  "i64_MAX = 0x7FFFFFFFFFFFFFFF"

lemma unat_u64_MAX [simp]: "unat u64_MAX = 2 ^ 64 - 1"
  by (simp add: u64_MAX_def unsigned_minus_1_eq_mask mask_eq_exp_minus_1)

lemma u64_le_MAX [simp]: "x \<le> u64_MAX"
  by (simp add: u64_MAX_def)

lemma sint_i64_MAX [simp]: "sint i64_MAX = 2 ^ 63 - 1"
  by (simp add: i64_MAX_def)

lemma unat_i64_MAX [simp]: "unat i64_MAX = 2 ^ 63 - 1"
  by (simp add: i64_MAX_def)

text \<open>\<open>saturating_add\<close>, \<open>saturating_sub\<close>.\<close>

definition saturating_add :: "u64 \<Rightarrow> u64 \<Rightarrow> u64" where
  "saturating_add a b = (if unat a + unat b < 2 ^ 64 then a + b else u64_MAX)"

definition saturating_sub :: "u64 \<Rightarrow> u64 \<Rightarrow> u64" where
  "saturating_sub a b = (if a < b then 0 else a - b)"

text \<open>\<open>i64::try_from\<close> of a \<open>u64\<close> and \<open>u64::try_from\<close> of an \<open>i64\<close>.\<close>

definition i64_try_from :: "u64 \<Rightarrow> i64 option" where
  "i64_try_from x = (if unat x < 2 ^ 63 then Some x else None)"

definition u64_try_from :: "i64 \<Rightarrow> u64 option" where
  "u64_try_from x = (if 0 \<le> sint x then Some x else None)"

lemma unat_plus_no_wrap:
  "unat (a :: u64) + unat b < 2 ^ 64 \<Longrightarrow> unat (a + b) = unat a + unat b"
  using unat_add_lem [of a b] by simp

lemma unat_saturating_add:
  "unat (saturating_add a b) = min (unat a + unat b) (2 ^ 64 - 1)"
  by (auto simp: saturating_add_def unat_plus_no_wrap min_def)

lemma unat_saturating_sub: "unat (saturating_sub a b) = unat a - unat b"
  by (auto simp: saturating_sub_def unat_sub word_less_nat_alt not_less word_le_nat_alt)

text \<open>A non-negative \<open>i64\<close> is below \<open>2 ^ 63\<close>, and reads the same signed and unsigned.\<close>

lemma uint_less_iff_unat: "uint (x :: 'a :: len word) < 2 ^ n \<longleftrightarrow> unat x < 2 ^ n"
proof -
  have "unat x < 2 ^ n \<longleftrightarrow> int (unat x) < int (2 ^ n)" by (simp only: of_nat_less_iff)
  then show ?thesis by simp
qed

lemma sint_eq_uint_if:
  "sint (x :: i64) = (if uint x < 2 ^ 63 then uint x else uint x - 2 ^ 64)"
proof -
  have lt: "0 \<le> uint x" "uint x < 2 ^ 64" using uint_lt2p [of x] by simp_all
  have "sint x = (uint x + 2 ^ 63) mod 2 ^ 64 - 2 ^ 63"
    by (simp add: sint_uint signed_take_bit_eq_take_bit_shift take_bit_eq_mod)
  moreover have "(uint x + 2 ^ 63) mod 2 ^ 64 =
      (if uint x < 2 ^ 63 then uint x + 2 ^ 63 else uint x + 2 ^ 63 - 2 ^ 64)"
    using lt mod_add_self2 [of "uint x + 2 ^ 63 - 2 ^ 64" "2 ^ 64 :: int"]
    by (auto simp: mod_pos_pos_trivial add.commute)
  ultimately show ?thesis by simp
qed

lemma sint_nonneg_iff: "0 \<le> sint (x :: i64) \<longleftrightarrow> unat x < 2 ^ 63"
  using uint_lt2p [of x] uint_less_iff_unat [of x 63] by (simp add: sint_eq_uint_if)

lemma sint_nonneg_eq: "0 \<le> sint (x :: i64) \<Longrightarrow> sint x = int (unat x)"
  using uint_lt2p [of x] by (simp add: sint_eq_uint_if split: if_splits)

lemma i64_try_from_Some: "i64_try_from x = Some y \<Longrightarrow> y = x \<and> sint y = int (unat x)"
  by (auto simp: i64_try_from_def sint_nonneg_iff sint_nonneg_eq split: if_splits)

lemma u64_try_from_Some: "u64_try_from x = Some y \<Longrightarrow> y = x \<and> sint x = int (unat y)"
  by (auto simp: u64_try_from_def sint_nonneg_eq split: if_splits)

section \<open>Results: errors, panics and loops that do not end as values\<close>

text \<open>
  \<open>Err e\<close> is the \<open>Err\<close> of a Rust \<open>Result\<close>; \<open>Panic\<close> is an \<open>unwrap\<close> on nothing, an
  arithmetic overflow with overflow checks or a failed assertion; \<open>Diverge\<close> is a loop
  that never ends.
\<close>

datatype 'e fault = Err 'e | Panic | Diverge

type_synonym ('e, 'a) result = "'e fault + 'a"

fun bind_result :: "('e, 'a) result \<Rightarrow> ('a \<Rightarrow> ('e, 'b) result) \<Rightarrow> ('e, 'b) result" where
  "bind_result (Inl f) k = Inl f"
| "bind_result (Inr a) k = k a"

definition unwrap :: "'a option \<Rightarrow> ('e, 'a) result" where
  "unwrap x = (case x of None \<Rightarrow> Inl Panic | Some a \<Rightarrow> Inr a)"

lemma unwrap_simps [simp]: "unwrap None = Inl Panic" "unwrap (Some a) = Inr a"
  by (simp_all add: unwrap_def)

text \<open>
  \<open>+\<close>, \<open>-\<close> and \<open>*\<close> on \<open>u64\<close>: with overflow checks (the debug profile) an overflow
  panics, without them (the release profile) it wraps. The first argument says which.
\<close>

definition u64_add :: "bool \<Rightarrow> u64 \<Rightarrow> u64 \<Rightarrow> ('e, u64) result" where
  "u64_add oc a b = (if oc \<and> 2 ^ 64 \<le> unat a + unat b then Inl Panic else Inr (a + b))"

definition u64_sub :: "bool \<Rightarrow> u64 \<Rightarrow> u64 \<Rightarrow> ('e, u64) result" where
  "u64_sub oc a b = (if oc \<and> a < b then Inl Panic else Inr (a - b))"

definition u64_mul :: "bool \<Rightarrow> u64 \<Rightarrow> u64 \<Rightarrow> ('e, u64) result" where
  "u64_mul oc a b = (if oc \<and> 2 ^ 64 \<le> unat a * unat b then Inl Panic else Inr (a * b))"

lemma u64_add_exact:
  "unat a + unat b < 2 ^ 64 \<Longrightarrow> u64_add oc a b = Inr (a + b) \<and> unat (a + b) = unat a + unat b"
  by (simp add: u64_add_def unat_plus_no_wrap)

lemma u64_sub_exact:
  "b \<le> a \<Longrightarrow> u64_sub oc a b = Inr (a - b) \<and> unat (a - b) = unat a - unat b"
  by (auto simp: u64_sub_def unat_sub)

lemma u64_mul_exact: "unat a * unat b < 2 ^ 64 \<Longrightarrow> u64_mul oc a b = Inr (a * b)"
  by (simp add: u64_mul_def)

section \<open>Actions: fallible code over a state\<close>

type_synonym ('s, 'e, 'a) action = "'s \<Rightarrow> ('e, 'a) result \<times> 's"

definition ret :: "'a \<Rightarrow> ('s, 'e, 'a) action" where
  [action_defs]: "ret a = (\<lambda>s. (Inr a, s))"

definition lift :: "('e, 'a) result \<Rightarrow> ('s, 'e, 'a) action" where
  [action_defs]: "lift r = (\<lambda>s. (r, s))"

text \<open>The \<open>?\<close> operator: the rest runs on the value, a fault ends the function.\<close>

definition and_then ::
  "('s, 'e, 'a) action \<Rightarrow> ('a \<Rightarrow> ('s, 'e, 'b) action) \<Rightarrow> ('s, 'e, 'b) action" where
  [action_defs]: "and_then m k =
     (\<lambda>s. case m s of (Inl f, s') \<Rightarrow> (Inl f, s') | (Inr a, s') \<Rightarrow> k a s')"

text \<open>A \<open>for\<close> loop whose body may leave the function with \<open>?\<close>.\<close>

fun for_each :: "'a list \<Rightarrow> ('a \<Rightarrow> ('s, 'e, unit) action) \<Rightarrow> ('s, 'e, unit) action" where
  "for_each [] body = ret ()"
| "for_each (x # xs) body = and_then (body x) (\<lambda>_. for_each xs body)"

text \<open>An action on the first component of a state (a connection in a larger world).\<close>

definition on_fst :: "('c, 'e, 'a) action \<Rightarrow> ('c \<times> 'v, 'e, 'a) action" where
  [action_defs]: "on_fst m = (\<lambda>(c, v). case m c of (r, c') \<Rightarrow> (r, (c', v)))"

lemma and_then_Inr:
  "and_then m k s = (Inr b, t) \<longleftrightarrow> (\<exists>a s'. m s = (Inr a, s') \<and> k a s' = (Inr b, t))"
  by (auto simp: and_then_def split: prod.splits sum.splits)

lemma and_then_Inl:
  "and_then m k s = (Inl f, t) \<longleftrightarrow>
     m s = (Inl f, t) \<or> (\<exists>a s'. m s = (Inr a, s') \<and> k a s' = (Inl f, t))"
  by (auto simp: and_then_def split: prod.splits sum.splits)

lemma and_then_ret [simp]: "and_then (ret a) k = k a"
  by (simp add: and_then_def ret_def)

lemma ret_apply [simp]: "ret a s = (Inr a, s)"
  by (simp add: ret_def)

lemma lift_apply [simp]: "lift r s = (r, s)"
  by (simp add: lift_def)

lemma on_fst_Inr:
  "on_fst m (c, v) = (r, t) \<longleftrightarrow> (\<exists>c'. m c = (r, c') \<and> t = (c', v))"
  by (auto simp: on_fst_def split: prod.splits)

text \<open>A relation every body step keeps holds across the whole loop, ended or not.\<close>

lemma for_each_invariant:
  assumes refl: "\<And>s. R s s" and trans: "\<And>s t u. R s t \<Longrightarrow> R t u \<Longrightarrow> R s u"
    and body: "\<And>x s. x \<in> set xs \<Longrightarrow> R s (snd (body x s))"
  shows "R s (snd (for_each xs body s))"
  using body
proof (induction xs arbitrary: s)
  case Nil
  show ?case by (simp add: refl)
next
  case (Cons x xs)
  obtain r t where step: "body x s = (r, t)" by (cases "body x s")
  have head: "R s t" using Cons.prems [of x s] step by simp
  show ?case
  proof (cases r)
    case (Inl f)
    then show ?thesis using step head by (simp add: and_then_def)
  next
    case (Inr u)
    have "R t (snd (for_each xs body t))" using Cons by simp
    then show ?thesis using step head Inr by (auto simp: and_then_def intro: trans)
  qed
qed

section \<open>Little-endian bytes\<close>

text \<open>\<open>u64::to_le_bytes\<close> and \<open>u64::from_le_bytes\<close>.\<close>

definition to_le_bytes :: "u64 \<Rightarrow> u8 list" where
  "to_le_bytes w = map (\<lambda>i. ucast (drop_bit (8 * i) w)) [0..<8]"

fun from_le_bytes :: "u8 list \<Rightarrow> u64" where
  "from_le_bytes [] = 0"
| "from_le_bytes (b # bs) = ucast b + 256 * from_le_bytes bs"

fun le_value :: "u8 list \<Rightarrow> nat" where
  "le_value [] = 0"
| "le_value (b # bs) = unat b + 256 * le_value bs"

lemma unat_u8_less: "unat (b :: u8) < 256"
proof -
  have "unat b < 2 ^ LENGTH(8)" by (rule unsigned_less)
  then show ?thesis by simp
qed

lemma le_value_less: "le_value bs < 256 ^ length bs"
proof (induction bs)
  case (Cons b bs)
  with unat_u8_less [of b] show ?case by simp
qed simp

lemma le_value_append: "le_value (xs @ ys) = le_value xs + 256 ^ length xs * le_value ys"
  by (induction xs) (auto simp: algebra_simps)

lemma le_value_zeros [simp]: "le_value (replicate n 0) = 0"
  by (induction n) auto

lemma from_le_bytes_value: "from_le_bytes bs = of_nat (le_value bs)"
proof (induction bs)
  case (Cons b bs)
  have "(ucast b :: u64) = of_nat (unat b)" by simp
  with Cons show ?case by simp
qed simp

lemma le_value_mod: "unat b = le_value (b # bs) mod 256"
proof -
  have "le_value (b # bs) mod 256 = unat b mod 256" by (simp add: mod_mult_self2)
  also have "\<dots> = unat b" by (rule mod_less [OF unat_u8_less])
  finally show ?thesis ..
qed

lemma le_value_inj: "length xs = length ys \<Longrightarrow> le_value xs = le_value ys \<Longrightarrow> xs = ys"
proof (induction xs ys rule: list_induct2)
  case (Cons x xs y ys)
  have "unat x = unat y"
    unfolding le_value_mod [of x xs] le_value_mod [of y ys] using Cons.prems by (rule arg_cong)
  moreover from this have "le_value xs = le_value ys" using Cons.prems by simp
  ultimately show ?case using Cons.IH by (simp add: word_unat_eq_iff)
qed simp

lemma length_to_le_bytes [simp]: "length (to_le_bytes w) = 8"
  by (simp add: to_le_bytes_def)

lemma to_le_bytes_nth: "i < 8 \<Longrightarrow> unat (to_le_bytes w ! i) = unat w div 256 ^ i mod 256"
proof -
  assume i: "i < 8"
  have "unat (ucast (drop_bit (8 * i) w) :: u8) = unat (drop_bit (8 * i) w) mod 256"
    by (simp add: unsigned_ucast_eq take_bit_eq_mod)
  also have "unat (drop_bit (8 * i) w) = drop_bit (8 * i) (unat w)"
    by (rule unat_drop_bit_eq)
  also have "drop_bit (8 * i) (unat w) = unat w div 2 ^ (8 * i)"
    by (rule drop_bit_eq_div)
  also have "(2 :: nat) ^ (8 * i) = 256 ^ i" by (simp add: power_mult)
  finally show ?thesis using i by (simp add: to_le_bytes_def)
qed

lemma le_value_digits:
  "le_value (map (\<lambda>i. word_of_nat (n div 256 ^ i)) [0..<k]) = n mod 256 ^ k"
proof (induction k)
  case (Suc k)
  have "n mod 256 ^ Suc k = n mod 256 ^ k + 256 ^ k * (n div 256 ^ k mod 256)"
    by (simp only: power_Suc2 mod_mult2_eq add.commute)
  with Suc show ?case
    by (simp add: le_value_append unat_of_nat)
qed simp

lemma to_le_bytes_digits:
  "take k (to_le_bytes w) = map (\<lambda>i. word_of_nat (unat w div 256 ^ i)) [0..<min k 8]"
proof (rule nth_equalityI)
  fix i assume "i < length (take k (to_le_bytes w))"
  then have i: "i < 8" "i < min k 8" by simp_all
  have "unat (take k (to_le_bytes w) ! i) = unat w div 256 ^ i mod 256"
    using i by (simp add: to_le_bytes_nth)
  also have "\<dots> = unat (word_of_nat (unat w div 256 ^ i) :: u8)"
    by (simp add: unat_of_nat)
  finally show "take k (to_le_bytes w) ! i = map (\<lambda>i. word_of_nat (unat w div 256 ^ i)) [0..<min k 8] ! i"
    using i by (simp add: word_unat_eq_iff)
qed (simp add: min.commute)

lemma le_value_take: "k \<le> 8 \<Longrightarrow> le_value (take k (to_le_bytes w)) = unat w mod 256 ^ k"
  by (simp add: to_le_bytes_digits le_value_digits min_absorb1)

lemma le_value_to_le_bytes [simp]: "le_value (to_le_bytes w) = unat w"
proof -
  have "unat w < 256 ^ 8"
  proof -
    have "unat w < 2 ^ LENGTH(64)" by (rule unsigned_less)
    then show ?thesis by simp
  qed
  with le_value_take [of 8 w] show ?thesis by simp
qed

lemma from_to_le_bytes [simp]: "from_le_bytes (to_le_bytes w) = w"
  by (simp add: from_le_bytes_value)

lemma to_le_bytes_inj: "to_le_bytes v = to_le_bytes w \<longleftrightarrow> v = w"
  by (metis from_to_le_bytes)

section \<open>Text\<close>

text \<open>\<open>str::from_utf8\<close>: the well-formed byte sequences of the Unicode standard's table 3-7.\<close>

definition cont :: "u8 \<Rightarrow> bool" where
  "cont b \<longleftrightarrow> 0x80 \<le> b \<and> b \<le> 0xBF"

fun utf8_valid :: "u8 list \<Rightarrow> bool" where
  "utf8_valid [] \<longleftrightarrow> True"
| "utf8_valid (a # bs) \<longleftrightarrow>
     (if a \<le> 0x7F then utf8_valid bs
      else case bs of
        [] \<Rightarrow> False
      | b # cs \<Rightarrow>
          (if 0xC2 \<le> a \<and> a \<le> 0xDF then cont b \<and> utf8_valid cs
           else case cs of
             [] \<Rightarrow> False
           | c # ds \<Rightarrow>
               (if 0xE0 \<le> a \<and> a \<le> 0xEF
                then cont b \<and> (a = 0xE0 \<longrightarrow> 0xA0 \<le> b) \<and> (a = 0xED \<longrightarrow> b \<le> 0x9F) \<and> cont c \<and> utf8_valid ds
                else case ds of
                  [] \<Rightarrow> False
                | d # es \<Rightarrow>
                    0xF0 \<le> a \<and> a \<le> 0xF4 \<and> cont b \<and> (a = 0xF0 \<longrightarrow> 0x90 \<le> b) \<and> (a = 0xF4 \<longrightarrow> b \<le> 0x8F) \<and>
                    cont c \<and> cont d \<and> utf8_valid es)))"

definition from_utf8 :: "u8 list \<Rightarrow> string option" where
  "from_utf8 bs = (if utf8_valid bs then Some (map (\<lambda>b. char_of (unat b)) bs) else None)"

lemma utf8_valid_ascii: "(\<And>b. b \<in> set bs \<Longrightarrow> b \<le> 0x7F) \<Longrightarrow> utf8_valid bs"
  by (induction bs) auto

lemma unat_of_char_u8 [simp]: "unat (of_char c :: u8) = of_char c"
proof -
  have "(of_char c :: u8) = of_nat (of_char c)" by (rule of_nat_of_char [symmetric])
  then show ?thesis by (simp only: unat_of_nat) simp
qed

lemma from_utf8_ascii:
  assumes "\<And>c. c \<in> set s \<Longrightarrow> (of_char c :: nat) < 128"
  shows "from_utf8 (as_bytes s) = Some s"
proof -
  have "b \<le> 0x7F" if "b \<in> set (as_bytes s)" for b
  proof -
    from that obtain c where "c \<in> set s" "b = of_char c" by (auto simp: as_bytes_def)
    with assms [of c] show ?thesis by (simp add: word_le_nat_alt)
  qed
  then show ?thesis
    by (simp add: from_utf8_def utf8_valid_ascii) (simp add: as_bytes_def comp_def)
qed

text \<open>\<open>u64::from_str\<close>: an optional plus sign and decimal digits without overflow.\<close>

definition digit_of :: "char \<Rightarrow> nat option" where
  "digit_of c = (let n = of_char c in if 48 \<le> n \<and> n < 58 then Some (n - 48) else None)"

fun parse_digits :: "nat \<Rightarrow> string \<Rightarrow> nat option" where
  "parse_digits acc [] = Some acc"
| "parse_digits acc (c # cs) =
     (case digit_of c of
        None \<Rightarrow> None
      | Some d \<Rightarrow> let n = acc * 10 + d in if n < 2 ^ 64 then parse_digits n cs else None)"

definition u64_from_str :: "string \<Rightarrow> u64 option" where
  "u64_from_str s =
     (let digits = (case s of CHR ''+'' # ds \<Rightarrow> ds | _ \<Rightarrow> s)
      in if digits = [] then None else map_option of_nat (parse_digits 0 digits))"

text \<open>\<open>u64::to_string\<close>.\<close>

fun show_nat :: "nat \<Rightarrow> string" where
  "show_nat n = (if n < 10 then [char_of (48 + n)] else show_nat (n div 10) @ [char_of (48 + n mod 10)])"

declare show_nat.simps [simp del]

lemma digit_of_char [simp]: "d < 10 \<Longrightarrow> digit_of (char_of (48 + d)) = Some d"
  by (simp add: digit_of_def Let_def of_char_of)

lemma parse_digits_append:
  "parse_digits acc (xs @ ys) = (case parse_digits acc xs of None \<Rightarrow> None | Some n \<Rightarrow> parse_digits n ys)"
  by (induction xs arbitrary: acc) (auto simp: Let_def split: option.splits)

lemma parse_show_nat: "n < 2 ^ 64 \<Longrightarrow> parse_digits 0 (show_nat n) = Some n"
proof (induction n rule: show_nat.induct)
  case (1 n)
  show ?case
  proof (cases "n < 10")
    case True
    then show ?thesis by (simp add: show_nat.simps [of n])
  next
    case False
    with 1 have "parse_digits 0 (show_nat (n div 10)) = Some (n div 10)" by simp
    with False 1(2) show ?thesis
      by (simp add: show_nat.simps [of n] parse_digits_append)
  qed
qed

lemma show_nat_no_plus: "show_nat n \<noteq> [] \<and> hd (show_nat n) \<noteq> CHR ''+''"
proof (induction n rule: show_nat.induct)
  case (1 n)
  have "char_of (48 + d) \<noteq> CHR ''+''" if "d < 10" for d :: nat
  proof
    assume "char_of (48 + d) = CHR ''+''"
    with digit_of_char [OF that] show False by (simp add: digit_of_def)
  qed
  with 1 show ?case by (auto simp: show_nat.simps [of n])
qed

lemma u64_from_str_show [simp]: "u64_from_str (show_nat (unat w)) = Some w"
proof -
  have "unat w < 2 ^ LENGTH(64)" by (rule unsigned_less)
  then have "parse_digits 0 (show_nat (unat w)) = Some (unat w)" by (simp add: parse_show_nat)
  moreover have "(case show_nat (unat w) of CHR ''+'' # ds \<Rightarrow> ds | _ \<Rightarrow> show_nat (unat w)) = show_nat (unat w)"
    using show_nat_no_plus [of "unat w"] by (cases "show_nat (unat w)") (auto split: char.splits bool.splits)
  ultimately show ?thesis
    using show_nat_no_plus [of "unat w"] by (simp add: u64_from_str_def)
qed

end
