(* ===== verification/Crates.thy ===== *)
theory Crates
  imports Prelude
begin

text \<open>
  The crates the code calls whose sources are not in the repository. Each is a record of
  functions, an argument of the definitions that use it, and a locale with the laws its
  documentation promises. The reference functions that follow each locale show that the
  laws can hold together; the model never uses them.
\<close>

section \<open>The \<open>memchr\<close> crate\<close>

record memchr_crate =
  memchr :: "u8 \<Rightarrow> u8 list \<Rightarrow> nat option"
  memrchr :: "u8 \<Rightarrow> u8 list \<Rightarrow> nat option"

locale memchr_spec =
  fixes M :: memchr_crate
  assumes memchr_None: "memchr M b xs = None \<longleftrightarrow> b \<notin> set xs"
    and memchr_Some: "memchr M b xs = Some i \<Longrightarrow> i < length xs \<and> xs ! i = b \<and> b \<notin> set (take i xs)"
    and memrchr_None: "memrchr M b xs = None \<longleftrightarrow> b \<notin> set xs"
    and memrchr_Some:
      "memrchr M b xs = Some i \<Longrightarrow> i < length xs \<and> xs ! i = b \<and> b \<notin> set (drop (Suc i) xs)"
begin

lemma memchr_append: "b \<notin> set xs \<Longrightarrow> memchr M b (xs @ b # ys) = Some (length xs)"
proof -
  assume new: "b \<notin> set xs"
  obtain i where i: "memchr M b (xs @ b # ys) = Some i"
    using memchr_None [of b "xs @ b # ys"] by (cases "memchr M b (xs @ b # ys)") auto
  note found = memchr_Some [OF i]
  have "\<not> length xs < i"
  proof
    assume "length xs < i"
    then have "b \<in> set (take i (xs @ b # ys))" by (simp add: take_Cons')
    with found show False by simp
  qed
  moreover have "\<not> i < length xs"
    using found new by (auto simp: nth_append)
  ultimately show ?thesis using i by simp
qed

text \<open>A reverse search is determined: there is one last occurrence.\<close>

lemma memrchr_append: "b \<notin> set ys \<Longrightarrow> memrchr M b (xs @ b # ys) = Some (length xs)"
proof -
  assume new: "b \<notin> set ys"
  obtain i where i: "memrchr M b (xs @ b # ys) = Some i"
    using memrchr_None [of b "xs @ b # ys"] by (cases "memrchr M b (xs @ b # ys)") auto
  note found = memrchr_Some [OF i]
  have "\<not> i < length xs"
  proof
    assume "i < length xs"
    then have "b \<in> set (drop (Suc i) (xs @ b # ys))" by simp
    with found show False by simp
  qed
  moreover have "\<not> length xs < i"
  proof
    assume lt: "length xs < i"
    then have "ys ! (i - Suc (length xs)) = b" "i - Suc (length xs) < length ys"
      using found by (auto simp: nth_append nth_Cons')
    with new show False by (auto dest: nth_mem)
  qed
  ultimately show ?thesis using i by simp
qed

end

fun find_byte :: "u8 \<Rightarrow> u8 list \<Rightarrow> nat option" where
  "find_byte b [] = None"
| "find_byte b (x # xs) = (if x = b then Some 0 else map_option Suc (find_byte b xs))"

definition list_memchr :: memchr_crate where
  "list_memchr = \<lparr>memchr = find_byte,
     memrchr = (\<lambda>b xs. map_option (\<lambda>i. length xs - Suc i) (find_byte b (rev xs)))\<rparr>"

lemma find_byte_None: "find_byte b xs = None \<longleftrightarrow> b \<notin> set xs"
  by (induction xs) auto

lemma find_byte_Some:
  "find_byte b xs = Some i \<Longrightarrow> i < length xs \<and> xs ! i = b \<and> b \<notin> set (take i xs)"
  by (induction xs arbitrary: i) (auto split: if_splits)

interpretation list_memchr: memchr_spec list_memchr
proof
  fix b :: u8 and xs :: "u8 list" and i
  show "(memchr list_memchr b xs = None) = (b \<notin> set xs)"
    by (simp add: list_memchr_def find_byte_None)
  show "(memrchr list_memchr b xs = None) = (b \<notin> set xs)"
    by (simp add: list_memchr_def find_byte_None)
  show "memchr list_memchr b xs = Some i \<Longrightarrow> i < length xs \<and> xs ! i = b \<and> b \<notin> set (take i xs)"
    by (simp add: list_memchr_def find_byte_Some)
  assume "memrchr list_memchr b xs = Some i"
  then obtain j where j: "find_byte b (rev xs) = Some j" and i: "i = length xs - Suc j"
    by (auto simp: list_memchr_def)
  note found = find_byte_Some [OF j]
  then have "length xs - j = Suc i" using i by auto
  with found show "i < length xs \<and> xs ! i = b \<and> b \<notin> set (drop (Suc i) xs)"
    using i by (auto simp: rev_nth take_rev)
qed

section \<open>The \<open>base64\<close> crate: the engine \<open>URL_SAFE_NO_PAD\<close>\<close>

text \<open>
  \<open>b64_display\<close> is what a \<open>Base64Display\<close> prints; \<open>encode_slice\<close> and \<open>decode_slice\<close>
  write into the buffer they are given and return the number of bytes written together
  with the buffer, or nothing on an \<open>Err\<close>.
\<close>

record base64_engine =
  b64_display :: "u8 list \<Rightarrow> string"
  encode_slice :: "u8 list \<Rightarrow> u8 list \<Rightarrow> (nat \<times> u8 list) option"
  decode_slice :: "string \<Rightarrow> u8 list \<Rightarrow> (nat \<times> u8 list) option"

definition url_safe_alphabet :: string where
  "url_safe_alphabet = ''ABCDEFGHIJKLMNOPQRSTUVWXYZabcdefghijklmnopqrstuvwxyz0123456789-_''"

text \<open>
  The documented laws: without padding three bytes become four characters of the alphabet;
  decoding accepts exactly what encoding produces (trailing bits must be zero) and wants a
  buffer for the length it estimates, three bytes for every group of four characters.
\<close>

locale url_safe_no_pad =
  fixes B :: base64_engine
  assumes display_length: "length (b64_display B bs) = (4 * length bs + 2) div 3"
    and display_alphabet: "set (b64_display B bs) \<subseteq> set url_safe_alphabet"
    and encode_slice_fits: "length (b64_display B bs) \<le> length buf \<Longrightarrow>
      encode_slice B bs buf = Some (length (b64_display B bs),
        as_bytes (b64_display B bs) @ drop (length (b64_display B bs)) buf)"
    and decode_slice_display: "3 * ((length (b64_display B bs) + 3) div 4) \<le> length buf \<Longrightarrow>
      decode_slice B (b64_display B bs) buf = Some (length bs, bs @ drop (length bs) buf)"
    and decode_slice_only: "decode_slice B s buf = Some (n, buf') \<Longrightarrow>
      \<exists>bs. s = b64_display B bs \<and> n = length bs \<and> n \<le> length buf \<and> buf' = bs @ drop n buf"
begin

lemma display_inj: "b64_display B bs = b64_display B cs \<Longrightarrow> bs = cs"
proof -
  assume eq: "b64_display B bs = b64_display B cs"
  define buf where "buf = replicate (3 * ((length (b64_display B bs) + 3) div 4)) (0 :: u8)"
  have "decode_slice B (b64_display B bs) buf = Some (length bs, bs @ drop (length bs) buf)"
    by (rule decode_slice_display) (simp add: buf_def)
  moreover have "decode_slice B (b64_display B bs) buf = Some (length cs, cs @ drop (length cs) buf)"
    unfolding eq by (rule decode_slice_display) (simp add: buf_def eq)
  ultimately have "(length bs, bs @ drop (length bs) buf) = (length cs, cs @ drop (length cs) buf)"
    by (metis option.inject)
  then show ?thesis by (auto simp: append_eq_append_conv)
qed

lemma display_no_slash: "CHR ''/'' \<notin> set (b64_display B bs)"
  using display_alphabet [of bs] by (auto simp: url_safe_alphabet_def)

lemma display_no_query: "CHR ''?'' \<notin> set (b64_display B bs)"
  using display_alphabet [of bs] by (auto simp: url_safe_alphabet_def)

end

subsection \<open>RFC 4648: the reference engine\<close>

definition sextet_char :: "nat \<Rightarrow> char" where
  "sextet_char n = url_safe_alphabet ! n"

definition char_sextet :: "char \<Rightarrow> nat option" where
  "char_sextet c = find (\<lambda>n. url_safe_alphabet ! n = c) [0..<64]"

text \<open>Three bytes \<open>a\<close>, \<open>b\<close>, \<open>c\<close> as four sextets, and four sextets as three bytes.\<close>

definition sextet1 :: "nat \<Rightarrow> nat" where "sextet1 a = a div 4"
definition sextet2 :: "nat \<Rightarrow> nat \<Rightarrow> nat" where "sextet2 a b = a mod 4 * 16 + b div 16"
definition sextet3 :: "nat \<Rightarrow> nat \<Rightarrow> nat" where "sextet3 b c = b mod 16 * 4 + c div 64"
definition sextet4 :: "nat \<Rightarrow> nat" where "sextet4 c = c mod 64"

definition octet :: "nat \<Rightarrow> u8" where "octet n = of_nat n"
definition octet1 :: "nat \<Rightarrow> nat \<Rightarrow> nat" where "octet1 x y = x * 4 + y div 16"
definition octet2 :: "nat \<Rightarrow> nat \<Rightarrow> nat" where "octet2 y z = y mod 16 * 16 + z div 4"
definition octet3 :: "nat \<Rightarrow> nat \<Rightarrow> nat" where "octet3 z w = z mod 4 * 64 + w"

fun rfc4648_encode :: "u8 list \<Rightarrow> string" where
  "rfc4648_encode [] = []"
| "rfc4648_encode [a] = [sextet_char (sextet1 (unat a)), sextet_char (sextet2 (unat a) 0)]"
| "rfc4648_encode [a, b] =
     [sextet_char (sextet1 (unat a)), sextet_char (sextet2 (unat a) (unat b)),
      sextet_char (sextet3 (unat b) 0)]"
| "rfc4648_encode (a # b # c # rest) =
     sextet_char (sextet1 (unat a)) # sextet_char (sextet2 (unat a) (unat b))
     # sextet_char (sextet3 (unat b) (unat c)) # sextet_char (sextet4 (unat c))
     # rfc4648_encode rest"

fun rfc4648_decode :: "string \<Rightarrow> u8 list option" where
  "rfc4648_decode [] = Some []"
| "rfc4648_decode [p] = None"
| "rfc4648_decode [p, q] =
     (case (char_sextet p, char_sextet q) of
        (Some x, Some y) \<Rightarrow> if y mod 16 = 0 then Some [octet (octet1 x y)] else None
      | _ \<Rightarrow> None)"
| "rfc4648_decode [p, q, r] =
     (case (char_sextet p, char_sextet q, char_sextet r) of
        (Some x, Some y, Some z) \<Rightarrow>
          if z mod 4 = 0 then Some [octet (octet1 x y), octet (octet2 y z)] else None
      | _ \<Rightarrow> None)"
| "rfc4648_decode (p # q # r # t # rest) =
     (case (char_sextet p, char_sextet q, char_sextet r, char_sextet t, rfc4648_decode rest) of
        (Some x, Some y, Some z, Some w, Some bs) \<Rightarrow>
          Some (octet (octet1 x y) # octet (octet2 y z) # octet (octet3 z w) # bs)
      | _ \<Rightarrow> None)"

definition rfc4648_engine :: base64_engine where
  "rfc4648_engine = \<lparr>b64_display = rfc4648_encode,
     encode_slice = (\<lambda>bs buf. let s = as_bytes (rfc4648_encode bs)
       in if length s \<le> length buf then Some (length s, s @ drop (length s) buf) else None),
     decode_slice = (\<lambda>s buf. if length buf < 3 * ((length s + 3) div 4) then None
       else map_option (\<lambda>bs. (length bs, bs @ drop (length bs) buf)) (rfc4648_decode s))\<rparr>"

lemma alphabet_distinct: "distinct url_safe_alphabet" "length url_safe_alphabet = 64"
  by (code_simp, code_simp)

lemma char_sextet_char: "n < 64 \<Longrightarrow> char_sextet (sextet_char n) = Some n"
  using alphabet_distinct
  by (auto simp: char_sextet_def sextet_char_def find_Some_iff nth_eq_iff_index_eq intro!: exI [of _ n])

lemma char_sextet_Some: "char_sextet c = Some n \<Longrightarrow> n < 64 \<and> sextet_char n = c"
  by (auto simp: char_sextet_def sextet_char_def find_Some_iff)

lemma sextet_char_alphabet: "n < 64 \<Longrightarrow> sextet_char n \<in> set url_safe_alphabet"
  using alphabet_distinct by (simp add: sextet_char_def)

lemma digit_split: "r < (n :: nat) \<Longrightarrow> (q * n + r) div n = q" "r < n \<Longrightarrow> (q * n + r) mod n = r"
  by simp_all

lemma digit_less: "q < m \<Longrightarrow> r < n \<Longrightarrow> q * n + r < m * (n :: nat)"
proof -
  assume "q < m" "r < n"
  then have "q * n + r < Suc q * n" by simp
  also have "\<dots> \<le> m * n" using \<open>q < m\<close> by (intro mult_le_mono1) simp
  finally show ?thesis .
qed

lemma div_less: "(a :: nat) < m * n \<Longrightarrow> a div n < m"
  by (simp add: less_mult_imp_div_less)

lemma sextet_less:
  assumes "a < 256" "b < 256" "c < 256"
  shows "sextet1 a < 64" "sextet2 a b < 64" "sextet3 b c < 64" "sextet4 c < 64"
proof -
  show "sextet1 a < 64" using assms by (auto simp: sextet1_def intro: div_less)
  show "sextet2 a b < 64"
    using digit_less [of "a mod 4" 4 "b div 16" 16] div_less [of b 16 16] assms
    by (simp add: sextet2_def)
  show "sextet3 b c < 64"
    using digit_less [of "b mod 16" 16 "c div 64" 4] div_less [of c 4 64] assms
    by (simp add: sextet3_def)
qed (simp add: sextet4_def)

lemma octet_less:
  assumes "x < 64" "y < 64" "z < 64" "w < 64"
  shows "octet1 x y < 256" "octet2 y z < 256" "octet3 z w < 256"
proof -
  show "octet1 x y < 256"
    using digit_less [of x 64 "y div 16" 4] div_less [of y 4 16] assms by (simp add: octet1_def)
  show "octet2 y z < 256"
    using digit_less [of "y mod 16" 16 "z div 4" 16] div_less [of z 16 4] assms
    by (simp add: octet2_def)
  show "octet3 z w < 256"
    using digit_less [of "z mod 4" 4 w 64] assms by (simp add: octet3_def)
qed

lemma octet_sextet:
  assumes "b < 256" "c < 256"
  shows "octet1 (sextet1 a) (sextet2 a b) = a" "octet2 (sextet2 a b) (sextet3 b c) = b"
    "octet3 (sextet3 b c) (sextet4 c) = c"
proof -
  have b: "b div 16 < 16" and c: "c div 64 < 4" using assms by (simp_all add: div_less)
  show "octet1 (sextet1 a) (sextet2 a b) = a"
    unfolding octet1_def sextet1_def sextet2_def digit_split [OF b] by (rule div_mult_mod_eq)
  show "octet2 (sextet2 a b) (sextet3 b c) = b"
    unfolding octet2_def sextet2_def sextet3_def digit_split [OF b] digit_split [OF c]
    by (rule div_mult_mod_eq)
  show "octet3 (sextet3 b c) (sextet4 c) = c"
    unfolding octet3_def sextet3_def sextet4_def digit_split [OF c] by (rule div_mult_mod_eq)
qed

lemma sextet_octet:
  assumes "y < 64" "z < 64" "w < 64"
  shows "sextet1 (octet1 x y) = x" "sextet2 (octet1 x y) (octet2 y z) = y"
    "sextet3 (octet2 y z) (octet3 z w) = z" "sextet4 (octet3 z w) = w"
proof -
  have y: "y div 16 < 4" and z: "z div 4 < 16" using assms by (simp_all add: div_less)
  show "sextet1 (octet1 x y) = x"
    unfolding sextet1_def octet1_def digit_split [OF y] by (rule refl)
  show "sextet2 (octet1 x y) (octet2 y z) = y"
    unfolding sextet2_def octet1_def octet2_def digit_split [OF y] digit_split [OF z]
    by (rule div_mult_mod_eq)
  show "sextet3 (octet2 y z) (octet3 z w) = z"
    unfolding sextet3_def octet2_def octet3_def digit_split [OF z] digit_split [OF assms(3)]
    by (rule div_mult_mod_eq)
  show "sextet4 (octet3 z w) = w"
    unfolding sextet4_def octet3_def digit_split [OF assms(3)] by (rule refl)
qed

lemma trailing_bits:
  "sextet2 a 0 mod 16 = 0" "sextet3 b 0 mod 4 = 0"
  "y mod 16 = 0 \<Longrightarrow> octet2 y 0 = 0" "z mod 4 = 0 \<Longrightarrow> octet3 z 0 = 0"
  by (simp_all add: sextet2_def sextet3_def octet2_def octet3_def)

lemma unat_octet: "n < 256 \<Longrightarrow> unat (octet n) = n"
  by (simp add: octet_def unat_of_nat)

lemma octet_unat [simp]: "octet (unat b) = b"
  by (simp add: octet_def)

lemma rfc4648_decode_encode [simp]: "rfc4648_decode (rfc4648_encode bs) = Some bs"
proof (induction bs rule: rfc4648_encode.induct)
  case (2 a)
  have a: "unat a < 256" "0 < (256 :: nat)" by (simp_all add: unat_u8_less)
  show ?case
    using sextet_less [OF a(1) a(2) a(2)] octet_sextet [OF a(2) a(2)]
    by (simp add: char_sextet_char trailing_bits)
next
  case (3 a b)
  have ab: "unat a < 256" "unat b < 256" "0 < (256 :: nat)" by (simp_all add: unat_u8_less)
  show ?case
    using sextet_less [OF ab] octet_sextet [OF ab(2,3)]
    by (simp add: char_sextet_char trailing_bits)
next
  case (4 a b c rest)
  have abc: "unat a < 256" "unat b < 256" "unat c < 256" by (simp_all add: unat_u8_less)
  show ?case
    using sextet_less [OF abc] octet_sextet [OF abc(2,3)] 4
    by (simp add: char_sextet_char)
qed simp

lemma rfc4648_encode_decode: "rfc4648_decode s = Some bs \<Longrightarrow> rfc4648_encode bs = s"
proof (induction s arbitrary: bs rule: rfc4648_decode.induct)
  case (3 p q)
  then obtain x y where d: "char_sextet p = Some x" "char_sextet q = Some y" "y mod 16 = 0"
    and bs: "bs = [octet (octet1 x y)]"
    by (auto split: option.splits if_splits)
  have b: "x < 64" "y < 64" "0 < (64 :: nat)" "0 < (64 :: nat)"
    and ch: "sextet_char x = p" "sextet_char y = q"
    using char_sextet_Some [OF d(1)] char_sextet_Some [OF d(2)] by simp_all
  show ?case
    using sextet_octet [OF b(2-4)] octet_less [OF b] trailing_bits(3) [OF d(3)] ch
    by (simp add: bs unat_octet)
next
  case (4 p q r)
  then obtain x y z where d: "char_sextet p = Some x" "char_sextet q = Some y"
      "char_sextet r = Some z" "z mod 4 = 0"
    and bs: "bs = [octet (octet1 x y), octet (octet2 y z)]"
    by (auto split: option.splits if_splits)
  have b: "x < 64" "y < 64" "z < 64" "0 < (64 :: nat)"
    and ch: "sextet_char x = p" "sextet_char y = q" "sextet_char z = r"
    using char_sextet_Some [OF d(1)] char_sextet_Some [OF d(2)] char_sextet_Some [OF d(3)]
    by simp_all
  show ?case
    using sextet_octet [OF b(2-4)] octet_less [OF b] trailing_bits(4) [OF d(4)] ch
    by (simp add: bs unat_octet)
next
  case (5 p q r t rest)
  then obtain x y z w cs where d: "char_sextet p = Some x" "char_sextet q = Some y"
      "char_sextet r = Some z" "char_sextet t = Some w" "rfc4648_decode rest = Some cs"
    and bs: "bs = octet (octet1 x y) # octet (octet2 y z) # octet (octet3 z w) # cs"
    by (auto split: option.splits)
  have b: "x < 64" "y < 64" "z < 64" "w < 64"
    and ch: "sextet_char x = p" "sextet_char y = q" "sextet_char z = r" "sextet_char w = t"
    using char_sextet_Some [OF d(1)] char_sextet_Some [OF d(2)] char_sextet_Some [OF d(3)]
      char_sextet_Some [OF d(4)] by simp_all
  have rest: "rfc4648_encode cs = rest" using 5 d by simp
  show ?case
    using sextet_octet [OF b(2-4)] octet_less [OF b] ch rest by (simp add: bs unat_octet)
qed simp_all

lemma length_rfc4648_encode: "length (rfc4648_encode bs) = (4 * length bs + 2) div 3"
  by (induction bs rule: rfc4648_encode.induct) auto

lemma rfc4648_alphabet: "set (rfc4648_encode bs) \<subseteq> set url_safe_alphabet"
proof (induction bs rule: rfc4648_encode.induct)
  case (2 a)
  have a: "unat a < 256" "0 < (256 :: nat)" by (simp_all add: unat_u8_less)
  show ?case using sextet_less [OF a(1) a(2) a(2)] by (simp add: sextet_char_alphabet)
next
  case (3 a b)
  have ab: "unat a < 256" "unat b < 256" "0 < (256 :: nat)" by (simp_all add: unat_u8_less)
  show ?case using sextet_less [OF ab] by (simp add: sextet_char_alphabet)
next
  case (4 a b c rest)
  have abc: "unat a < 256" "unat b < 256" "unat c < 256" by (simp_all add: unat_u8_less)
  show ?case using sextet_less [OF abc] 4 by (simp add: sextet_char_alphabet)
qed simp

interpretation rfc4648: url_safe_no_pad rfc4648_engine
proof
  fix bs buf buf' :: "u8 list" and s :: string and n
  show "length (b64_display rfc4648_engine bs) = (4 * length bs + 2) div 3"
    by (simp add: rfc4648_engine_def length_rfc4648_encode)
  show "set (b64_display rfc4648_engine bs) \<subseteq> set url_safe_alphabet"
    using rfc4648_alphabet by (simp add: rfc4648_engine_def)
  show "length (b64_display rfc4648_engine bs) \<le> length buf \<Longrightarrow>
    encode_slice rfc4648_engine bs buf = Some (length (b64_display rfc4648_engine bs),
      as_bytes (b64_display rfc4648_engine bs) @ drop (length (b64_display rfc4648_engine bs)) buf)"
    by (simp add: rfc4648_engine_def Let_def)
  show "3 * ((length (b64_display rfc4648_engine bs) + 3) div 4) \<le> length buf \<Longrightarrow>
    decode_slice rfc4648_engine (b64_display rfc4648_engine bs) buf =
      Some (length bs, bs @ drop (length bs) buf)"
    by (simp add: rfc4648_engine_def)
  assume "decode_slice rfc4648_engine s buf = Some (n, buf')"
  then have fits: "3 * ((length s + 3) div 4) \<le> length buf"
    and "\<exists>bs. rfc4648_decode s = Some bs \<and> n = length bs \<and> buf' = bs @ drop (length bs) buf"
    by (auto simp: rfc4648_engine_def split: if_splits)
  then obtain cs where cs: "rfc4648_decode s = Some cs" "n = length cs" "buf' = cs @ drop (length cs) buf"
    by blast
  have s: "rfc4648_encode cs = s" using cs(1) by (rule rfc4648_encode_decode)
  have "length s = (4 * length cs + 2) div 3" using length_rfc4648_encode [of cs] s by simp
  then have "length cs \<le> 3 * ((length s + 3) div 4)" by presburger
  with fits s cs show "\<exists>bs. s = b64_display rfc4648_engine bs \<and> n = length bs \<and> n \<le> length buf
      \<and> buf' = bs @ drop n buf"
    by (auto simp: rfc4648_engine_def)
qed


section \<open>The \<open>hex\<close> crate\<close>

text \<open>\<open>hex::decode_to_slice\<close> fills the buffer it is given, or fails.\<close>

record hex_crate =
  decode_to_slice :: "u8 list \<Rightarrow> u8 list \<Rightarrow> u8 list option"

definition hex_digit :: "u8 \<Rightarrow> nat option" where
  "hex_digit c =
     (if 48 \<le> c \<and> c \<le> 57 then Some (unat c - 48)
      else if 97 \<le> c \<and> c \<le> 102 then Some (unat c - 87)
      else if 65 \<le> c \<and> c \<le> 70 then Some (unat c - 55)
      else None)"

fun hex_bytes :: "u8 list \<Rightarrow> u8 list option" where
  "hex_bytes [] = Some []"
| "hex_bytes [c] = None"
| "hex_bytes (c # d # rest) =
     (case (hex_digit c, hex_digit d, hex_bytes rest) of
        (Some h, Some l, Some bs) \<Rightarrow> Some (of_nat (16 * h + l) # bs)
      | _ \<Rightarrow> None)"

locale hex_spec =
  fixes H :: hex_crate
  assumes decode_to_slice: "decode_to_slice H data out =
    (if length data = 2 * length out then hex_bytes data else None)"

definition list_hex :: hex_crate where
  "list_hex = \<lparr>decode_to_slice =
     (\<lambda>data out. if length data = 2 * length out then hex_bytes data else None)\<rparr>"

interpretation list_hex: hex_spec list_hex
  by unfold_locales (simp add: list_hex_def)

text \<open>The digits \<open>hex::encode\<close> prints, as a hub does for its signature header.\<close>

definition lower_digit :: "nat \<Rightarrow> u8" where
  "lower_digit n = (if n < 10 then of_nat (48 + n) else of_nat (87 + n))"

fun hex_encode :: "u8 list \<Rightarrow> u8 list" where
  "hex_encode [] = []"
| "hex_encode (b # bs) = lower_digit (unat b div 16) # lower_digit (unat b mod 16) # hex_encode bs"

lemma hex_digit_lower: "n < 16 \<Longrightarrow> hex_digit (lower_digit n) = Some n"
proof -
  assume "n < 16"
  moreover have "\<forall>n \<in> set [0..<16]. hex_digit (lower_digit n) = Some n" by code_simp
  ultimately show ?thesis by simp
qed

lemma length_hex_encode [simp]: "length (hex_encode bs) = 2 * length bs"
  by (induction bs) auto

lemma hex_bytes_encode [simp]: "hex_bytes (hex_encode bs) = Some bs"
proof (induction bs)
  case (Cons b bs)
  have "unat b div 16 < 16" "unat b mod 16 < 16"
    using unat_u8_less [of b] by (simp_all add: less_mult_imp_div_less)
  moreover have eq: "16 * (unat b div 16) + unat b mod 16 = unat b" by simp
  have "(of_nat (16 * (unat b div 16) + unat b mod 16) :: u8) = b" unfolding eq by simp
  ultimately show ?case using Cons by (simp add: hex_digit_lower del: of_nat_add of_nat_mult)
qed simp

lemma hex_bytes_length: "hex_bytes cs = Some bs \<Longrightarrow> length cs = 2 * length bs"
  by (induction cs arbitrary: bs rule: hex_bytes.induct) (auto split: option.splits)

section \<open>The \<open>hmac\<close> crate over the \<open>sha1\<close> and \<open>sha2\<close> digests\<close>

datatype digest_alg = SHA1 | SHA256 | SHA384 | SHA512

text \<open>The output sizes in bytes that the digest crates fix in their types.\<close>

fun output_size :: "digest_alg \<Rightarrow> nat" where
  "output_size SHA1 = 20"
| "output_size SHA256 = 32"
| "output_size SHA384 = 48"
| "output_size SHA512 = 64"

text \<open>\<open>Mac::new_from_slice\<close>, \<open>update\<close> and \<open>finalize_reset\<close> of \<open>Hmac<D>\<close>, over the
  crate's own state \<open>'m\<close>.\<close>

record 'm mac_crate =
  new_from_slice :: "digest_alg \<Rightarrow> u8 list \<Rightarrow> 'm option"
  hmac_update :: "digest_alg \<Rightarrow> 'm \<Rightarrow> u8 list \<Rightarrow> 'm"
  finalize_reset :: "digest_alg \<Rightarrow> 'm \<Rightarrow> u8 list \<times> 'm"

text \<open>
  HMAC takes a key of any length; the code of a message does not depend on how the message
  was cut into updates; resetting keeps the key. \<open>keyed a k c m\<close>: the state \<open>m\<close> runs
  \<open>a\<close> under the key \<open>k\<close> and has absorbed \<open>c\<close>.
\<close>

locale mac_spec =
  fixes K :: "'m mac_crate"
    and tag :: "digest_alg \<Rightarrow> u8 list \<Rightarrow> u8 list \<Rightarrow> u8 list"
    and keyed :: "digest_alg \<Rightarrow> u8 list \<Rightarrow> u8 list \<Rightarrow> 'm \<Rightarrow> bool"
  assumes mac_new: "\<exists>m. new_from_slice K a k = Some m \<and> keyed a k [] m"
    and hmac_update: "keyed a k c m \<Longrightarrow> keyed a k (c @ d) (hmac_update K a m d)"
    and mac_finalize: "keyed a k c m \<Longrightarrow> finalize_reset K a m = (t, m') \<Longrightarrow>
      t = tag a k c \<and> keyed a k [] m'"

text \<open>A state that buffers the message satisfies the laws for every code function.\<close>

definition buffered_mac :: "(digest_alg \<Rightarrow> u8 list \<Rightarrow> u8 list \<Rightarrow> u8 list) \<Rightarrow>
    (u8 list \<times> u8 list) mac_crate" where
  "buffered_mac tag = \<lparr>new_from_slice = (\<lambda>a k. Some (k, [])),
     hmac_update = (\<lambda>a (k, c) d. (k, c @ d)),
     finalize_reset = (\<lambda>a (k, c). (tag a k c, (k, [])))\<rparr>"

definition buffered :: "digest_alg \<Rightarrow> u8 list \<Rightarrow> u8 list \<Rightarrow> u8 list \<times> u8 list \<Rightarrow> bool" where
  "buffered a k c m \<longleftrightarrow> m = (k, c)"

interpretation buffered_mac: mac_spec "buffered_mac tag" tag buffered for tag
  by unfold_locales (auto simp: buffered_mac_def buffered_def)

section \<open>The \<open>rand\<close> crate\<close>

text \<open>\<open>RngCore\<close>: \<open>next_u64\<close> and \<open>fill_bytes\<close> on a buffer of the given length.\<close>

record 'g rng_core =
  next_u64 :: "'g \<Rightarrow> u64 \<times> 'g"
  fill_bytes :: "nat \<Rightarrow> 'g \<Rightarrow> u8 list \<times> 'g"

fun rng_after :: "'g rng_core \<Rightarrow> nat \<Rightarrow> 'g \<Rightarrow> 'g" where
  "rng_after R 0 g = g"
| "rng_after R (Suc n) g = rng_after R n (snd (next_u64 R g))"

text \<open>
  \<open>fill_bytes\<close> fills the whole buffer. A generator is not stuck: whatever ids are taken, as
  long as one is free it draws a free one sooner or later.
\<close>

locale rng_spec =
  fixes R :: "'g rng_core"
  assumes length_fill: "length (fst (fill_bytes R n g)) = n"
    and not_stuck: "S \<noteq> UNIV \<Longrightarrow> \<exists>n. fst (next_u64 R (rng_after R n g)) \<notin> S"

definition counter_rng :: "u64 rng_core" where
  "counter_rng = \<lparr>next_u64 = (\<lambda>g. (g, g + 1)), fill_bytes = (\<lambda>n g. (replicate n (ucast g), g + 1))\<rparr>"

lemma counter_rng_after: "rng_after counter_rng n g = g + of_nat n"
  by (induction n arbitrary: g) (simp_all add: counter_rng_def)

interpretation counter_rng: rng_spec counter_rng
proof
  fix g and S :: "u64 set"
  assume "S \<noteq> UNIV"
  then obtain x where "x \<notin> S" by blast
  moreover have "g + of_nat (unat (x - g)) = x" by simp
  ultimately show "\<exists>n. fst (next_u64 counter_rng (rng_after counter_rng n g)) \<notin> S"
    unfolding counter_rng_after by (auto simp: counter_rng_def intro!: exI [of _ "unat (x - g)"])
qed (simp add: counter_rng_def)

end
