(* ===== verification/Database.thy ===== *)
theory Database
  imports Crates
begin

text \<open>
  \<open>src/db.rs\<close>: the traits a database backend implements, and their contract. A connection
  of type \<open>'c\<close> holds a table of subscriptions, its view \<open>subs\<close> a map from ids; the
  subscriber relies on the laws of the locale \<open>connection_ref\<close> only, and the
  backends of \<open>Diesel2\<close> and \<open>Diesel1\<close> prove them.
\<close>

section \<open>The table of subscriptions\<close>

record sub =
  sub_hub :: string
  sub_topic :: string
  sub_secret :: string
  sub_expires_at :: "i64 option"

text \<open>What the operations promise to do to the table.\<close>

type_synonym table = "u64 \<Rightarrow> sub option"

definition expires_before :: "i64 \<Rightarrow> sub \<Rightarrow> bool" where
  "expires_before t s = (case sub_expires_at s of None \<Rightarrow> False | Some e \<Rightarrow> sint e \<le> sint t)"

definition created :: "u64 \<Rightarrow> string \<Rightarrow> string \<Rightarrow> string \<Rightarrow> table \<Rightarrow> table" where
  "created i hub topic secret m =
     m(i \<mapsto> \<lparr>sub_hub = hub, sub_topic = topic, sub_secret = secret, sub_expires_at = None\<rparr>)"

definition activated :: "u64 \<Rightarrow> i64 \<Rightarrow> table \<Rightarrow> table" where
  "activated i e m = m(i := map_option (\<lambda>s. s\<lparr>sub_expires_at := Some e\<rparr>) (m i))"

definition deactivated :: "i64 \<Rightarrow> table \<Rightarrow> table" where
  "deactivated t m =
     (\<lambda>i. map_option (\<lambda>s. if expires_before t s then s\<lparr>sub_expires_at := None\<rparr> else s) (m i))"

definition expiring :: "i64 \<Rightarrow> table \<Rightarrow> (u64 \<times> string \<times> string) set" where
  "expiring t m = {(i, sub_hub s, sub_topic s) | i s. m i = Some s \<and> expires_before t s}"

definition duplicates :: "u64 \<Rightarrow> string \<Rightarrow> string \<Rightarrow> table \<Rightarrow> u64 set" where
  "duplicates i hub topic m =
     {j. j \<noteq> i \<and> (\<exists>s. m j = Some s \<and> sub_hub s = hub \<and> sub_topic s = topic)}"

definition first_expiry :: "table \<Rightarrow> i64 option \<Rightarrow> bool" where
  "first_expiry m r = (case r of
      None \<Rightarrow> \<forall>i s. m i = Some s \<longrightarrow> sub_expires_at s = None
    | Some e \<Rightarrow> (\<exists>i s. m i = Some s \<and> sub_expires_at s = Some e) \<and>
        (\<forall>i s e'. m i = Some s \<longrightarrow> sub_expires_at s = Some e' \<longrightarrow> sint e \<le> sint e'))"

lemma expires_before_None [simp]: "sub_expires_at s = None \<Longrightarrow> \<not> expires_before t s"
  by (simp add: expires_before_def)

lemma expires_before_Some [simp]:
  "sub_expires_at s = Some e \<Longrightarrow> expires_before t s \<longleftrightarrow> sint e \<le> sint t"
  by (simp add: expires_before_def)

lemma dom_activated [simp]: "dom (activated i e m) = dom m"
  by (auto simp: activated_def dom_def)

lemma dom_deactivated [simp]: "dom (deactivated t m) = dom m"
  by (auto simp: deactivated_def dom_def)

lemma deactivated_active:
  "deactivated t m i = Some s \<Longrightarrow> sub_expires_at s = Some e \<Longrightarrow>
     m i = Some s \<and> sint t < sint e"
proof -
  assume "deactivated t m i = Some s" and e: "sub_expires_at s = Some e"
  then obtain s0 where s0: "m i = Some s0"
    "s = (if expires_before t s0 then s0\<lparr>sub_expires_at := None\<rparr> else s0)"
    by (auto simp: deactivated_def)
  with e have "\<not> expires_before t s0" "s = s0" by (auto split: if_splits)
  with s0(1) e show ?thesis by simp
qed

section \<open>The trait \<open>ConnectionRef\<close>\<close>

text \<open>
  \<open>rand::thread_rng()\<close> is ambient: an operation that draws numbers acts on the
  connection and the thread. The closure of a transaction may act on whatever the thread's
  record is extended with.
\<close>

record 'g thread =
  thread_rng :: 'g

record ('c, 'e, 'w) connection =
  conn_transaction :: "('c \<times> 'w, 'e, unit) action \<Rightarrow> ('c \<times> 'w, 'e, unit) action"
  conn_create_subscription :: "string \<Rightarrow> string \<Rightarrow> string \<Rightarrow> ('c \<times> 'w, 'e, u64) action"
  conn_get_topic :: "u64 \<Rightarrow> ('c, 'e, (string \<times> string) option) action"
  conn_subscription_exists :: "u64 \<Rightarrow> string \<Rightarrow> ('c, 'e, bool) action"
  conn_get_subscriptions_expire_before :: "i64 \<Rightarrow> ('c, 'e, (u64 \<times> string \<times> string) list) action"
  conn_get_hub_of_inactive_subscription :: "u64 \<Rightarrow> string \<Rightarrow> ('c, 'e, string option) action"
  conn_get_old_subscriptions :: "u64 \<Rightarrow> string \<Rightarrow> string \<Rightarrow> ('c, 'e, u64 list) action"
  conn_activate_subscription :: "u64 \<Rightarrow> i64 \<Rightarrow> ('c, 'e, bool) action"
  conn_deactivate_subscriptions_expire_before :: "i64 \<Rightarrow> ('c, 'e, unit) action"
  conn_delete_subscriptions :: "u64 \<Rightarrow> ('c, 'e, bool) action"
  conn_get_next_expiry :: "('c, 'e, i64 option) action"

text \<open>\<open>Pool::get\<close>: from now on the connection is one of the pool's, or the pool fails.\<close>

type_synonym ('c, 'e) pool = "('c, 'e, unit) action"

section \<open>The contract\<close>

text \<open>
  \<open>statement tbl up m P\<close>: the action \<open>m\<close> either succeeds as \<open>P\<close> says of the table
  before, the value and the table after, or fails with an error and leaves the table alone.
  While the database is \<open>up\<close> it succeeds and stays up.
\<close>

definition statement ::
  "('c \<Rightarrow> 't) \<Rightarrow> ('c \<Rightarrow> bool) \<Rightarrow> ('c, 'e, 'a) action \<Rightarrow> ('t \<Rightarrow> 'a \<Rightarrow> 't \<Rightarrow> bool) \<Rightarrow> bool" where
  "statement tbl up m P \<longleftrightarrow> (\<forall>c r c'. m c = (r, c') \<longrightarrow>
     ((\<exists>a. r = Inr a \<and> P (tbl c) a (tbl c')) \<or> (\<exists>e. r = Inl (Err e) \<and> tbl c' = tbl c)) \<and>
     (up c \<longrightarrow> (\<exists>a. r = Inr a) \<and> up c'))"

text \<open>
  \<open>transactional tbl up T\<close>: the transaction does not begin, or its body runs on the table
  as it is; a body that succeeds is committed, or the commit fails; an error of the body is
  returned. On every error the table is as before. A body that panics or never ends does so
  for the caller. What the body did outside of the database stays done.
\<close>

definition transactional ::
  "('c \<Rightarrow> 't) \<Rightarrow> ('c \<Rightarrow> bool) \<Rightarrow>
    (('c \<times> 'w, 'e, 'a) action \<Rightarrow> ('c \<times> 'w, 'e, 'a) action) \<Rightarrow> bool" where
  "transactional tbl up T \<longleftrightarrow> (\<forall>f c w r c' w'. T f (c, w) = (r, (c', w')) \<longrightarrow>
     (\<exists>e. \<not> up c \<and> r = Inl (Err e) \<and> tbl c' = tbl c \<and> w' = w) \<or>
     (\<exists>c1 r1 c2. tbl c1 = tbl c \<and> (up c \<longrightarrow> up c1) \<and> f (c1, w) = (r1, (c2, w')) \<and>
       (case r1 of
          Inr a \<Rightarrow> (r = Inr a \<and> tbl c' = tbl c2 \<and> (up c2 \<longrightarrow> up c')) \<or>
                   (\<exists>e. \<not> up c2 \<and> r = Inl (Err e) \<and> tbl c' = tbl c)
        | Inl (Err e) \<Rightarrow> r = Inl (Err e) \<and> tbl c' = tbl c \<and> (up c2 \<longrightarrow> up c')
        | Inl f \<Rightarrow> r = Inl f)))"

text \<open>What \<open>create_subscription\<close> promises: a fresh inactive row; it may draw forever.\<close>

definition creates ::
  "('c \<Rightarrow> table) \<Rightarrow> string \<Rightarrow> string \<Rightarrow> string \<Rightarrow> 'c \<Rightarrow> ('g, 'z) thread_scheme \<Rightarrow>
    ('e, u64) result \<Rightarrow> 'c \<Rightarrow> ('g, 'z) thread_scheme \<Rightarrow> bool" where
  "creates tbl hub topic secret c w r c' w' \<longleftrightarrow>
     (\<exists>g. w' = w\<lparr>thread_rng := g\<rparr>) \<and>
     (case r of
        Inr i \<Rightarrow> i \<notin> dom (tbl c) \<and> tbl c' = created i hub topic secret (tbl c)
      | Inl (Err e) \<Rightarrow> tbl c' = tbl c
      | Inl f \<Rightarrow> f = Diverge)"

locale connection_ref =
  fixes D :: "('c, 'e, ('g, 'z) thread_scheme) connection"
    and R :: "'g rng_core"
    and subs :: "'c \<Rightarrow> table"
    and up :: "'c \<Rightarrow> bool"
  assumes transaction: "transactional subs up (conn_transaction D)"
    and create_subscription:
      "conn_create_subscription D hub topic secret (c, w) = (r, (c', w')) \<Longrightarrow>
         creates subs hub topic secret c w r c' w'"
    and create_subscription_up:
      "conn_create_subscription D hub topic secret (c, w) = (r, (c', w')) \<Longrightarrow> up c \<Longrightarrow>
         r \<noteq> Inl Diverge \<Longrightarrow> (\<exists>i. r = Inr i) \<and> up c'"
    and create_subscription_ends:
      "conn_create_subscription D hub topic secret (c, w) = (r, (c', w')) \<Longrightarrow>
         fst (next_u64 R (rng_after R n (thread_rng w))) \<notin> dom (subs c) \<Longrightarrow> r \<noteq> Inl Diverge"
    and get_topic: "statement subs up (conn_get_topic D i)
      (\<lambda>m a m'. m' = m \<and> a = map_option (\<lambda>s. (sub_topic s, sub_secret s)) (m i))"
    and subscription_exists: "statement subs up (conn_subscription_exists D i topic)
      (\<lambda>m a m'. m' = m \<and> (a \<longleftrightarrow> (\<exists>s. m i = Some s \<and> sub_topic s = topic)))"
    and get_subscriptions_expire_before: "statement subs up (conn_get_subscriptions_expire_before D t)
      (\<lambda>m xs m'. m' = m \<and> distinct (map fst xs) \<and> set xs = expiring t m)"
    and get_hub_of_inactive_subscription:
      "statement subs up (conn_get_hub_of_inactive_subscription D i topic)
        (\<lambda>m a m'. m' = m \<and> a = (case m i of
           Some s \<Rightarrow> if sub_topic s = topic \<and> sub_expires_at s = None then Some (sub_hub s) else None
         | None \<Rightarrow> None))"
    and get_old_subscriptions: "statement subs up (conn_get_old_subscriptions D i hub topic)
      (\<lambda>m xs m'. m' = m \<and> distinct xs \<and> set xs = duplicates i hub topic m)"
    and activate_subscription: "statement subs up (conn_activate_subscription D i e)
      (\<lambda>m a m'. m' = activated i e m \<and> (a \<longleftrightarrow> i \<in> dom m))"
    and deactivate_subscriptions_expire_before:
      "statement subs up (conn_deactivate_subscriptions_expire_before D t)
        (\<lambda>m _ m'. m' = deactivated t m)"
    and delete_subscriptions: "statement subs up (conn_delete_subscriptions D i)
      (\<lambda>m a m'. m' = m(i := None) \<and> (a \<longleftrightarrow> i \<in> dom m))"
    and get_next_expiry: "statement subs up (conn_get_next_expiry D)
      (\<lambda>m a m'. m' = m \<and> first_expiry m a)"

section \<open>Using the contract\<close>

lemma statementE:
  assumes "statement tbl up m P" "m c = (r, c')"
  obtains (ok) a where "r = Inr a" "P (tbl c) a (tbl c')" "up c \<Longrightarrow> up c'"
  | (err) e where "r = Inl (Err e)" "tbl c' = tbl c" "\<not> up c"
  using assms unfolding statement_def by (metis sum.distinct(1) sum.inject)

lemma statement_on_fstE:
  assumes "statement tbl up m P" "on_fst m (c, w) = (r, t)"
  obtains (ok) a c' where "t = (c', w)" "r = Inr a" "P (tbl c) a (tbl c')" "up c \<Longrightarrow> up c'"
  | (err) e c' where "t = (c', w)" "r = Inl (Err e)" "tbl c' = tbl c" "\<not> up c"
  using statementE [OF assms(1)] assms(2) unfolding on_fst_Inr by metis

lemma transactionE:
  assumes "transactional tbl up T" "T f (c, w) = (r, (c', w'))"
  obtains (not_begun) e where "\<not> up c" "r = Inl (Err e)" "tbl c' = tbl c" "w' = w"
  | (committed) c1 a c2 where "tbl c1 = tbl c" "up c \<Longrightarrow> up c1" "f (c1, w) = (Inr a, (c2, w'))"
      "r = Inr a" "tbl c' = tbl c2" "up c2 \<Longrightarrow> up c'"
  | (not_committed) c1 a c2 e where "tbl c1 = tbl c" "up c \<Longrightarrow> up c1"
      "f (c1, w) = (Inr a, (c2, w'))" "\<not> up c2" "r = Inl (Err e)" "tbl c' = tbl c"
  | (rolled_back) c1 c2 e where "tbl c1 = tbl c" "up c \<Longrightarrow> up c1"
      "f (c1, w) = (Inl (Err e), (c2, w'))" "r = Inl (Err e)" "tbl c' = tbl c" "up c2 \<Longrightarrow> up c'"
  | (no_return) c1 c2 where "tbl c1 = tbl c" "up c \<Longrightarrow> up c1" "f (c1, w) = (r, (c2, w'))"
      "r = Inl Panic \<or> r = Inl Diverge"
proof -
  from assms consider "\<exists>e. \<not> up c \<and> r = Inl (Err e) \<and> tbl c' = tbl c \<and> w' = w"
    | c1 r1 c2 where "tbl c1 = tbl c" "up c \<longrightarrow> up c1" "f (c1, w) = (r1, (c2, w'))"
      "case r1 of
          Inr a \<Rightarrow> (r = Inr a \<and> tbl c' = tbl c2 \<and> (up c2 \<longrightarrow> up c')) \<or>
                   (\<exists>e. \<not> up c2 \<and> r = Inl (Err e) \<and> tbl c' = tbl c)
        | Inl (Err e) \<Rightarrow> r = Inl (Err e) \<and> tbl c' = tbl c \<and> (up c2 \<longrightarrow> up c')
        | Inl f \<Rightarrow> r = Inl f"
    unfolding transactional_def by blast
  then show thesis
  proof cases
    case 1
    then show thesis using not_begun by blast
  next
    case 2
    show thesis
    proof (cases r1)
      case (Inr a)
      with 2 show thesis using committed not_committed by auto
    next
      case (Inl f)
      with 2 show thesis using rolled_back no_return by (cases f) auto
    qed
  qed
qed

context connection_ref
begin

text \<open>A database that is up and not full yields a fresh row, whatever the generator draws.\<close>

lemma create_total:
  assumes "rng_spec R" "up c" "dom (subs c) \<noteq> UNIV"
  obtains i c' g where
    "conn_create_subscription D hub topic secret (c, w) = (Inr i, (c', w\<lparr>thread_rng := g\<rparr>))"
    "i \<notin> dom (subs c)" "subs c' = created i hub topic secret (subs c)" "up c'"
proof -
  obtain r c' w' where run: "conn_create_subscription D hub topic secret (c, w) = (r, (c', w'))"
    by (metis prod_cases3)
  obtain n where "fst (next_u64 R (rng_after R n (thread_rng w))) \<notin> dom (subs c)"
    using rng_spec.not_stuck [OF assms(1,3)] by blast
  with create_subscription_ends [OF run] create_subscription_up [OF run assms(2)] obtain i where
    "r = Inr i" "up c'" by blast
  with create_subscription [OF run] run that show thesis by (auto simp: creates_def)
qed

end

end
