(* ===== verification/Sql.thy ===== *)
theory Sql
  imports Database "HOL-Library.AList"
begin

text \<open>
  The \<open>diesel\<close> crate as both backends use it: the statements they build over the table
  of subscriptions, run by a connection of type \<open>'c\<close> the crate provides. \<open>diesel_spec\<close>
  states what the crate and an SQL database promise of them; an in-memory connection whose
  statements can be made to fail shows that the promises can be kept.
\<close>

section \<open>Statements\<close>

text \<open>\<open>diesel::result::Error\<close>, as far as the code tells its variants apart.\<close>

datatype 'x sql_error = NotFound | UniqueViolation | DeserializationError | OtherError 'x

text \<open>The conditions of \<open>find\<close> and \<open>filter\<close>.\<close>

datatype cond =
    Find i64 | HubEq string | TopicEq string | NotId i64
  | ExpiresLe i64 | ExpiresIsNull | ExpiresIsNotNull

text \<open>A row as it is loaded: the id and the other columns.\<close>

type_synonym row = "i64 \<times> sub"

text \<open>In SQL a comparison with \<open>NULL\<close> does not hold.\<close>

fun holds :: "cond \<Rightarrow> row \<Rightarrow> bool" where
  "holds (Find i) (j, s) \<longleftrightarrow> j = i"
| "holds (HubEq hub) (j, s) \<longleftrightarrow> sub_hub s = hub"
| "holds (TopicEq topic) (j, s) \<longleftrightarrow> sub_topic s = topic"
| "holds (NotId i) (j, s) \<longleftrightarrow> j \<noteq> i"
| "holds (ExpiresLe t) (j, s) \<longleftrightarrow> expires_before t s"
| "holds ExpiresIsNull (j, s) \<longleftrightarrow> sub_expires_at s = None"
| "holds ExpiresIsNotNull (j, s) \<longleftrightarrow> sub_expires_at s \<noteq> None"

definition selected :: "cond list \<Rightarrow> row \<Rightarrow> bool" where
  "selected conds row = list_all (\<lambda>q. holds q row) conds"

lemma selected_simps [simp]:
  "selected [] row" "selected (q # qs) row \<longleftrightarrow> holds q row \<and> selected qs row"
  by (simp_all add: selected_def)

text \<open>
  \<open>insert_into(..).values(..).execute\<close>, \<open>get_result\<close>, \<open>select(exists(..))\<close>,
  \<open>update(..).set(..).execute\<close>, \<open>delete(..).execute\<close> and \<open>transaction\<close> at the two
  types the code uses it. A query that is loaded takes the flag of an ascending order by expiry;
  \<open>load_iter\<close> (Diesel 2) yields a result per row, \<open>load\<close> and \<open>first\<close> (Diesel 1) one
  for the whole query. The projection of \<open>select\<close> is the caller's.
\<close>

record ('c, 'x, 'w) diesel =
  insert_into :: "i64 \<Rightarrow> string \<Rightarrow> string \<Rightarrow> string \<Rightarrow> ('c, 'x sql_error, nat) action"
  get_result :: "cond list \<Rightarrow> ('c, 'x sql_error, row) action"
  select_exists :: "cond list \<Rightarrow> ('c, 'x sql_error, bool) action"
  load_iter :: "cond list \<Rightarrow> bool \<Rightarrow> ('c, 'x sql_error, ('x sql_error + row) list) action"
  load :: "cond list \<Rightarrow> bool \<Rightarrow> ('c, 'x sql_error, row list) action"
  first :: "cond list \<Rightarrow> bool \<Rightarrow> ('c, 'x sql_error, row) action"
  update_set :: "cond list \<Rightarrow> i64 option \<Rightarrow> ('c, 'x sql_error, nat) action"
  delete_where :: "cond list \<Rightarrow> ('c, 'x sql_error, nat) action"
  transaction_u64 :: "('c \<times> 'w, 'x sql_error, u64) action \<Rightarrow> ('c \<times> 'w, 'x sql_error, u64) action"
  transaction_unit :: "('c \<times> 'w, 'x sql_error, unit) action \<Rightarrow> ('c \<times> 'w, 'x sql_error, unit) action"

section \<open>What the crate and the database promise\<close>

definition matching :: "cond list \<Rightarrow> table \<Rightarrow> row set" where
  "matching conds m = {(i, s). m i = Some s \<and> selected conds (i, s)}"

definition by_expiry :: "row list \<Rightarrow> bool" where
  "by_expiry rows = sorted_wrt (\<lambda>r r'. case (sub_expires_at (snd r), sub_expires_at (snd r')) of
     (Some e, Some e') \<Rightarrow> sint e \<le> sint e' | _ \<Rightarrow> True) rows"

text \<open>The rows a query yields, each once, in the order asked for.\<close>

definition yields :: "cond list \<Rightarrow> bool \<Rightarrow> table \<Rightarrow> row list \<Rightarrow> bool" where
  "yields conds asc m rows \<longleftrightarrow>
     set rows = matching conds m \<and> distinct (map fst rows) \<and> (asc \<longrightarrow> by_expiry rows)"

definition updated :: "cond list \<Rightarrow> i64 option \<Rightarrow> table \<Rightarrow> table" where
  "updated conds e m =
     (\<lambda>i. map_option (\<lambda>s. if selected conds (i, s) then s\<lparr>sub_expires_at := e\<rparr> else s) (m i))"

definition deleted :: "cond list \<Rightarrow> table \<Rightarrow> table" where
  "deleted conds m = (\<lambda>i. case m i of
     Some s \<Rightarrow> if selected conds (i, s) then None else Some s | None \<Rightarrow> None)"

text \<open>The results of iterating over rows: all of them, or those before an error.\<close>

definition iterates :: "row list \<Rightarrow> ('x sql_error + row) list \<Rightarrow> bool" where
  "iterates rows rs \<longleftrightarrow> rs = map Inr rows \<or> (\<exists>k e rest. rs = map Inr (take k rows) @ Inl e # rest)"

text \<open>
  \<open>id\<close> is the primary key, the only unique column. A statement is atomic. \<open>get_result\<close> and
  \<open>first\<close> are the only ones to report that no row was found.
\<close>

locale diesel_spec =
  fixes Q :: "('c, 'x, 'w) diesel" and tbl :: "'c \<Rightarrow> table" and up :: "'c \<Rightarrow> bool"
  assumes insert_into: "\<And>r. insert_into Q i hub topic secret c = (r, c') \<Longrightarrow>
      (case r of
         Inr n \<Rightarrow> i \<notin> dom (tbl c) \<and> tbl c' = created i hub topic secret (tbl c)
       | Inl (Err UniqueViolation) \<Rightarrow> i \<in> dom (tbl c) \<and> tbl c' = tbl c
       | Inl (Err e) \<Rightarrow> \<not> up c \<and> tbl c' = tbl c
       | Inl _ \<Rightarrow> False) \<and> (up c \<longrightarrow> up c')"
    and get_result: "\<And>r. get_result Q conds c = (r, c') \<Longrightarrow>
      (case r of
         Inr row \<Rightarrow> row \<in> matching conds (tbl c)
       | Inl (Err NotFound) \<Rightarrow> matching conds (tbl c) = {}
       | Inl (Err e) \<Rightarrow> \<not> up c
       | Inl _ \<Rightarrow> False) \<and> tbl c' = tbl c \<and> (up c \<longrightarrow> up c')"
    and first: "\<And>r. first Q conds asc c = (r, c') \<Longrightarrow>
      (case r of
         Inr row \<Rightarrow> (\<exists>rows. yields conds asc (tbl c) (row # rows))
       | Inl (Err NotFound) \<Rightarrow> matching conds (tbl c) = {}
       | Inl (Err e) \<Rightarrow> \<not> up c
       | Inl _ \<Rightarrow> False) \<and> tbl c' = tbl c \<and> (up c \<longrightarrow> up c')"
    and select_exists: "statement tbl up (select_exists Q conds)
      (\<lambda>m b m'. m' = m \<and> (b \<longleftrightarrow> matching conds m \<noteq> {}))"
    and load: "statement tbl up (load Q conds asc) (\<lambda>m rows m'. m' = m \<and> yields conds asc m rows)"
    and load_iter: "statement tbl up (load_iter Q conds asc)
      (\<lambda>m rs m'. m' = m \<and> (\<exists>rows. yields conds asc m rows \<and> iterates rows rs))"
    and load_iter_up: "load_iter Q conds asc c = (Inr rs, c') \<Longrightarrow> up c \<Longrightarrow> Inl x \<notin> set rs"
    and update_set: "statement tbl up (update_set Q conds e)
      (\<lambda>m n m'. m' = updated conds e m \<and> n = card (matching conds m))"
    and delete_where: "statement tbl up (delete_where Q conds)
      (\<lambda>m n m'. m' = deleted conds m \<and> n = card (matching conds m))"
    and transaction_u64: "transactional tbl up (transaction_u64 Q)"
    and transaction_unit: "transactional tbl up (transaction_unit Q)"

lemma matching_find: "matching (Find i # conds) m =
  (case m i of Some s \<Rightarrow> if selected conds (i, s) then {(i, s)} else {} | None \<Rightarrow> {})"
  by (auto simp: matching_def split: option.splits)

section \<open>An in-memory connection\<close>

text \<open>
  The rows and, for each coming statement, whether it fails. The database is up when none does.
\<close>

record mem =
  mem_rows :: "row list"
  mem_faults :: "bool list"

definition mem_table :: "mem \<Rightarrow> table" where
  "mem_table c = map_of (mem_rows c)"

definition mem_up :: "mem \<Rightarrow> bool" where
  "mem_up c \<longleftrightarrow> True \<notin> set (mem_faults c)"

fun answer :: "(mem \<Rightarrow> (unit sql_error, 'a) result \<times> row list) \<Rightarrow> (mem, unit sql_error, 'a) action" where
  "answer op c = (case mem_faults c of
     True # fs \<Rightarrow> (Inl (Err (OtherError ())), c\<lparr>mem_faults := fs\<rparr>)
   | fs \<Rightarrow> (case op c of (r, rows) \<Rightarrow> (r, \<lparr>mem_rows = rows, mem_faults = tl fs\<rparr>)))"

definition mem_select :: "cond list \<Rightarrow> bool \<Rightarrow> mem \<Rightarrow> row list" where
  "mem_select conds asc c =
     (let rows = filter (selected conds) (AList.clearjunk (mem_rows c))
      in if asc
         then sort_key (\<lambda>r. case sub_expires_at (snd r) of None \<Rightarrow> 0 | Some e \<Rightarrow> sint e) rows
         else rows)"

definition mem_query :: "(row list \<Rightarrow> (unit sql_error, 'a) result) \<Rightarrow> cond list \<Rightarrow> bool \<Rightarrow>
    (mem, unit sql_error, 'a) action" where
  "mem_query k conds asc = answer (\<lambda>c. (k (mem_select conds asc c), mem_rows c))"

definition first_row :: "row list \<Rightarrow> (unit sql_error, row) result" where
  "first_row rows = (case rows of [] \<Rightarrow> Inl (Err NotFound) | r # _ \<Rightarrow> Inr r)"

definition mem_transaction ::
  "(mem \<times> 'w, unit sql_error, 'a) action \<Rightarrow> (mem \<times> 'w, unit sql_error, 'a) action" where
  "mem_transaction f = (\<lambda>(c, w). case answer (\<lambda>c. (Inr (), mem_rows c)) c of
     (Inl e, c1) \<Rightarrow> (Inl e, (c1, w))
   | (Inr _, c1) \<Rightarrow> (case f (c1, w) of
       (Inr a, (c2, w')) \<Rightarrow> (case answer (\<lambda>c. (Inr a, mem_rows c)) c2 of
           (Inl e, c3) \<Rightarrow> (Inl e, (c3\<lparr>mem_rows := mem_rows c\<rparr>, w'))
         | (Inr a, c3) \<Rightarrow> (Inr a, (c3, w')))
     | (Inl (Err e), (c2, w')) \<Rightarrow> (Inl (Err e), (c2\<lparr>mem_rows := mem_rows c\<rparr>, w'))
     | (Inl f, (c2, w')) \<Rightarrow> (Inl f, (c2, w'))))"

definition mem_diesel :: "(mem, unit, 'w) diesel" where
  "mem_diesel = \<lparr>
     insert_into = (\<lambda>i hub topic secret. answer (\<lambda>c.
       if i \<in> fst ` set (mem_rows c) then (Inl (Err UniqueViolation), mem_rows c)
       else (Inr 1, (i, \<lparr>sub_hub = hub, sub_topic = topic, sub_secret = secret,
                      sub_expires_at = None\<rparr>) # mem_rows c))),
     get_result = (\<lambda>conds. mem_query first_row conds False),
     select_exists = (\<lambda>conds. mem_query (\<lambda>rows. Inr (rows \<noteq> [])) conds False),
     load_iter = mem_query (\<lambda>rows. Inr (map Inr rows)),
     load = mem_query Inr,
     first = mem_query first_row,
     update_set = (\<lambda>conds e. answer (\<lambda>c. (Inr (length (mem_select conds False c)),
       map (\<lambda>(i, s). (i, if selected conds (i, s) then s\<lparr>sub_expires_at := e\<rparr> else s)) (mem_rows c)))),
     delete_where = (\<lambda>conds. answer (\<lambda>c. (Inr (length (mem_select conds False c)),
       filter (\<lambda>row. \<not> selected conds row) (AList.clearjunk (mem_rows c))))),
     transaction_u64 = mem_transaction,
     transaction_unit = mem_transaction\<rparr>"

lemma clearjunk_set: "(i, s) \<in> set (AList.clearjunk xs) \<longleftrightarrow> map_of xs i = Some s"
  by (metis distinct_clearjunk map_of_clearjunk map_of_eq_Some_iff map_of_SomeD map_of_is_SomeI)

lemma mem_select_yields: "yields conds asc (mem_table c) (mem_select conds asc c)"
proof -
  have "sorted_wrt (\<lambda>r r'. k r \<le> k r') (sort_key k rows)" for rows and k :: "row \<Rightarrow> int"
    using sorted_sort_key [of k rows] by (simp add: sorted_map)
  then have "by_expiry (sort_key (\<lambda>r. case sub_expires_at (snd r) of None \<Rightarrow> 0 | Some e \<Rightarrow> sint e) rows)"
    for rows
    unfolding by_expiry_def
    by (rule sorted_wrt_mono_rel [rotated]) (auto split: option.splits)
  moreover have "distinct (map fst (filter P (AList.clearjunk rows)))" for P and rows :: "row list"
    using distinct_clearjunk [of rows] by (rule distinct_map_filter)
  moreover have "distinct (map fst (sort_key k rows)) = distinct (map fst rows)" for rows and k :: "row \<Rightarrow> int"
    by (metis distinct_map distinct_sort set_sort)
  ultimately show ?thesis
    by (auto simp: yields_def mem_select_def matching_def mem_table_def clearjunk_set Let_def)
qed

lemma answerE:
  assumes "answer op c = (r, c')"
  obtains (fails) "r = Inl (Err (OtherError ()))" "mem_rows c' = mem_rows c" "\<not> mem_up c"
  | (runs) "op c = (r, mem_rows c')" "mem_up c \<Longrightarrow> mem_up c'"
proof (cases "mem_faults c")
  case Nil
  with assms runs show thesis by (auto simp: mem_up_def split: prod.splits)
next
  case (Cons b fs)
  with assms fails runs show thesis by (cases b) (auto simp: mem_up_def split: prod.splits)
qed

lemma answer_statement:
  assumes "\<And>c r rows. op c = (r, rows) \<Longrightarrow> \<exists>a. r = Inr a \<and> P (mem_table c) a (map_of rows)"
  shows "statement mem_table mem_up (answer op) P"
  unfolding statement_def
proof (intro allI impI)
  fix c r c' assume a: "answer op c = (r, c')"
  show "((\<exists>a. r = Inr a \<and> P (mem_table c) a (mem_table c')) \<or>
      (\<exists>e. r = Inl (Err e) \<and> mem_table c' = mem_table c)) \<and>
    (mem_up c \<longrightarrow> (\<exists>a. r = Inr a) \<and> mem_up c')"
    using a
  proof (cases rule: answerE)
    case fails
    then show ?thesis by (simp add: mem_table_def)
  next
    case runs
    with assms [OF runs(1)] show ?thesis by (auto simp: mem_table_def)
  qed
qed

lemma query_statement:
  assumes "\<And>m rows. yields conds asc m rows \<Longrightarrow> \<exists>a. k rows = Inr a \<and> P m a m"
  shows "statement mem_table mem_up (mem_query k conds asc) P"
  unfolding mem_query_def
  using assms mem_select_yields by (intro answer_statement) (auto simp: mem_table_def)

lemma yields_empty: "yields conds asc m rows \<Longrightarrow> rows = [] \<longleftrightarrow> matching conds m = {}"
  by (auto simp: yields_def)

lemma yields_card: "yields conds asc m rows \<Longrightarrow> length rows = card (matching conds m)"
  by (metis yields_def distinct_card distinct_map)

lemma query_first:
  assumes "mem_query first_row conds asc c = (r, c')"
  shows "(case r of
         Inr row \<Rightarrow> (\<exists>rows. yields conds asc (mem_table c) (row # rows))
       | Inl (Err NotFound) \<Rightarrow> matching conds (mem_table c) = {}
       | Inl (Err e) \<Rightarrow> \<not> mem_up c
       | Inl _ \<Rightarrow> False) \<and> mem_table c' = mem_table c \<and> (mem_up c \<longrightarrow> mem_up c')"
  using assms unfolding mem_query_def
proof (cases rule: answerE)
  case fails
  then show ?thesis by (simp add: mem_table_def)
next
  case runs
  then have same: "mem_table c' = mem_table c" and r: "r = first_row (mem_select conds asc c)"
    by (simp_all add: mem_table_def)
  show ?thesis
  proof (cases "mem_select conds asc c")
    case Nil
    with yields_empty [OF mem_select_yields] have "matching conds (mem_table c) = {}" by blast
    with Nil r same runs(2) show ?thesis by (simp add: first_row_def)
  next
    case (Cons row rows)
    with mem_select_yields [of conds asc c] have "yields conds asc (mem_table c) (row # rows)" by simp
    with Cons r same runs(2) show ?thesis by (auto simp: first_row_def)
  qed
qed

lemma mem_transaction:
  "transactional mem_table mem_up
     (mem_transaction :: (mem \<times> 'w, unit sql_error, 'a) action \<Rightarrow> (mem \<times> 'w, unit sql_error, 'a) action)"
  unfolding transactional_def
proof (intro allI impI)
  fix f :: "(mem \<times> 'w, unit sql_error, 'a) action" and c w r c' w'
  assume t: "mem_transaction f (c, w) = (r, (c', w'))"
  obtain r0 c1 where begun: "answer (\<lambda>c. (Inr (), mem_rows c)) c = (r0, c1)" by fastforce
  then have c1: "mem_table c1 = mem_table c" "mem_up c \<longrightarrow> mem_up c1"
    by (cases rule: answerE; auto simp: mem_table_def)+
  obtain r1 c2 w2 where body: "f (c1, w) = (r1, (c2, w2))" by (cases "f (c1, w)") auto
  let ?post = "\<lambda>r1 c2. case r1 of
      Inr a \<Rightarrow> (r = Inr a \<and> mem_table c' = mem_table c2 \<and> (mem_up c2 \<longrightarrow> mem_up c')) \<or>
               (\<exists>e. \<not> mem_up c2 \<and> r = Inl (Err e) \<and> mem_table c' = mem_table c)
    | Inl (Err e) \<Rightarrow> r = Inl (Err e) \<and> mem_table c' = mem_table c \<and> (mem_up c2 \<longrightarrow> mem_up c')
    | Inl f \<Rightarrow> r = Inl f"
  show "(\<exists>e. \<not> mem_up c \<and> r = Inl (Err e) \<and> mem_table c' = mem_table c \<and> w' = w) \<or>
     (\<exists>c1 r1 c2. mem_table c1 = mem_table c \<and> (mem_up c \<longrightarrow> mem_up c1) \<and>
        f (c1, w) = (r1, (c2, w')) \<and> ?post r1 c2)"
  proof (cases r0)
    case (Inl e)
    with begun have "\<not> mem_up c" "r0 = Inl (Err (OtherError ()))" by (cases rule: answerE; auto)+
    with Inl t begun c1 show ?thesis by (auto simp: mem_transaction_def simp del: answer.simps)
  next
    case (Inr u)
    have "w2 = w' \<and> ?post r1 c2"
    proof (cases r1)
      case (Inl g)
      with t begun Inr body show ?thesis
        by (cases g) (auto simp: mem_transaction_def mem_table_def mem_up_def simp del: answer.simps)
    next
      case (Inr a)
      obtain r3 c3 where end_tx: "answer (\<lambda>c. (Inr a, mem_rows c)) c2 = (r3, c3)" by fastforce
      then have "(r3 = Inr a \<and> mem_rows c3 = mem_rows c2 \<and> (mem_up c2 \<longrightarrow> mem_up c3)) \<or>
          (r3 = Inl (Err (OtherError ())) \<and> \<not> mem_up c2)"
        by (cases rule: answerE) auto
      with t begun \<open>r0 = Inr u\<close> body Inr end_tx show ?thesis
        by (auto simp: mem_transaction_def mem_table_def simp del: answer.simps)
    qed
    with c1 body show ?thesis by blast
  qed
qed

lemma mem_insert:
  assumes "insert_into mem_diesel i hub topic secret c = (r, c')"
  shows "(case r of
         Inr n \<Rightarrow> i \<notin> dom (mem_table c) \<and> mem_table c' = created i hub topic secret (mem_table c)
       | Inl (Err UniqueViolation) \<Rightarrow> i \<in> dom (mem_table c) \<and> mem_table c' = mem_table c
       | Inl (Err e) \<Rightarrow> \<not> mem_up c \<and> mem_table c' = mem_table c
       | Inl _ \<Rightarrow> False) \<and> (mem_up c \<longrightarrow> mem_up c')"
proof -
  let ?rows = "(i, \<lparr>sub_hub = hub, sub_topic = topic, sub_secret = secret, sub_expires_at = None\<rparr>)
    # mem_rows c"
  let ?op = "\<lambda>c. if i \<in> fst ` set (mem_rows c) then (Inl (Err UniqueViolation), mem_rows c)
       else (Inr 1, (i, \<lparr>sub_hub = hub, sub_topic = topic, sub_secret = secret,
                      sub_expires_at = None\<rparr>) # mem_rows c)"
  have "answer ?op c = (r, c')" using assms by (simp add: mem_diesel_def del: answer.simps)
  then show ?thesis
  proof (cases rule: answerE)
    case runs
    show ?thesis
    proof (cases "i \<in> fst ` set (mem_rows c)")
      case True
      have "r = Inl (Err UniqueViolation)" "mem_rows c' = mem_rows c"
        using runs(1) unfolding if_P [OF True] by simp_all
      with runs(2) True show ?thesis by (simp add: mem_table_def dom_map_of_conv_image_fst)
    next
      case False
      have "r = Inr 1" "mem_rows c' = ?rows"
        using runs(1) unfolding if_not_P [OF False] by simp_all
      with runs(2) False show ?thesis
        by (simp add: mem_table_def created_def dom_map_of_conv_image_fst)
    qed
  qed (simp add: mem_table_def)
qed

lemma mem_load_iter_up:
  assumes "load_iter mem_diesel conds asc c = (Inr rs, c')"
  shows "Inl x \<notin> set rs"
proof -
  have "mem_query (\<lambda>rows. Inr (map Inr rows)) conds asc c = (Inr rs, c')"
    using assms by (simp add: mem_diesel_def)
  then show ?thesis unfolding mem_query_def by (cases rule: answerE) auto
qed

lemma map_of_map_if:
  "map_of (map (\<lambda>(i, s). (i, if P (i, s) then f s else s)) xs) i =
     map_option (\<lambda>s. if P (i, s) then f s else s) (map_of xs i)"
  by (induction xs) auto

lemma map_of_filter_distinct:
  "distinct (map fst xs) \<Longrightarrow> map_of (filter P xs) i =
     (case map_of xs i of Some s \<Rightarrow> if P (i, s) then Some s else None | None \<Rightarrow> None)"
proof (induction xs)
  case (Cons x xs)
  then have "map_of xs (fst x) = None" by (simp add: map_of_eq_None_iff)
  with Cons show ?case by (cases x) (auto split: option.splits)
qed simp

lemma mem_update_set: "statement mem_table mem_up (update_set mem_diesel conds e)
      (\<lambda>m n m'. m' = updated conds e m \<and> n = card (matching conds m))"
  using yields_card [OF mem_select_yields]
  by (simp add: mem_diesel_def del: answer.simps)
    (intro answer_statement, auto simp: mem_table_def updated_def map_of_map_if fun_eq_iff)

lemma mem_delete_where: "statement mem_table mem_up (delete_where mem_diesel conds)
      (\<lambda>m n m'. m' = deleted conds m \<and> n = card (matching conds m))"
  using yields_card [OF mem_select_yields]
  by (simp add: mem_diesel_def del: answer.simps)
    (intro answer_statement, auto simp: mem_table_def deleted_def fun_eq_iff
      map_of_filter_distinct [OF distinct_clearjunk] map_of_clearjunk split: option.splits)

interpretation mem: diesel_spec mem_diesel mem_table mem_up
proof (unfold_locales, goal_cases)
  case (1 i hub topic secret c c' r)
  then show ?case by (rule mem_insert)
next
  case (2 conds c c' r)
  then have "mem_query first_row conds False c = (r, c')" by (simp add: mem_diesel_def)
  from query_first [OF this] show ?case by (auto simp: yields_def split: sum.splits)
next
  case (3 conds asc c c' r)
  then have "mem_query first_row conds asc c = (r, c')" by (simp add: mem_diesel_def)
  then show ?case by (rule query_first)
next
  case (4 conds)
  have "\<exists>b. Inr (rows \<noteq> []) = Inr b \<and> m = m \<and> (b \<longleftrightarrow> matching conds m \<noteq> {})"
    if "yields conds False m rows" for m rows
    using yields_empty [OF that] by simp
  then show ?case by (simp add: mem_diesel_def query_statement)
next
  case (5 conds asc)
  show ?case by (simp add: mem_diesel_def) (rule query_statement, blast)
next
  case (6 conds asc)
  show ?case by (simp add: mem_diesel_def) (rule query_statement, auto simp: iterates_def)
next
  case (7 conds asc c rs c' x)
  from this(1) show ?case by (rule mem_load_iter_up)
next
  case (8 conds e)
  show ?case by (rule mem_update_set)
next
  case (9 conds)
  show ?case by (rule mem_delete_where)
qed (simp_all add: mem_diesel_def mem_transaction)

section \<open>Handling results\<close>

text \<open>\<open>OptionalExtension::optional\<close>: no row is a value.\<close>

definition optional :: "('c, 'x sql_error, 'a) action \<Rightarrow> ('c, 'x sql_error, 'a option) action" where
  "optional m = (\<lambda>c. case m c of
     (Inr a, c') \<Rightarrow> (Inr (Some a), c')
   | (Inl (Err NotFound), c') \<Rightarrow> (Inr None, c')
   | (Inl f, c') \<Rightarrow> (Inl f, c'))"

text \<open>\<open>Result::map\<close> on what an action returns.\<close>

definition map_action :: "('a \<Rightarrow> 'b) \<Rightarrow> ('c, 'e, 'a) action \<Rightarrow> ('c, 'e, 'b) action" where
  "map_action f m = and_then m (\<lambda>a. ret (f a))"

text \<open>\<open>collect\<close> into a \<open>Result\<close>: the values, or the first error.\<close>

fun collect :: "('e + 'a) list \<Rightarrow> ('e, 'a list) result" where
  "collect [] = Inr []"
| "collect (Inl e # rs) = Inl (Err e)"
| "collect (Inr a # rs) = bind_result (collect rs) (\<lambda>as. Inr (a # as))"

text \<open>\<open>next().transpose()\<close> on the results of an iterator.\<close>

fun next_transposed :: "('e + 'a) list \<Rightarrow> ('e, 'a option) result" where
  "next_transposed [] = Inr None"
| "next_transposed (Inl e # rs) = Inl (Err e)"
| "next_transposed (Inr a # rs) = Inr (Some a)"

lemma collect_Inr [simp]: "collect (map Inr xs) = Inr xs"
  by (induction xs) auto

lemma collect_Inl: "collect (map Inr xs @ Inl e # rs) = Inl (Err e)"
  by (induction xs) auto

lemma statement_map_action:
  assumes "statement tbl up m P" "\<And>t a t'. P t a t' \<Longrightarrow> P' t (f a) t'"
  shows "statement tbl up (map_action f m) P'"
  unfolding statement_def
proof (intro allI impI)
  fix c r c' assume "map_action f m c = (r, c')"
  then obtain r0 where r0: "m c = (r0, c')"
    and r: "r = (case r0 of Inl e \<Rightarrow> Inl e | Inr a \<Rightarrow> Inr (f a))"
    by (auto simp: map_action_def and_then_def split: prod.splits sum.splits)
  show "((\<exists>a. r = Inr a \<and> P' (tbl c) a (tbl c')) \<or> (\<exists>e. r = Inl (Err e) \<and> tbl c' = tbl c)) \<and>
     (up c \<longrightarrow> (\<exists>a. r = Inr a) \<and> up c')"
    by (rule statementE [OF assms(1) r0]) (use r assms(2) in auto)
qed

lemma statement_weaken:
  "statement tbl up m P \<Longrightarrow> (\<And>t a t'. P t a t' \<Longrightarrow> P' t a t') \<Longrightarrow> statement tbl up m P'"
  unfolding statement_def by blast

context diesel_spec
begin

lemma load_iter_statement:
  assumes good: "\<And>m rows. yields conds asc m rows \<Longrightarrow> \<exists>a. k (map Inr rows) = Inr a \<and> P m a m"
    and bad: "\<And>m rows n e rest. yields conds asc m rows \<Longrightarrow>
      (\<exists>a. k (map Inr (take n rows) @ Inl e # rest) = Inr a \<and> P m a m) \<or>
      (\<exists>e'. k (map Inr (take n rows) @ Inl e # rest) = Inl (Err e'))"
  shows "statement tbl up (and_then (load_iter Q conds asc) (\<lambda>rs. lift (k rs))) P"
  unfolding statement_def
proof (intro allI impI)
  fix c r c'
  assume run: "and_then (load_iter Q conds asc) (\<lambda>rs. lift (k rs)) c = (r, c')"
  obtain r0 where r0: "load_iter Q conds asc c = (r0, c')"
    and r: "r = (case r0 of Inl e \<Rightarrow> Inl e | Inr rs \<Rightarrow> k rs)"
    using run by (auto simp: and_then_def split: prod.splits sum.splits)
  show "((\<exists>a. r = Inr a \<and> P (tbl c) a (tbl c')) \<or> (\<exists>e. r = Inl (Err e) \<and> tbl c' = tbl c)) \<and>
     (up c \<longrightarrow> (\<exists>a. r = Inr a) \<and> up c')"
    using load_iter r0
  proof (cases rule: statementE)
    case (err e)
    with r show ?thesis by simp
  next
    case (ok rs)
    then obtain rows where same: "tbl c' = tbl c" and rows: "yields conds asc (tbl c) rows"
      "iterates rows rs" by blast
    from rows(2) consider "rs = map Inr rows"
      | n e rest where "rs = map Inr (take n rows) @ Inl e # rest"
      unfolding iterates_def by blast
    then show ?thesis
    proof cases
      case 1
      with good [OF rows(1)] r ok same show ?thesis by auto
    next
      case 2
      have "\<not> up c" using load_iter_up r0 ok(1) 2 by fastforce
      with 2 bad [OF rows(1)] r ok same show ?thesis by auto
    qed
  qed
qed

lemma collect_statement:
  assumes "\<And>m rows. yields conds asc m rows \<Longrightarrow> P m (map f rows) m"
  shows "statement tbl up (and_then (load_iter Q conds asc)
    (\<lambda>rs. lift (collect (map (map_sum (\<lambda>e. e) f) rs)))) P"
proof (rule load_iter_statement)
  fix m rows assume "yields conds asc m rows"
  moreover have "map (map_sum (\<lambda>e. e) f) (map Inr rows) = map Inr (map f rows)" by simp
  ultimately show "\<exists>a. collect (map (map_sum (\<lambda>e. e) f) (map Inr rows)) = Inr a \<and> P m a m"
    unfolding \<open>map (map_sum _ f) _ = _\<close> collect_Inr using assms by blast
next
  fix m and rows :: "row list" and n and e :: "'b sql_error" and rest
  have "map (map_sum (\<lambda>e. e) f) (map Inr (take n rows) @ Inl e # rest) =
      map Inr (map f (take n rows)) @ Inl e # map (map_sum (\<lambda>e. e) f) rest" by simp
  then show "(\<exists>a. collect (map (map_sum (\<lambda>e. e) f) (map Inr (take n rows) @ Inl e # rest)) = Inr a \<and> P m a m) \<or>
      (\<exists>e'. collect (map (map_sum (\<lambda>e. e) f) (map Inr (take n rows) @ Inl e # rest)) = Inl (Err e'))"
    by (simp only: collect_Inl) simp
qed

lemma optional_statement:
  assumes found: "\<And>m row. row \<in> matching conds m \<Longrightarrow> P m (Some (f row)) m"
    and none: "\<And>m. matching conds m = {} \<Longrightarrow> P m None m"
  shows "statement tbl up (optional (map_action f (get_result Q conds))) P"
  unfolding statement_def
proof (intro allI impI)
  fix c r c' assume "optional (map_action f (get_result Q conds)) c = (r, c')"
  then obtain r0 where "get_result Q conds c = (r0, c')"
    and "r = (case r0 of Inr row \<Rightarrow> Inr (Some (f row)) | Inl (Err NotFound) \<Rightarrow> Inr None | Inl g \<Rightarrow> Inl g)"
    by (auto simp: optional_def map_action_def and_then_def
        split: prod.splits sum.splits fault.splits sql_error.splits)
  with get_result [of conds c r0 c'] found none
  show "((\<exists>a. r = Inr a \<and> P (tbl c) a (tbl c')) \<or> (\<exists>e. r = Inl (Err e) \<and> tbl c' = tbl c)) \<and>
     (up c \<longrightarrow> (\<exists>a. r = Inr a) \<and> up c')"
    by (auto split: sum.splits fault.splits sql_error.splits)
qed

end

text \<open>The first of the active rows in the order of their expiry has the least.\<close>

lemma yields_not_null:
  assumes "yields [ExpiresIsNotNull] True m rows"
  shows "case rows of
      [] \<Rightarrow> first_expiry m None
    | r # _ \<Rightarrow> (\<exists>e. sub_expires_at (snd r) = Some e \<and> first_expiry m (Some e))"
proof (cases rows)
  case Nil
  with assms show ?thesis
    by (force simp: yields_def matching_def first_expiry_def)
next
  case (Cons r rs)
  obtain i s where r: "r = (i, s)" by fastforce
  have mem: "(j, t) \<in> set rows \<longleftrightarrow> m j = Some t \<and> sub_expires_at t \<noteq> None" for j t
    using assms by (auto simp: yields_def matching_def)
  obtain e where e: "sub_expires_at s = Some e" "m i = Some s"
    using mem [of i s] Cons r by auto
  have "sint e \<le> sint e'" if "m j = Some t" "sub_expires_at t = Some e'" for j t e'
  proof -
    have "(j, t) \<in> set rows" using that mem by simp
    with assms Cons r e that show ?thesis
      by (force simp: yields_def by_expiry_def)
  qed
  with e r Cons show ?thesis by (auto simp: first_expiry_def)
qed

section \<open>Inserting under a fresh id\<close>

text \<open>
  The loop both backends run inside a transaction to create a subscription, on the connection
  and the thread; \<open>None\<close> if every id it draws is taken.
\<close>

partial_function (option) insert_loop ::
  "('c, 'x, 'w) diesel \<Rightarrow> 'g rng_core \<Rightarrow> string \<Rightarrow> string \<Rightarrow> string \<Rightarrow>
    'c \<times> ('g, 'z) thread_scheme \<Rightarrow>
    (('x sql_error, u64) result \<times> 'c \<times> ('g, 'z) thread_scheme) option" where
  "insert_loop Q R hub topic secret s =
     (case s of (c, w) \<Rightarrow>
        (case next_u64 R (thread_rng w) of (i, g) \<Rightarrow>
           (let w = w\<lparr>thread_rng := g\<rparr>
            in case insert_into Q i hub topic secret c of
                 (Inr _, c) \<Rightarrow> Some (Inr i, (c, w))
               | (Inl (Err UniqueViolation), c) \<Rightarrow> insert_loop Q R hub topic secret (c, w)
               | (Inl f, c) \<Rightarrow> Some (Inl f, (c, w)))))"

definition or_diverge :: "('s \<Rightarrow> (('e, 'a) result \<times> 's) option) \<Rightarrow> ('s, 'e, 'a) action" where
  "or_diverge loop s = (case loop s of None \<Rightarrow> (Inl Diverge, s) | Some y \<Rightarrow> y)"

context diesel_spec
begin

lemma insert_loop_creates:
  fixes w :: "('g, 'z) thread_scheme"
  assumes "insert_loop Q R hub topic secret (c, w) = Some (r, (c', w'))"
  shows "creates tbl hub topic secret c w r c' w' \<and>
    (up c \<longrightarrow> up c' \<and> (\<exists>i. r = Inr i)) \<and> r \<noteq> Inl Diverge"
proof -
  define ok where "ok = (\<lambda>hub topic secret (c, w :: ('g, 'z) thread_scheme) (r :: ('x sql_error, u64) result, c', w').
    creates tbl hub topic secret c w r c' w' \<and> (up c \<longrightarrow> up c' \<and> (\<exists>i. r = Inr i)) \<and> r \<noteq> Inl Diverge)"
  have "Q' = Q \<longrightarrow> ok hub topic secret x y" if "insert_loop Q' R hub topic secret x = Some y"
    for Q' R hub topic secret x y
  proof (rule insert_loop.raw_induct [OF _ that], goal_cases)
    case (1 loop Q' R hub topic secret x y)
    note IH = 1(1) and body = 1(2)
    obtain c w where x: "x = (c, w)" by fastforce
    obtain i g where draw: "next_u64 R (thread_rng w) = (i, g)" by fastforce
    obtain r0 c0 where ins: "insert_into Q i hub topic secret c = (r0, c0)" by fastforce
    have rng: "\<exists>h. w\<lparr>thread_rng := g\<rparr> = w\<lparr>thread_rng := h\<rparr>" by blast
    consider (inserted) n where "r0 = Inr n" | (taken) "r0 = Inl (Err UniqueViolation)"
      | (fails) e where "r0 = Inl (Err e)" "e \<noteq> UniqueViolation"
      using insert_into [OF ins] by (auto split: sum.splits fault.splits sql_error.splits)
    then have "ok hub topic secret x y" if Q: "Q' = Q"
    proof cases
      case inserted
      with body x draw ins Q have "y = (Inr i, (c0, w\<lparr>thread_rng := g\<rparr>))" by simp
      with inserted insert_into [OF ins] x rng show ?thesis by (auto simp: creates_def ok_def)
    next
      case taken
      with body x draw ins Q have "loop Q R hub topic secret (c0, w\<lparr>thread_rng := g\<rparr>) = Some y" by simp
      from IH [OF this] taken insert_into [OF ins] x show ?thesis
        by (auto simp: creates_def ok_def split: sum.splits fault.splits)
    next
      case fails
      with body x draw ins Q have y: "y = (Inl (Err e), (c0, w\<lparr>thread_rng := g\<rparr>))"
        by (auto simp: Let_def split: sql_error.splits)
      have "\<not> up c \<and> tbl c0 = tbl c"
        using insert_into [OF ins] fails by (cases e) auto
      with y x rng show ?thesis by (auto simp: creates_def ok_def)
    qed
    then show ?case by blast
  qed
  from this [OF assms] show ?thesis by (simp add: ok_def)
qed

lemma insert_loop_ends:
  "fst (next_u64 R (rng_after R n (thread_rng w))) \<notin> dom (tbl c) \<Longrightarrow>
     \<exists>y. insert_loop Q R hub topic secret (c, w) = Some y"
proof (induction n arbitrary: c w)
  case (0 c w)
  obtain i g where draw: "next_u64 R (thread_rng w) = (i, g)" by fastforce
  obtain r0 c0 where ins: "insert_into Q i hub topic secret c = (r0, c0)" by fastforce
  have "r0 \<noteq> Inl (Err UniqueViolation)" using insert_into [OF ins] 0 draw by auto
  then show ?case
    by (subst insert_loop.simps) (auto simp: draw ins Let_def split: sum.splits fault.splits sql_error.splits)
next
  case (Suc n c w)
  obtain i g where draw: "next_u64 R (thread_rng w) = (i, g)" by fastforce
  obtain r0 c0 where ins: "insert_into Q i hub topic secret c = (r0, c0)" by fastforce
  show ?case
  proof (cases "r0 = Inl (Err UniqueViolation)")
    case True
    then have "tbl c0 = tbl c" using insert_into [OF ins] by simp
    with Suc.prems draw have "fst (next_u64 R (rng_after R n (thread_rng (w\<lparr>thread_rng := g\<rparr>)))) \<notin> dom (tbl c0)"
      by simp
    from Suc.IH [OF this] show ?thesis
      by (subst insert_loop.simps) (simp add: draw ins True)
  next
    case False
    then show ?thesis
      by (subst insert_loop.simps) (auto simp: draw ins Let_def split: sum.splits fault.splits sql_error.splits)
  qed
qed

lemma insert_in_transaction:
  fixes w :: "('g, 'z) thread_scheme"
  assumes T: "transactional tbl up T"
    and run: "T (or_diverge (insert_loop Q R hub topic secret)) (c, w) = (r, (c', w'))"
  shows "creates tbl hub topic secret c w r c' w'"
    and "up c \<Longrightarrow> r \<noteq> Inl Diverge \<Longrightarrow> (\<exists>i. r = Inr i) \<and> up c'"
    and "fst (next_u64 R (rng_after R n (thread_rng w))) \<notin> dom (tbl c) \<Longrightarrow> r \<noteq> Inl Diverge"
proof -
  let ?body = "or_diverge (insert_loop Q R hub topic secret)"
  have rng: "\<exists>g. w = w\<lparr>thread_rng := g\<rparr>" by (rule exI [of _ "thread_rng w"]) simp
  have body: "(r1 = Inl Diverge \<and> c2 = c1 \<and> w2 = w \<and>
        insert_loop Q R hub topic secret (c1, w) = None) \<or>
      (creates tbl hub topic secret c1 w r1 c2 w2 \<and>
        (up c1 \<longrightarrow> up c2 \<and> (\<exists>i. r1 = Inr i)) \<and> r1 \<noteq> Inl Diverge)"
    if "?body (c1, w) = (r1, (c2, w2))" for r1 c1 c2 w2
    using that insert_loop_creates [of R hub topic secret c1 w r1 c2 w2]
    by (auto simp: or_diverge_def split: option.splits)
  have "creates tbl hub topic secret c w r c' w' \<and>
    (up c \<longrightarrow> r \<noteq> Inl Diverge \<longrightarrow> (\<exists>i. r = Inr i) \<and> up c') \<and>
    (fst (next_u64 R (rng_after R n (thread_rng w))) \<notin> dom (tbl c) \<longrightarrow> r \<noteq> Inl Diverge)"
    using T run
  proof (cases rule: transactionE)
    case (not_begun e)
    with rng show ?thesis by (auto simp: creates_def)
  next
    case (committed c1 a c2)
    with body [OF committed(3)] show ?thesis by (auto simp: creates_def)
  next
    case (not_committed c1 a c2 e)
    with body [OF not_committed(3)] show ?thesis by (auto simp: creates_def)
  next
    case (rolled_back c1 c2 e)
    with body [OF rolled_back(3)] show ?thesis by (auto simp: creates_def)
  next
    case (no_return c1 c2)
    from body [OF no_return(3)] no_return(4) have "r = Inl Diverge" "w' = w"
      "insert_loop Q R hub topic secret (c1, w) = None"
      by (auto simp: creates_def)
    with insert_loop_ends [of R n w c1 hub topic secret] no_return(1) rng show ?thesis
      by (auto simp: creates_def)
  qed
  then show "creates tbl hub topic secret c w r c' w'"
    and "up c \<Longrightarrow> r \<noteq> Inl Diverge \<Longrightarrow> (\<exists>i. r = Inr i) \<and> up c'"
    and "fst (next_u64 R (rng_after R n (thread_rng w))) \<notin> dom (tbl c) \<Longrightarrow> r \<noteq> Inl Diverge"
    by auto
qed

end

text \<open>What the conditions on one id select.\<close>

lemma updated_find: "updated [Find i] (Some e) m = activated i e m"
  by (auto simp: updated_def activated_def fun_eq_iff option.map_comp map_option_case split: option.splits)

lemma updated_expires: "updated [ExpiresLe t] None m = deactivated t m"
  by (simp add: updated_def deactivated_def)

lemma deleted_find: "deleted [Find i] m = m(i := None)"
  by (auto simp: deleted_def fun_eq_iff split: option.splits)

lemma card_matching_find: "0 < card (matching [Find i] m) \<longleftrightarrow> i \<in> dom m"
  by (auto simp: matching_find split: option.splits)

lemma yields_expiring:
  assumes "yields [ExpiresLe t] b m rows"
  shows "distinct (map fst (map (\<lambda>(i, s). (i, sub_hub s, sub_topic s)) rows)) \<and>
    set (map (\<lambda>(i, s). (i, sub_hub s, sub_topic s)) rows) = expiring t m"
proof -
  have "map fst (map (\<lambda>(i, s). (i, sub_hub s, sub_topic s)) rows) = map fst rows"
    by (induction rows) auto
  moreover have "set (map (\<lambda>(i, s). (i, sub_hub s, sub_topic s)) rows) = expiring t m"
    using assms by (force simp: yields_def matching_def expiring_def)
  moreover have "distinct (map fst rows)" using assms by (simp add: yields_def)
  ultimately show ?thesis by (simp only:)
qed

lemma yields_duplicates:
  assumes "yields [HubEq hub, TopicEq topic, NotId i] b m rows"
  shows "distinct (map (\<lambda>(j, _). j) rows) \<and> set (map (\<lambda>(j, _). j) rows) = duplicates i hub topic m"
proof -
  have "map (\<lambda>(j, _). j) rows = map fst rows" by (simp add: case_prod_unfold)
  moreover have "set rows = matching [HubEq hub, TopicEq topic, NotId i] m" "distinct (map fst rows)"
    using assms by (simp_all add: yields_def)
  moreover have "fst ` matching [HubEq hub, TopicEq topic, NotId i] m = duplicates i hub topic m"
    by (auto simp: matching_def duplicates_def image_iff)
  ultimately show ?thesis by (simp only: set_map)
qed

end
