(* ===== verification/Diesel1.thy ===== *)
theory Diesel1
  imports Sql
begin

text \<open>
  \<open>src/db/diesel1.rs\<close>: the connection that the macro \<open>define_connection!\<close> generates over
  Diesel 1.4, one definition per method of its \<open>ConnectionRef\<close>, and the proof that it keeps
  the same contract as the connection over Diesel 2. The vectors of rows are reinterpreted in
  place as vectors of \<open>u64\<close>s, which does not change the 64 bits.
\<close>

section \<open>Methods\<close>

definition diesel1_transaction ::
  "('c, 'x, 'w) diesel \<Rightarrow> ('c \<times> 'w, 'x sql_error, unit) action \<Rightarrow> ('c \<times> 'w, 'x sql_error, unit) action" where
  "diesel1_transaction Q f = transaction_unit Q f"

definition diesel1_create_subscription ::
  "('c, 'x, ('g, 'z) thread_scheme) diesel \<Rightarrow> 'g rng_core \<Rightarrow> string \<Rightarrow> string \<Rightarrow> string \<Rightarrow>
    ('c \<times> ('g, 'z) thread_scheme, 'x sql_error, u64) action" where
  "diesel1_create_subscription Q R hub topic secret =
     transaction_u64 Q (or_diverge (insert_loop Q R hub topic secret))"

definition diesel1_get_topic ::
  "('c, 'x, 'w) diesel \<Rightarrow> u64 \<Rightarrow> ('c, 'x sql_error, (string \<times> string) option) action" where
  "diesel1_get_topic Q i =
     optional (map_action (\<lambda>(_, s). (sub_topic s, sub_secret s)) (get_result Q [Find i]))"

definition diesel1_subscription_exists ::
  "('c, 'x, 'w) diesel \<Rightarrow> u64 \<Rightarrow> string \<Rightarrow> ('c, 'x sql_error, bool) action" where
  "diesel1_subscription_exists Q i topic = select_exists Q [Find i, TopicEq topic]"

definition diesel1_get_subscriptions_expire_before ::
  "('c, 'x, 'w) diesel \<Rightarrow> i64 \<Rightarrow> ('c, 'x sql_error, (u64 \<times> string \<times> string) list) action" where
  "diesel1_get_subscriptions_expire_before Q before =
     map_action (map (\<lambda>(i, s). (i, sub_hub s, sub_topic s))) (load Q [ExpiresLe before] False)"

definition diesel1_get_hub_of_inactive_subscription ::
  "('c, 'x, 'w) diesel \<Rightarrow> u64 \<Rightarrow> string \<Rightarrow> ('c, 'x sql_error, string option) action" where
  "diesel1_get_hub_of_inactive_subscription Q i topic =
     optional (map_action (\<lambda>(_, s). sub_hub s) (get_result Q [Find i, TopicEq topic, ExpiresIsNull]))"

definition diesel1_get_old_subscriptions ::
  "('c, 'x, 'w) diesel \<Rightarrow> u64 \<Rightarrow> string \<Rightarrow> string \<Rightarrow> ('c, 'x sql_error, u64 list) action" where
  "diesel1_get_old_subscriptions Q i hub topic =
     map_action (map (\<lambda>(j, _). j)) (load Q [HubEq hub, TopicEq topic, NotId i] False)"

definition diesel1_activate_subscription ::
  "('c, 'x, 'w) diesel \<Rightarrow> u64 \<Rightarrow> i64 \<Rightarrow> ('c, 'x sql_error, bool) action" where
  "diesel1_activate_subscription Q i expires_at =
     map_action (\<lambda>n. n \<noteq> 0) (update_set Q [Find i] (Some expires_at))"

definition diesel1_deactivate_subscriptions_expire_before ::
  "('c, 'x, 'w) diesel \<Rightarrow> i64 \<Rightarrow> ('c, 'x sql_error, unit) action" where
  "diesel1_deactivate_subscriptions_expire_before Q before =
     map_action (\<lambda>_. ()) (update_set Q [ExpiresLe before] None)"

definition diesel1_delete_subscriptions ::
  "('c, 'x, 'w) diesel \<Rightarrow> u64 \<Rightarrow> ('c, 'x sql_error, bool) action" where
  "diesel1_delete_subscriptions Q i = map_action (\<lambda>n. n \<noteq> 0) (delete_where Q [Find i])"

text \<open>\<open>Option::flatten\<close>.\<close>

definition flatten :: "'a option option \<Rightarrow> 'a option" where
  "flatten r = (case r of None \<Rightarrow> None | Some a \<Rightarrow> a)"

definition diesel1_get_next_expiry :: "('c, 'x, 'w) diesel \<Rightarrow> ('c, 'x sql_error, i64 option) action" where
  "diesel1_get_next_expiry Q =
     map_action flatten
       (optional (map_action (\<lambda>r. sub_expires_at (snd r)) (first Q [ExpiresIsNotNull] True)))"

definition diesel1_connection ::
  "('c, 'x, ('g, 'z) thread_scheme) diesel \<Rightarrow> 'g rng_core \<Rightarrow>
    ('c, 'x sql_error, ('g, 'z) thread_scheme) connection" where
  "diesel1_connection Q R = \<lparr>
     conn_transaction = diesel1_transaction Q,
     conn_create_subscription = diesel1_create_subscription Q R,
     conn_get_topic = diesel1_get_topic Q,
     conn_subscription_exists = diesel1_subscription_exists Q,
     conn_get_subscriptions_expire_before = diesel1_get_subscriptions_expire_before Q,
     conn_get_hub_of_inactive_subscription = diesel1_get_hub_of_inactive_subscription Q,
     conn_get_old_subscriptions = diesel1_get_old_subscriptions Q,
     conn_activate_subscription = diesel1_activate_subscription Q,
     conn_deactivate_subscriptions_expire_before = diesel1_deactivate_subscriptions_expire_before Q,
     conn_delete_subscriptions = diesel1_delete_subscriptions Q,
     conn_get_next_expiry = diesel1_get_next_expiry Q\<rparr>"

section \<open>The contract\<close>

context diesel_spec
begin

lemma diesel1_get_next_expiry_statement:
  "statement tbl up (diesel1_get_next_expiry Q) (\<lambda>m a m'. m' = m \<and> first_expiry m a)"
  unfolding statement_def
proof (intro allI impI)
  fix c r c' assume "diesel1_get_next_expiry Q c = (r, c')"
  then obtain r0 where r0: "first Q [ExpiresIsNotNull] True c = (r0, c')"
    and r: "r = (case r0 of Inr row \<Rightarrow> Inr (sub_expires_at (snd row))
      | Inl (Err NotFound) \<Rightarrow> Inr None | Inl g \<Rightarrow> Inl g)"
    by (auto simp: diesel1_get_next_expiry_def optional_def map_action_def and_then_def flatten_def
        split: prod.splits sum.splits fault.splits sql_error.splits)
  have none: "first_expiry m None" if "matching [ExpiresIsNotNull] m = {}" for m
    using that by (force simp: matching_def first_expiry_def)
  show "((\<exists>a. r = Inr a \<and> tbl c' = tbl c \<and> first_expiry (tbl c) a) \<or>
      (\<exists>e. r = Inl (Err e) \<and> tbl c' = tbl c)) \<and> (up c \<longrightarrow> (\<exists>a. r = Inr a) \<and> up c')"
    using first [OF r0] r none yields_not_null [of "tbl c"]
    by (fastforce split: sum.splits fault.splits sql_error.splits)
qed

end

locale diesel1_backend = diesel_spec Q tbl up
  for Q :: "('c, 'x, ('g, 'z) thread_scheme) diesel" and tbl :: "'c \<Rightarrow> table" and up :: "'c \<Rightarrow> bool" +
  fixes R :: "'g rng_core"
begin

lemma diesel1_create:
  assumes "conn_create_subscription (diesel1_connection Q R) hub topic secret (c, w) = (r, (c', w'))"
  shows "transaction_u64 Q (or_diverge (insert_loop Q R hub topic secret)) (c, w) = (r, (c', w'))"
  using assms by (simp add: diesel1_connection_def diesel1_create_subscription_def)

end

sublocale diesel1_backend \<subseteq> diesel1: connection_ref "diesel1_connection Q R" R tbl up
proof (unfold_locales, goal_cases)
  case 1
  have "conn_transaction (diesel1_connection Q R) = transaction_unit Q"
    by (simp add: diesel1_connection_def diesel1_transaction_def fun_eq_iff)
  then show ?case using transaction_unit by simp
next
  case (2 hub topic secret c w r c' w')
  then show ?case by (rule insert_in_transaction(1) [OF transaction_u64 diesel1_create])
next
  case (3 hub topic secret c w r c' w')
  then show ?case using insert_in_transaction(2) [OF transaction_u64 diesel1_create] by blast
next
  case (4 hub topic secret c w r c' w' n)
  then show ?case using insert_in_transaction(3) [OF transaction_u64 diesel1_create] by blast
next
  case (5 i)
  show ?case unfolding diesel1_connection_def connection.simps diesel1_get_topic_def
    by (rule optional_statement) (auto simp: matching_find split: option.splits)
next
  case (6 i topic)
  show ?case unfolding diesel1_connection_def connection.simps diesel1_subscription_exists_def
    by (rule statement_weaken [OF select_exists]) (auto simp: matching_find split: option.splits if_splits)
next
  case (7 t)
  show ?case unfolding diesel1_connection_def connection.simps diesel1_get_subscriptions_expire_before_def
    by (rule statement_map_action [OF load]) (use yields_expiring in blast)
next
  case (8 i topic)
  show ?case unfolding diesel1_connection_def connection.simps diesel1_get_hub_of_inactive_subscription_def
    by (rule optional_statement) (auto simp: matching_find split: option.splits if_splits)
next
  case (9 i hub topic)
  show ?case unfolding diesel1_connection_def connection.simps diesel1_get_old_subscriptions_def
    by (rule statement_map_action [OF load]) (use yields_duplicates in blast)
next
  case (10 i e)
  show ?case unfolding diesel1_connection_def connection.simps diesel1_activate_subscription_def
    by (rule statement_map_action [OF update_set]) (simp add: updated_find card_matching_find)
next
  case (11 t)
  show ?case unfolding diesel1_connection_def connection.simps
      diesel1_deactivate_subscriptions_expire_before_def
    by (rule statement_map_action [OF update_set]) (simp add: updated_expires)
next
  case (12 i)
  show ?case unfolding diesel1_connection_def connection.simps diesel1_delete_subscriptions_def
    by (rule statement_map_action [OF delete_where]) (simp add: deleted_find card_matching_find)
next
  case 13
  show ?case using diesel1_get_next_expiry_statement by (simp add: diesel1_connection_def)
qed

context diesel1_backend
begin

lemma connection: "connection_ref (diesel1_connection Q R) R tbl up"
  by (rule diesel1.connection_ref_axioms)

end

interpretation mem1: diesel1_backend mem_diesel mem_table mem_up counter_rng
  by unfold_locales

section \<open>Properties\<close>

text \<open>
  C17: the connection the macro generates over Diesel 1 keeps the same contract.
\<close>

theorem diesel1_keeps_contract:
  assumes "diesel_spec Q tbl up"
  shows "connection_ref (diesel1_connection Q R) R tbl up"
  using assms by (intro diesel1_backend.connection diesel1_backend.intro)

theorem diesel1_keeps_contract_witness:
  "connection_ref (diesel1_connection mem_diesel counter_rng) counter_rng mem_table mem_up"
  by (rule diesel1_keeps_contract [OF mem.diesel_spec_axioms])

end
