(* ===== verification/Diesel1_Macro.thy ===== *)
theory Diesel1_Macro
  imports Prelude
begin

text \<open>
  \<open>src/db/diesel1.rs\<close>, the macros \<open>define_connection!\<close> and \<open>_diesel1_define_connection_inner!\<close>:
  how they read their arguments, with the errors they raise at compile time, and which items
  they expand to. The methods of the expansion are in \<open>Diesel1\<close>.
\<close>

section \<open>Arguments\<close>

text \<open>
  The columns the macro knows. While the arguments are munched each has a slot, \<open>@\<close> (here
  \<open>None\<close>) until its path has been read.
\<close>

datatype column = IdColumn | HubColumn | TopicColumn | SecretColumn | ExpiresAtColumn

definition columns :: "column list" where
  "columns = [IdColumn, HubColumn, TopicColumn, SecretColumn, ExpiresAtColumn]"

fun column_name :: "column \<Rightarrow> string" where
  "column_name IdColumn = ''id''"
| "column_name HubColumn = ''hub''"
| "column_name TopicColumn = ''topic''"
| "column_name SecretColumn = ''secret''"
| "column_name ExpiresAtColumn = ''expires_at''"

type_synonym 'p slots = "column \<Rightarrow> 'p option"

text \<open>A struct to define: its attributes, its visibility and its name.\<close>

record struct_item =
  item_attrs :: "string list"
  item_vis :: string
  item_name :: string

datatype struct_decl = ConnectionDecl struct_item | PoolDecl struct_item

text \<open>The errors: three are raised with \<open>compile_error!\<close>, the last when no rule matches.\<close>

datatype macro_error = DuplicateColumn column | UnknownColumn string | MissingColumn column | NoRulesExpected

section \<open>Munching the columns\<close>

text \<open>The rules that take a column for a slot that is still \<open>@\<close>.\<close>

definition fill_column :: "string \<Rightarrow> 'p \<Rightarrow> 'p slots \<Rightarrow> 'p slots option" where
  "fill_column name path slots =
     (case find (\<lambda>k. column_name k = name \<and> slots k = None) columns of
        Some k \<Rightarrow> Some (slots(k \<mapsto> path))
      | None \<Rightarrow> None)"

text \<open>The rules for a column whose slot has been taken: an error, and the column is skipped.\<close>

definition duplicate_column :: "string \<Rightarrow> 'p slots \<Rightarrow> macro_error option" where
  "duplicate_column name slots =
     map_option DuplicateColumn (find (\<lambda>k. column_name k = name \<and> slots k \<noteq> None) columns)"

text \<open>The rules for missing columns, of which the first one is reported.\<close>

definition missing_column :: "'p slots \<Rightarrow> macro_error option" where
  "missing_column slots = map_option MissingColumn (find (\<lambda>k. slots k = None) columns)"

text \<open>
  The rules in their order. After an unknown column the macro calls itself without the
  structs to define, which no rule expects.
\<close>

fun munch :: "(string \<times> 'p) list \<Rightarrow> 'p slots \<Rightarrow> macro_error list \<times> 'p slots option" where
  "munch ((name, path) # rest) slots =
     (case fill_column name path slots of
        Some slots \<Rightarrow> munch rest slots
      | None \<Rightarrow>
          (case duplicate_column name slots of
             Some e \<Rightarrow> (case munch rest slots of (es, out) \<Rightarrow> (e # es, out))
           | None \<Rightarrow> ([UnknownColumn name, NoRulesExpected], None)))"
| "munch [] slots =
     (case missing_column slots of
        Some e \<Rightarrow> ([e], None)
      | None \<Rightarrow> ([], Some slots))"

section \<open>The public macro\<close>

definition default_item :: "string \<Rightarrow> struct_item" where
  "default_item name = \<lparr>item_attrs = [], item_vis = ''pub(crate)'', item_name = name\<rparr>"

text \<open>Which structs are declared; those that are not have a default name and visibility.\<close>

fun struct_items :: "struct_decl list \<Rightarrow> (struct_item \<times> struct_item) option" where
  "struct_items [ConnectionDecl c, PoolDecl p] = Some (c, p)"
| "struct_items [PoolDecl p, ConnectionDecl c] = Some (c, p)"
| "struct_items [ConnectionDecl c] = Some (c, default_item ''Pool'')"
| "struct_items [PoolDecl p] = Some (default_item ''Connection'', p)"
| "struct_items [] = Some (default_item ''Connection'', default_item ''Pool'')"
| "struct_items _ = None"

text \<open>The errors raised, and the structs with the columns the expansion works on.\<close>

definition define_connection ::
  "(string \<times> 'p) list \<Rightarrow> struct_decl list \<Rightarrow>
    macro_error list \<times> (struct_item \<times> struct_item \<times> 'p slots) option" where
  "define_connection cols decls =
     (case struct_items decls of
        None \<Rightarrow> ([NoRulesExpected], None)
      | Some (c, p) \<Rightarrow>
          (case munch cols (\<lambda>_. None) of (es, out) \<Rightarrow> (es, map_option (\<lambda>slots. (c, p, slots)) out)))"

section \<open>Columns and their names\<close>

lemma column_name_inj [simp]: "column_name k = column_name l \<longleftrightarrow> k = l"
  by (cases k; cases l) simp_all

lemma set_columns [simp]: "set columns = UNIV"
  using column.exhaust by (auto simp: columns_def)

lemma find_column: "find P columns = None \<longleftrightarrow> (\<forall>k. \<not> P k)" "find P columns = Some k \<Longrightarrow> P k"
  by (auto simp: find_None_iff find_Some_iff)

text \<open>What a successful munching leaves: each open slot is filled by the one column of its name.\<close>

lemma fill_column_Some:
  "fill_column name path slots = Some slots' \<longleftrightarrow>
     (\<exists>k. column_name k = name \<and> slots k = None \<and> slots' = slots(k \<mapsto> path))"
proof (cases "find (\<lambda>k. column_name k = name \<and> slots k = None) columns")
  case None
  then have "fill_column name path slots = None" by (simp add: fill_column_def)
  moreover have "\<nexists>k. column_name k = name \<and> slots k = None" using None by (simp add: find_column(1))
  ultimately show ?thesis by auto
next
  case (Some k)
  from find_column(2) [OF Some] Some show ?thesis by (auto simp: fill_column_def)
qed

lemma fill_column_None:
  "fill_column name path slots = None \<longleftrightarrow> (\<nexists>k. column_name k = name \<and> slots k = None)"
  using fill_column_Some [of name path slots] by (metis option.exhaust option.distinct(1))

lemma set_remove_iff: "x \<in> B \<Longrightarrow> S = B - {x} \<longleftrightarrow> x \<notin> S \<and> insert x S = B"
  by auto

lemma munch_ok:
  "munch cols slots = ([], Some out) \<longleftrightarrow>
     distinct (map fst cols) \<and> set (map fst cols) = column_name ` {k. slots k = None} \<and>
     (\<forall>k. out k = (case slots k of Some p \<Rightarrow> Some p | None \<Rightarrow> map_of cols (column_name k)))"
proof (induction cols slots rule: munch.induct)
  case (1 name path rest slots)
  show ?case
  proof (cases "fill_column name path slots")
    case None
    then have "munch ((name, path) # rest) slots \<noteq> ([], Some out)"
      by (simp split: option.split prod.split)
    moreover have "name \<notin> column_name ` {k. slots k = None}" using None by (auto simp: fill_column_None)
    ultimately show ?thesis by auto
  next
    case (Some slots')
    then obtain k where k: "name = column_name k" "slots k = None" "slots' = slots(k \<mapsto> path)"
      by (auto simp: fill_column_Some)
    have opened: "column_name ` {l. slots' l = None} = column_name ` {l. slots l = None} - {name}"
      using k by auto
    have "name \<in> column_name ` {l. slots l = None}" using k by blast
    then have names: "set (map fst rest) = column_name ` {l. slots' l = None} \<longleftrightarrow>
        name \<notin> set (map fst rest) \<and> insert name (set (map fst rest)) = column_name ` {l. slots l = None}"
      unfolding opened by (rule set_remove_iff)
    have "(case slots' l of Some p \<Rightarrow> Some p | None \<Rightarrow> map_of rest (column_name l)) =
        (case slots l of Some p \<Rightarrow> Some p | None \<Rightarrow> map_of ((name, path) # rest) (column_name l))" for l
      using k by (simp split: option.split)
    then have "munch ((name, path) # rest) slots = ([], Some out) \<longleftrightarrow>
        distinct (map fst rest) \<and> set (map fst rest) = column_name ` {l. slots' l = None} \<and>
        (\<forall>l. out l = (case slots l of Some p \<Rightarrow> Some p
           | None \<Rightarrow> map_of ((name, path) # rest) (column_name l)))"
      using 1(2) [OF Some] Some by simp
    then show ?thesis unfolding names by (simp only: list.map fst_conv distinct.simps list.simps conj_ac)
  qed
next
  case (2 slots)
  show ?case
  proof (cases "missing_column slots")
    case None
    then have full: "{k. slots k = None} = {}" by (simp add: missing_column_def find_column(1))
    have "(case slots k of Some p \<Rightarrow> Some p | None \<Rightarrow> map_of [] (column_name k)) = slots k" for k
      by (simp split: option.split)
    with None full show ?thesis by (simp add: fun_eq_iff eq_commute)
  next
    case (Some e)
    then obtain k where "find (\<lambda>k. slots k = None) columns = Some k" by (auto simp: missing_column_def)
    then have "slots k = None" by (rule find_column(2))
    then have "column_name ` {k. slots k = None} \<noteq> {}" by blast
    with Some show ?thesis by simp
  qed
qed

text \<open>Every other outcome is an error.\<close>

lemma munch_error: "munch cols slots = ([], None) \<Longrightarrow> False"
proof (induction cols slots rule: munch.induct)
  case (1 name path rest slots)
  then show ?case by (auto split: option.splits prod.splits)
next
  case (2 slots)
  then show ?case by (auto split: option.splits)
qed

section \<open>Properties\<close>

text \<open>
  C39: the macro accepts its columns exactly when each of the five is named once, in whatever
  order, and no struct is declared twice; then it expands to the structs declared, in either
  order, or left out, and works on the path given for each column. Everything else is a
  compile-time error, and raises at least one.
\<close>

theorem define_connection_accepts:
  "(fst (define_connection cols decls) = [] \<longleftrightarrow>
      struct_items decls \<noteq> None \<and> distinct (map fst cols) \<and>
      set (map fst cols) = {''id'', ''hub'', ''topic'', ''secret'', ''expires_at''}) \<and>
   (struct_items decls = Some (c, p) \<and> distinct (map fst cols) \<and>
      set (map fst cols) = {''id'', ''hub'', ''topic'', ''secret'', ''expires_at''} \<longrightarrow>
    define_connection cols decls = ([], Some (c, p, \<lambda>k. map_of cols (column_name k))))"
proof (cases "struct_items decls")
  case None
  then show ?thesis by (simp add: define_connection_def)
next
  case (Some cp)
  obtain c0 p0 es out where cp: "cp = (c0, p0)" and m: "munch cols (\<lambda>_. None) = (es, out)" by fastforce
  have all: "column_name ` {k. (\<lambda>_. None :: 'a option) k = None} = {''id'', ''hub'', ''topic'', ''secret'', ''expires_at''}"
    by (simp add: columns_def flip: set_columns)
  have ok: "munch cols (\<lambda>_. None) = ([], Some slots) \<longleftrightarrow> distinct (map fst cols) \<and>
      set (map fst cols) = {''id'', ''hub'', ''topic'', ''secret'', ''expires_at''} \<and>
      slots = (\<lambda>k. map_of cols (column_name k))" for slots
    using munch_ok [of cols "\<lambda>_. None" slots] unfolding all by (simp add: fun_eq_iff)
  show ?thesis
  proof (cases "es = []")
    case True
    with m munch_error obtain slots where "out = Some slots" by (cases out) auto
    with True m ok [of slots] Some cp show ?thesis by (simp add: define_connection_def)
  next
    case False
    with m ok [of "\<lambda>k. map_of cols (column_name k)"] Some cp show ?thesis by (simp add: define_connection_def)
  qed
qed

theorem define_connection_accepts_witness:
  "fst (define_connection [(''topic'', ''dsl::t''), (''id'', ''dsl::i''), (''expires_at'', ''dsl::e''), (''hub'', ''dsl::h''),
      (''secret'', ''dsl::s'')]
      [PoolDecl (default_item ''P'')]) = [] \<and>
   define_connection [(''topic'', ''dsl::t''), (''id'', ''dsl::i''), (''expires_at'', ''dsl::e''), (''hub'', ''dsl::h''),
      (''secret'', ''dsl::s'')]
      [PoolDecl (default_item ''P'')] =
     ([], Some (default_item ''Connection'', default_item ''P'',
        \<lambda>k. case k of IdColumn \<Rightarrow> Some ''dsl::i'' | HubColumn \<Rightarrow> Some ''dsl::h'' | TopicColumn \<Rightarrow> Some ''dsl::t''
          | SecretColumn \<Rightarrow> Some ''dsl::s'' | ExpiresAtColumn \<Rightarrow> Some ''dsl::e'')) \<and>
   fst (define_connection [(''topic'', ''dsl::t''), (''id'', ''dsl::i''), (''expires_at'', ''dsl::e''), (''hub'', ''dsl::h'')] []) \<noteq> []"
proof -
  let ?cols = "[(''topic'', ''dsl::t''), (''id'', ''dsl::i''), (''expires_at'', ''dsl::e''), (''hub'', ''dsl::h''),
      (''secret'', ''dsl::s'')]"
  let ?few = "[(''topic'', ''dsl::t''), (''id'', ''dsl::i''), (''expires_at'', ''dsl::e''), (''hub'', ''dsl::h'')]"
  have ok: "distinct (map fst ?cols) \<and>
      set (map fst ?cols) = {''id'', ''hub'', ''topic'', ''secret'', ''expires_at''}" by auto
  have slots: "map_of ?cols (column_name k) = (case k of IdColumn \<Rightarrow> Some ''dsl::i'' | HubColumn \<Rightarrow> Some ''dsl::h''
      | TopicColumn \<Rightarrow> Some ''dsl::t'' | SecretColumn \<Rightarrow> Some ''dsl::s'' | ExpiresAtColumn \<Rightarrow> Some ''dsl::e'')" for k
    by (cases k) simp_all
  have "''secret'' \<notin> set (map fst ?few)" by simp
  then have few: "set (map fst ?few) \<noteq> {''id'', ''hub'', ''topic'', ''secret'', ''expires_at''}" by blast
  from define_connection_accepts [of ?cols "[PoolDecl (default_item ''P'')]" "default_item ''Connection''"
      "default_item ''P''"] ok
    define_connection_accepts [of ?few "[]"] few
  show ?thesis unfolding slots by simp
qed

end
