(* ===== verification/Diesel2.thy ===== *)
theory Diesel2
  imports Sql
begin

text \<open>
  \<open>src/db/diesel2.rs\<close>: the connection over Diesel 2, one definition per method of its
  \<open>ConnectionRef\<close>, and the proof that it keeps the contract of \<open>Database\<close> over any
  connection that keeps the promises of \<open>diesel_spec\<close>. The casts between \<open>u64\<close> ids and
  \<open>i64\<close> columns do not change the 64 bits.
\<close>

section \<open>Methods\<close>

text \<open>The transmutation of the connection behind its transparent wrapper is the identity.\<close>

definition diesel2_transaction ::
  "('c, 'x, 'w) diesel \<Rightarrow> ('c \<times> 'w, 'x sql_error, unit) action \<Rightarrow> ('c \<times> 'w, 'x sql_error, unit) action" where
  "diesel2_transaction Q f = transaction_unit Q f"

definition diesel2_create_subscription ::
  "('c, 'x, ('g, 'z) thread_scheme) diesel \<Rightarrow> 'g rng_core \<Rightarrow> string \<Rightarrow> string \<Rightarrow> string \<Rightarrow>
    ('c \<times> ('g, 'z) thread_scheme, 'x sql_error, u64) action" where
  "diesel2_create_subscription Q R hub topic secret =
     transaction_u64 Q (or_diverge (insert_loop Q R hub topic secret))"

definition diesel2_get_topic ::
  "('c, 'x, 'w) diesel \<Rightarrow> u64 \<Rightarrow> ('c, 'x sql_error, (string \<times> string) option) action" where
  "diesel2_get_topic Q i =
     optional (map_action (\<lambda>(_, s). (sub_topic s, sub_secret s)) (get_result Q [Find i]))"

definition diesel2_subscription_exists ::
  "('c, 'x, 'w) diesel \<Rightarrow> u64 \<Rightarrow> string \<Rightarrow> ('c, 'x sql_error, bool) action" where
  "diesel2_subscription_exists Q i topic = select_exists Q [Find i, TopicEq topic]"

definition diesel2_get_subscriptions_expire_before ::
  "('c, 'x, 'w) diesel \<Rightarrow> i64 \<Rightarrow> ('c, 'x sql_error, (u64 \<times> string \<times> string) list) action" where
  "diesel2_get_subscriptions_expire_before Q before =
     and_then (load_iter Q [ExpiresLe before] False)
       (\<lambda>rs. lift (collect (map (map_sum (\<lambda>e. e) (\<lambda>(i, s). (i, sub_hub s, sub_topic s))) rs)))"

definition diesel2_get_hub_of_inactive_subscription ::
  "('c, 'x, 'w) diesel \<Rightarrow> u64 \<Rightarrow> string \<Rightarrow> ('c, 'x sql_error, string option) action" where
  "diesel2_get_hub_of_inactive_subscription Q i topic =
     optional (map_action (\<lambda>(_, s). sub_hub s) (get_result Q [Find i, TopicEq topic, ExpiresIsNull]))"

definition diesel2_get_old_subscriptions ::
  "('c, 'x, 'w) diesel \<Rightarrow> u64 \<Rightarrow> string \<Rightarrow> string \<Rightarrow> ('c, 'x sql_error, u64 list) action" where
  "diesel2_get_old_subscriptions Q i hub topic =
     and_then (load_iter Q [HubEq hub, TopicEq topic, NotId i] False)
       (\<lambda>rs. lift (collect (map (map_sum (\<lambda>e. e) (\<lambda>(j, _). j)) rs)))"

definition diesel2_activate_subscription ::
  "('c, 'x, 'w) diesel \<Rightarrow> u64 \<Rightarrow> i64 \<Rightarrow> ('c, 'x sql_error, bool) action" where
  "diesel2_activate_subscription Q i expires_at =
     map_action (\<lambda>n. n \<noteq> 0) (update_set Q [Find i] (Some expires_at))"

definition diesel2_deactivate_subscriptions_expire_before ::
  "('c, 'x, 'w) diesel \<Rightarrow> i64 \<Rightarrow> ('c, 'x sql_error, unit) action" where
  "diesel2_deactivate_subscriptions_expire_before Q before =
     map_action (\<lambda>_. ()) (update_set Q [ExpiresLe before] None)"

definition diesel2_delete_subscriptions ::
  "('c, 'x, 'w) diesel \<Rightarrow> u64 \<Rightarrow> ('c, 'x sql_error, bool) action" where
  "diesel2_delete_subscriptions Q i = map_action (\<lambda>n. n \<noteq> 0) (delete_where Q [Find i])"

text \<open>\<open>assume_not_null\<close> selects the expiry as a plain \<open>i64\<close>: loading a \<open>NULL\<close> is an error.\<close>

definition not_null :: "row \<Rightarrow> 'x sql_error + i64" where
  "not_null r = (case sub_expires_at (snd r) of None \<Rightarrow> Inl DeserializationError | Some e \<Rightarrow> Inr e)"

definition diesel2_get_next_expiry :: "('c, 'x, 'w) diesel \<Rightarrow> ('c, 'x sql_error, i64 option) action" where
  "diesel2_get_next_expiry Q =
     and_then (load_iter Q [ExpiresIsNotNull] True)
       (\<lambda>rs. lift (next_transposed (map (case_sum Inl not_null) rs)))"

definition diesel2_connection ::
  "('c, 'x, ('g, 'z) thread_scheme) diesel \<Rightarrow> 'g rng_core \<Rightarrow>
    ('c, 'x sql_error, ('g, 'z) thread_scheme) connection" where
  "diesel2_connection Q R = \<lparr>
     conn_transaction = diesel2_transaction Q,
     conn_create_subscription = diesel2_create_subscription Q R,
     conn_get_topic = diesel2_get_topic Q,
     conn_subscription_exists = diesel2_subscription_exists Q,
     conn_get_subscriptions_expire_before = diesel2_get_subscriptions_expire_before Q,
     conn_get_hub_of_inactive_subscription = diesel2_get_hub_of_inactive_subscription Q,
     conn_get_old_subscriptions = diesel2_get_old_subscriptions Q,
     conn_activate_subscription = diesel2_activate_subscription Q,
     conn_deactivate_subscriptions_expire_before = diesel2_deactivate_subscriptions_expire_before Q,
     conn_delete_subscriptions = diesel2_delete_subscriptions Q,
     conn_get_next_expiry = diesel2_get_next_expiry Q\<rparr>"

section \<open>The contract\<close>

context diesel_spec
begin

lemma diesel2_get_next_expiry_statement:
  "statement tbl up (diesel2_get_next_expiry Q) (\<lambda>m a m'. m' = m \<and> first_expiry m a)"
  unfolding diesel2_get_next_expiry_def
proof (rule load_iter_statement)
  fix m rows assume y: "yields [ExpiresIsNotNull] True m rows"
  show "\<exists>a. next_transposed (map (case_sum Inl not_null) (map Inr rows)) = Inr a \<and> m = m \<and> first_expiry m a"
    using yields_not_null [OF y] by (cases rows) (auto simp: not_null_def)
next
  fix m rows n e rest assume y: "yields [ExpiresIsNotNull] True m rows"
  show "(\<exists>a. next_transposed (map (case_sum Inl not_null) (map Inr (take n rows) @ Inl e # rest)) = Inr a \<and>
       m = m \<and> first_expiry m a) \<or>
    (\<exists>e'. next_transposed (map (case_sum Inl not_null) (map Inr (take n rows) @ Inl e # rest)) = Inl (Err e'))"
    using yields_not_null [OF y] by (cases rows; cases n) (auto simp: not_null_def)
qed

end

text \<open>The backend: Diesel 2 on any such connection, drawing ids from any generator.\<close>

locale diesel2_backend = diesel_spec Q tbl up
  for Q :: "('c, 'x, ('g, 'z) thread_scheme) diesel" and tbl :: "'c \<Rightarrow> table" and up :: "'c \<Rightarrow> bool" +
  fixes R :: "'g rng_core"
begin

lemma diesel2_create:
  assumes "conn_create_subscription (diesel2_connection Q R) hub topic secret (c, w) = (r, (c', w'))"
  shows "transaction_u64 Q (or_diverge (insert_loop Q R hub topic secret)) (c, w) = (r, (c', w'))"
  using assms by (simp add: diesel2_connection_def diesel2_create_subscription_def)

end

sublocale diesel2_backend \<subseteq> diesel2: connection_ref "diesel2_connection Q R" R tbl up
proof (unfold_locales, goal_cases)
  case 1
  have "conn_transaction (diesel2_connection Q R) = transaction_unit Q"
    by (simp add: diesel2_connection_def diesel2_transaction_def fun_eq_iff)
  then show ?case using transaction_unit by simp
next
  case (2 hub topic secret c w r c' w')
  then show ?case by (rule insert_in_transaction(1) [OF transaction_u64 diesel2_create])
next
  case (3 hub topic secret c w r c' w')
  then show ?case using insert_in_transaction(2) [OF transaction_u64 diesel2_create] by blast
next
  case (4 hub topic secret c w r c' w' n)
  then show ?case using insert_in_transaction(3) [OF transaction_u64 diesel2_create] by blast
next
  case (5 i)
  show ?case unfolding diesel2_connection_def connection.simps diesel2_get_topic_def
    by (rule optional_statement) (auto simp: matching_find split: option.splits)
next
  case (6 i topic)
  show ?case unfolding diesel2_connection_def connection.simps diesel2_subscription_exists_def
    by (rule statement_weaken [OF select_exists]) (auto simp: matching_find split: option.splits if_splits)
next
  case (7 t)
  show ?case unfolding diesel2_connection_def connection.simps diesel2_get_subscriptions_expire_before_def
    by (rule collect_statement) (use yields_expiring in blast)
next
  case (8 i topic)
  show ?case unfolding diesel2_connection_def connection.simps diesel2_get_hub_of_inactive_subscription_def
    by (rule optional_statement) (auto simp: matching_find split: option.splits if_splits)
next
  case (9 i hub topic)
  show ?case unfolding diesel2_connection_def connection.simps diesel2_get_old_subscriptions_def
    by (rule collect_statement) (use yields_duplicates in blast)
next
  case (10 i e)
  show ?case unfolding diesel2_connection_def connection.simps diesel2_activate_subscription_def
    by (rule statement_map_action [OF update_set]) (simp add: updated_find card_matching_find)
next
  case (11 t)
  show ?case unfolding diesel2_connection_def connection.simps
      diesel2_deactivate_subscriptions_expire_before_def
    by (rule statement_map_action [OF update_set]) (simp add: updated_expires)
next
  case (12 i)
  show ?case unfolding diesel2_connection_def connection.simps diesel2_delete_subscriptions_def
    by (rule statement_map_action [OF delete_where]) (simp add: deleted_find card_matching_find)
next
  case 13
  show ?case using diesel2_get_next_expiry_statement by (simp add: diesel2_connection_def)
qed

context diesel2_backend
begin

lemma connection: "connection_ref (diesel2_connection Q R) R tbl up"
  by (rule diesel2.connection_ref_axioms)

end

interpretation mem2: diesel2_backend mem_diesel mem_table mem_up counter_rng
  by unfold_locales

section \<open>Properties\<close>

text \<open>
  C16: the connection over Diesel 2 keeps the contract the subscriber relies on: every
  operation does to the table of subscriptions what it promises or fails without a trace, and
  transactions are all or nothing.
\<close>

theorem diesel2_keeps_contract:
  assumes "diesel_spec Q tbl up"
  shows "connection_ref (diesel2_connection Q R) R tbl up"
  using assms by (intro diesel2_backend.connection diesel2_backend.intro)

theorem diesel2_keeps_contract_witness:
  "connection_ref (diesel2_connection mem_diesel counter_rng) counter_rng mem_table mem_up"
  by (rule diesel2_keeps_contract [OF mem.diesel_spec_axioms])

text \<open>
  C37: creating a subscription ends: on a database that answers and has an id left, the loop
  over random ids finds a fresh one and inserts one inactive row under it, whatever the
  generator draws as long as it is not stuck on taken ids; nothing else of the thread changes.
\<close>

theorem diesel2_create_total:
  assumes "diesel_spec Q tbl up" "rng_spec R" "up c" "dom (tbl c) \<noteq> UNIV"
  shows "\<exists>i c' g. diesel2_create_subscription Q R hub topic secret (c, w) =
      (Inr i, (c', w\<lparr>thread_rng := g\<rparr>)) \<and>
    i \<notin> dom (tbl c) \<and> tbl c' = created i hub topic secret (tbl c) \<and> up c'"
proof -
  have "connection_ref (diesel2_connection Q R) R tbl up"
    using assms(1) by (intro diesel2_backend.connection diesel2_backend.intro)
  from connection_ref.create_total [OF this assms(2-4), of hub topic secret w] obtain i c' g where
    "conn_create_subscription (diesel2_connection Q R) hub topic secret (c, w) =
       (Inr i, (c', w\<lparr>thread_rng := g\<rparr>))"
    "i \<notin> dom (tbl c)" "tbl c' = created i hub topic secret (tbl c)" "up c'" .
  then show ?thesis by (auto simp: diesel2_connection_def)
qed

theorem diesel2_create_total_witness:
  "\<exists>i c' g. diesel2_create_subscription mem_diesel counter_rng ''hub'' ''topic'' ''secret''
      (\<lparr>mem_rows = [], mem_faults = []\<rparr>, \<lparr>thread_rng = 0\<rparr>) =
      (Inr i, (c', \<lparr>thread_rng = g\<rparr>)) \<and> mem_table c' i \<noteq> None"
proof -
  have "mem_up \<lparr>mem_rows = [], mem_faults = []\<rparr>"
    "dom (mem_table \<lparr>mem_rows = [], mem_faults = []\<rparr>) \<noteq> UNIV"
    by (simp_all add: mem_up_def mem_table_def)
  from diesel2_create_total [OF mem.diesel_spec_axioms counter_rng.rng_spec_axioms this,
      of "''hub''" "''topic''" "''secret''" "\<lparr>thread_rng = 0\<rparr>"]
  show ?thesis by (auto simp: created_def)
qed

end
