(* ===== verification/Columns.thy ===== *)
theory Columns
  imports Diesel2 "HOL-Library.Multiset"
begin

text \<open>
  The types under the Diesel 2 backend: the table that \<open>diesel::table!\<close> declares
  (\<open>src/schema.rs\<close>), the trait bounds of \<open>src/db/diesel2.rs\<close> and the statements its methods
  build from the column types. Statements are terms over columns and bound values, typed as the
  query builder types them and evaluated with SQL's three truth values; the conditions of
  \<open>Sql\<close> are what they come to.
\<close>

section \<open>Columns and tables\<close>

datatype sql_type = BigInt | Text | Bool | Nullable sql_type

datatype sql_value = IntV i64 | TextV string | BoolV bool | NullV

fun has_type :: "sql_value \<Rightarrow> sql_type \<Rightarrow> bool" where
  "has_type (IntV _) BigInt = True"
| "has_type (TextV _) Text = True"
| "has_type (BoolV _) Bool = True"
| "has_type NullV (Nullable _) = True"
| "has_type v (Nullable t) = has_type v t"
| "has_type _ _ = False"

record table_column =
  col_table :: string
  col_name :: string
  col_type :: sql_type

record table_def =
  table_name :: string
  primary_key :: table_column
  all_columns :: "table_column list"

text \<open>The macro declares the columns of one table, under different names.\<close>

definition declared :: "table_def \<Rightarrow> bool" where
  "declared T \<longleftrightarrow> distinct (map col_name (all_columns T)) \<and> primary_key T \<in> set (all_columns T) \<and>
     list_all (\<lambda>c. col_table c = table_name T) (all_columns T)"

definition subscriptions :: table_def where
  "subscriptions =
     (let col = \<lambda>n t. \<lparr>col_table = ''subscriptions'', col_name = n, col_type = t\<rparr>
      in \<lparr>table_name = ''subscriptions'', primary_key = col ''id'' BigInt,
          all_columns = [col ''id'' BigInt, col ''hub'' Text, col ''topic'' Text, col ''secret'' Text,
            col ''expires_at'' (Nullable BigInt)]\<rparr>)"

section \<open>The trait bounds\<close>

text \<open>A type of Rust that a query loads or binds.\<close>

datatype rust_type = RustBool | RustI64 | RustString | RustStr

datatype dialect = AnsiSqlFromClauseSyntax | AnsiSqlSelectStatement | AnsiSqlExistsSyntax | OtherSyntax

text \<open>What a backend is to diesel: its dialect, its SQL types and the conversions it implements.\<close>

record backend =
  empty_from_clause_syntax :: dialect
  select_statement_syntax :: dialect
  exists_syntax :: dialect
  has_sql_type :: "sql_type \<Rightarrow> bool"
  from_sql :: "rust_type \<Rightarrow> sql_type \<Rightarrow> bool"
  to_sql :: "rust_type \<Rightarrow> sql_type \<Rightarrow> bool"

text \<open>The type parameters of \<open>Connection\<close> that name columns.\<close>

record column_types =
  Id :: table_column
  Hub :: table_column
  Topic :: table_column
  Secret :: table_column
  ExpiresAt :: table_column

text \<open>
  The bounds under which a \<open>Connection\<close> can be made. Those on the types of the query builder
  (\<open>QueryFragment\<close>, \<open>QueryId\<close>, \<open>ValidGrouping\<close>, \<open>Default\<close>) hold of every declared table.
\<close>

definition connection_bounds :: "backend \<Rightarrow> table_def \<Rightarrow> column_types \<Rightarrow> bool" where
  "connection_bounds B T C \<longleftrightarrow>
     empty_from_clause_syntax B = AnsiSqlFromClauseSyntax \<and>
     select_statement_syntax B = AnsiSqlSelectStatement \<and>
     exists_syntax B = AnsiSqlExistsSyntax \<and>
     has_sql_type B BigInt \<and> has_sql_type B Bool \<and> has_sql_type B Text \<and>
     from_sql B RustBool Bool \<and> from_sql B RustI64 BigInt \<and> to_sql B RustI64 BigInt \<and>
     to_sql B RustStr Text \<and> from_sql B RustString Text \<and>
     primary_key T = Id C \<and> all_columns T = [Id C, Hub C, Topic C, Secret C, ExpiresAt C] \<and>
     col_table (Id C) = table_name T \<and> col_type (Id C) = BigInt \<and>
     col_table (Hub C) = table_name T \<and> col_type (Hub C) = Text \<and>
     col_table (Topic C) = table_name T \<and> col_type (Topic C) = Text \<and>
     col_table (Secret C) = table_name T \<and> col_type (Secret C) = Text \<and>
     col_table (ExpiresAt C) = table_name T \<and> col_type (ExpiresAt C) = Nullable BigInt"

section \<open>Expressions\<close>

text \<open>
  \<open>Bound\<close> is a value bound at an SQL type. A comparison is of two expressions of one type, and
  may be \<open>NULL\<close> if that type is nullable; \<open>assume_not_null\<close> only changes the type.
\<close>

datatype expr =
    Column table_column | Bound sql_type sql_value | Eq expr expr | Le expr expr | Not expr
  | IsNull expr | IsNotNull expr | AssumeNotNull expr

definition comparison :: "sql_type option \<Rightarrow> sql_type option \<Rightarrow> sql_type option" where
  "comparison a b = (case (a, b) of
     (Some t, Some u) \<Rightarrow>
       if t = u then Some (case t of Nullable _ \<Rightarrow> Nullable Bool | _ \<Rightarrow> Bool) else None
   | _ \<Rightarrow> None)"

fun sql_type_of :: "expr \<Rightarrow> sql_type option" where
  "sql_type_of (Column c) = Some (col_type c)"
| "sql_type_of (Bound t v) = (if has_type v t then Some t else None)"
| "sql_type_of (Eq a b) = comparison (sql_type_of a) (sql_type_of b)"
| "sql_type_of (Le a b) =
     (if sql_type_of a \<in> {Some BigInt, Some (Nullable BigInt)}
      then comparison (sql_type_of a) (sql_type_of b) else None)"
| "sql_type_of (Not a) =
     (case sql_type_of a of
        Some Bool \<Rightarrow> Some Bool | Some (Nullable Bool) \<Rightarrow> Some (Nullable Bool) | _ \<Rightarrow> None)"
| "sql_type_of (IsNull a) = map_option (\<lambda>_. Bool) (sql_type_of a)"
| "sql_type_of (IsNotNull a) = map_option (\<lambda>_. Bool) (sql_type_of a)"
| "sql_type_of (AssumeNotNull a) =
     (case sql_type_of a of Some (Nullable t) \<Rightarrow> Some t | t \<Rightarrow> t)"

fun columns_of :: "expr \<Rightarrow> table_column list" where
  "columns_of (Column c) = [c]"
| "columns_of (Bound t v) = []"
| "columns_of (Eq a b) = columns_of a @ columns_of b"
| "columns_of (Le a b) = columns_of a @ columns_of b"
| "columns_of (Not a) = columns_of a"
| "columns_of (IsNull a) = columns_of a"
| "columns_of (IsNotNull a) = columns_of a"
| "columns_of (AssumeNotNull a) = columns_of a"

text \<open>
  A stored row gives the value of each column. A comparison with \<open>NULL\<close> is \<open>NULL\<close>, and so is
  its negation. \<open>None\<close> is a type error, which the query builder rules out.
\<close>

type_synonym stored = "string \<Rightarrow> sql_value option"

definition compares :: "(sql_value \<Rightarrow> sql_value \<Rightarrow> sql_value option) \<Rightarrow> sql_value option \<Rightarrow>
    sql_value option \<Rightarrow> sql_value option" where
  "compares f a b = (case (a, b) of
     (Some v, Some w) \<Rightarrow> if v = NullV \<or> w = NullV then Some NullV else f v w
   | _ \<Rightarrow> None)"

fun eval :: "stored \<Rightarrow> expr \<Rightarrow> sql_value option" where
  "eval r (Column c) = r (col_name c)"
| "eval r (Bound t v) = Some v"
| "eval r (Eq a b) = compares (\<lambda>v w. Some (BoolV (v = w))) (eval r a) (eval r b)"
| "eval r (Le a b) = compares (\<lambda>v w. case (v, w) of
     (IntV x, IntV y) \<Rightarrow> Some (BoolV (sint x \<le> sint y)) | _ \<Rightarrow> None) (eval r a) (eval r b)"
| "eval r (Not a) =
     (case eval r a of
        Some (BoolV b) \<Rightarrow> Some (BoolV (\<not> b)) | Some NullV \<Rightarrow> Some NullV | _ \<Rightarrow> None)"
| "eval r (IsNull a) = map_option (\<lambda>v. BoolV (v = NullV)) (eval r a)"
| "eval r (IsNotNull a) = map_option (\<lambda>v. BoolV (v \<noteq> NullV)) (eval r a)"
| "eval r (AssumeNotNull a) = eval r a"

text \<open>A \<open>WHERE\<close> clause keeps the rows for which every condition is true, not \<open>NULL\<close>.\<close>

definition passes :: "expr list \<Rightarrow> stored \<Rightarrow> bool" where
  "passes conds r = list_all (\<lambda>q. eval r q = Some (BoolV True)) conds"

section \<open>Statements\<close>

datatype sql_statement =
    Select "expr list" "expr list" "expr option"
  | SelectExists "expr list"
  | InsertInto "(table_column \<times> expr) list"
  | UpdateSet "expr list" "table_column \<times> expr"
  | DeleteFrom "expr list"

text \<open>The methods of the connection that run one statement; \<open>Insert\<close> is one try of the loop.\<close>

datatype db_method =
    Insert u64 string string string
  | GetTopic u64
  | SubscriptionExists u64 string
  | GetSubscriptionsExpireBefore i64
  | GetHubOfInactiveSubscription u64 string
  | GetOldSubscriptions u64 string string
  | ActivateSubscription u64 i64
  | DeactivateSubscriptionsExpireBefore i64
  | DeleteSubscriptions u64
  | GetNextExpiry

definition find_row :: "table_def \<Rightarrow> i64 \<Rightarrow> expr" where
  "find_row T i = Eq (Column (primary_key T)) (Bound BigInt (IntV i))"

fun statement_for :: "table_def \<Rightarrow> column_types \<Rightarrow> db_method \<Rightarrow> sql_statement" where
  "statement_for T C (Insert i hub topic secret) =
     InsertInto [(Id C, Bound BigInt (IntV i)), (Hub C, Bound Text (TextV hub)),
       (Topic C, Bound Text (TextV topic)), (Secret C, Bound Text (TextV secret))]"
| "statement_for T C (GetTopic i) =
     Select [find_row T i] [Column (Topic C), Column (Secret C)] None"
| "statement_for T C (SubscriptionExists i topic) =
     SelectExists [find_row T i, Eq (Column (Topic C)) (Bound Text (TextV topic))]"
| "statement_for T C (GetSubscriptionsExpireBefore t) =
     Select [Le (Column (ExpiresAt C)) (Bound (Nullable BigInt) (IntV t))]
       [Column (Id C), Column (Hub C), Column (Topic C)] None"
| "statement_for T C (GetHubOfInactiveSubscription i topic) =
     Select [find_row T i, Eq (Column (Topic C)) (Bound Text (TextV topic)), IsNull (Column (ExpiresAt C))]
       [Column (Hub C)] None"
| "statement_for T C (GetOldSubscriptions i hub topic) =
     Select [Eq (Column (Hub C)) (Bound Text (TextV hub)), Eq (Column (Topic C)) (Bound Text (TextV topic)),
       Not (Eq (Column (Id C)) (Bound BigInt (IntV i)))] [Column (Id C)] None"
| "statement_for T C (ActivateSubscription i e) =
     UpdateSet [find_row T i] (ExpiresAt C, Bound (Nullable BigInt) (IntV e))"
| "statement_for T C (DeactivateSubscriptionsExpireBefore t) =
     UpdateSet [Le (Column (ExpiresAt C)) (Bound (Nullable BigInt) (IntV t))]
       (ExpiresAt C, Bound (Nullable BigInt) NullV)"
| "statement_for T C (DeleteSubscriptions i) = DeleteFrom [find_row T i]"
| "statement_for T C GetNextExpiry =
     Select [IsNotNull (Column (ExpiresAt C))] [AssumeNotNull (Column (ExpiresAt C))]
       (Some (Column (ExpiresAt C)))"

text \<open>The types a method loads its columns as.\<close>

fun loads_as :: "db_method \<Rightarrow> rust_type list" where
  "loads_as (GetTopic _) = [RustString, RustString]"
| "loads_as (SubscriptionExists _ _) = [RustBool]"
| "loads_as (GetSubscriptionsExpireBefore _) = [RustI64, RustString, RustString]"
| "loads_as (GetHubOfInactiveSubscription _ _) = [RustString]"
| "loads_as (GetOldSubscriptions _ _ _) = [RustI64]"
| "loads_as GetNextExpiry = [RustI64]"
| "loads_as _ = []"

section \<open>Typing\<close>

definition row_ok :: "table_def \<Rightarrow> stored \<Rightarrow> bool" where
  "row_ok T r \<longleftrightarrow> list_all (\<lambda>c. case r (col_name c) of
     Some v \<Rightarrow> has_type v (col_type c) | None \<Rightarrow> False) (all_columns T)"

fun sql_type_for :: "rust_type \<Rightarrow> sql_type" where
  "sql_type_for RustBool = Bool"
| "sql_type_for RustI64 = BigInt"
| "sql_type_for RustString = Text"
| "sql_type_for RustStr = Text"

text \<open>Loading a \<open>NULL\<close> as a type other than \<open>Option\<close> is an error.\<close>

fun deserializes :: "rust_type \<Rightarrow> sql_value \<Rightarrow> bool" where
  "deserializes RustBool (BoolV _) = True"
| "deserializes RustI64 (IntV _) = True"
| "deserializes RustString (TextV _) = True"
| "deserializes _ _ = False"

text \<open>The values bound in an expression, as the backend must be able to serialize them.\<close>

fun binds_ok :: "backend \<Rightarrow> expr \<Rightarrow> bool" where
  "binds_ok B (Column c) = True"
| "binds_ok B (Bound t v) =
     (case (t, v) of
        (BigInt, IntV _) \<Rightarrow> to_sql B RustI64 BigInt | (Nullable BigInt, IntV _) \<Rightarrow> to_sql B RustI64 BigInt
      | (Nullable _, NullV) \<Rightarrow> True | (Text, TextV _) \<Rightarrow> to_sql B RustStr Text | _ \<Rightarrow> False)"
| "binds_ok B (Eq a b) = (binds_ok B a \<and> binds_ok B b)"
| "binds_ok B (Le a b) = (binds_ok B a \<and> binds_ok B b)"
| "binds_ok B (Not a) = binds_ok B a"
| "binds_ok B (IsNull a) = binds_ok B a"
| "binds_ok B (IsNotNull a) = binds_ok B a"
| "binds_ok B (AssumeNotNull a) = binds_ok B a"

definition expr_ok :: "backend \<Rightarrow> table_def \<Rightarrow> expr \<Rightarrow> bool" where
  "expr_ok B T e \<longleftrightarrow> binds_ok B e \<and> sql_type_of e \<noteq> None \<and> set (columns_of e) \<subseteq> set (all_columns T)"

definition cond_ok :: "backend \<Rightarrow> table_def \<Rightarrow> expr \<Rightarrow> bool" where
  "cond_ok B T e \<longleftrightarrow> expr_ok B T e \<and> sql_type_of e \<in> {Some Bool, Some (Nullable Bool)}"

definition assigns_ok :: "backend \<Rightarrow> table_def \<Rightarrow> table_column \<times> expr \<Rightarrow> bool" where
  "assigns_ok B T = (\<lambda>(c, e). c \<in> set (all_columns T) \<and> expr_ok B T e \<and> columns_of e = [] \<and>
     sql_type_of e = Some (col_type c))"

definition loads_ok :: "backend \<Rightarrow> table_def \<Rightarrow> expr \<Rightarrow> rust_type \<Rightarrow> bool" where
  "loads_ok B T e t \<longleftrightarrow> expr_ok B T e \<and> sql_type_of e = Some (sql_type_for t) \<and> from_sql B t (sql_type_for t)"

text \<open>The typing of a statement; a column an insertion leaves out must be nullable.\<close>

fun statement_ok :: "backend \<Rightarrow> table_def \<Rightarrow> sql_statement \<Rightarrow> rust_type list \<Rightarrow> bool" where
  "statement_ok B T (Select conds sel ord) ts \<longleftrightarrow>
     list_all (cond_ok B T) conds \<and> list_all2 (loads_ok B T) sel ts \<and>
     (case ord of None \<Rightarrow> True | Some e \<Rightarrow> expr_ok B T e)"
| "statement_ok B T (SelectExists conds) ts \<longleftrightarrow>
     exists_syntax B = AnsiSqlExistsSyntax \<and> list_all (cond_ok B T) conds \<and> ts = [RustBool] \<and>
     from_sql B RustBool Bool"
| "statement_ok B T (InsertInto asg) ts \<longleftrightarrow>
     list_all (assigns_ok B T) asg \<and> ts = [] \<and>
     list_all (\<lambda>c. c \<in> fst ` set asg \<or> (\<exists>t. col_type c = Nullable t)) (all_columns T)"
| "statement_ok B T (UpdateSet conds a) ts \<longleftrightarrow> list_all (cond_ok B T) conds \<and> assigns_ok B T a \<and> ts = []"
| "statement_ok B T (DeleteFrom conds) ts \<longleftrightarrow> list_all (cond_ok B T) conds \<and> ts = []"

section \<open>Running a statement\<close>

definition new_row :: "table_def \<Rightarrow> (table_column \<times> expr) list \<Rightarrow> stored" where
  "new_row T asg = (\<lambda>n.
     if n \<in> col_name ` set (all_columns T)
     then (case map_of (map (\<lambda>(c, e). (col_name c, e)) asg) n of
             Some e \<Rightarrow> eval Map.empty e | None \<Rightarrow> Some NullV)
     else None)"

text \<open>What a statement the database accepts makes of the rows, and the columns it answers with.\<close>

fun run_statement :: "table_def \<Rightarrow> sql_statement \<Rightarrow> stored list \<Rightarrow> stored list" where
  "run_statement T (InsertInto asg) rows = rows @ [new_row T asg]"
| "run_statement T (UpdateSet conds (c, e)) rows =
     map (\<lambda>r. if passes conds r then r(col_name c := eval r e) else r) rows"
| "run_statement T (DeleteFrom conds) rows = filter (\<lambda>r. \<not> passes conds r) rows"
| "run_statement T _ rows = rows"

fun answer_of :: "sql_statement \<Rightarrow> stored list \<Rightarrow> sql_value option list list" where
  "answer_of (Select conds sel ord) rows = map (\<lambda>r. map (eval r) sel) (filter (passes conds) rows)"
| "answer_of (SelectExists conds) rows = [[Some (BoolV (list_ex (passes conds) rows))]]"
| "answer_of _ rows = []"

section \<open>Type soundness\<close>

lemma has_type_cases:
  "has_type v BigInt \<longleftrightarrow> (\<exists>i. v = IntV i)" "has_type v Text \<longleftrightarrow> (\<exists>s. v = TextV s)"
  "has_type v Bool \<longleftrightarrow> (\<exists>b. v = BoolV b)" "has_type v (Nullable t) \<longleftrightarrow> v = NullV \<or> has_type v t"
  by (cases v; cases t; simp)+

fun assumes_not_null :: "expr \<Rightarrow> bool" where
  "assumes_not_null (AssumeNotNull _) = True"
| "assumes_not_null (Eq a b) = (assumes_not_null a \<or> assumes_not_null b)"
| "assumes_not_null (Le a b) = (assumes_not_null a \<or> assumes_not_null b)"
| "assumes_not_null (Not a) = assumes_not_null a"
| "assumes_not_null (IsNull a) = assumes_not_null a"
| "assumes_not_null (IsNotNull a) = assumes_not_null a"
| "assumes_not_null _ = False"

lemma row_okD:
  "row_ok T r \<Longrightarrow> c \<in> set (all_columns T) \<Longrightarrow> \<exists>v. r (col_name c) = Some v \<and> has_type v (col_type c)"
  by (fastforce simp: row_ok_def list_all_iff split: option.splits)

lemma comparison_Some:
  "comparison a b = Some t \<longleftrightarrow> (\<exists>u. a = Some u \<and> b = Some u \<and> t = (case u of Nullable _ \<Rightarrow> Nullable Bool | _ \<Rightarrow> Bool))"
  by (auto simp: comparison_def split: option.splits)

lemma eval_typed:
  assumes "row_ok T r" "sql_type_of e = Some t" "set (columns_of e) \<subseteq> set (all_columns T)"
    and "\<not> assumes_not_null e"
  shows "\<exists>v. eval r e = Some v \<and> has_type v t"
  using assms(2-)
proof (induction e arbitrary: t)
  case (Column c)
  with row_okD [OF assms(1)] show ?case by auto
next
  case (Eq a b)
  then obtain u where u: "sql_type_of a = Some u" "sql_type_of b = Some u"
    "t = (case u of Nullable _ \<Rightarrow> Nullable Bool | _ \<Rightarrow> Bool)" by (auto simp: comparison_Some)
  from Eq u obtain v w where vw: "eval r a = Some v" "has_type v u" "eval r b = Some w" "has_type w u" by fastforce
  show ?case
  proof (cases "v = NullV \<or> w = NullV")
    case True
    with vw u(3) show ?thesis by (cases u) (auto simp: compares_def has_type_cases)
  next
    case False
    with vw u(3) show ?thesis by (cases u) (auto simp: compares_def has_type_cases)
  qed
next
  case (Le a b)
  then have ints: "sql_type_of a \<in> {Some BigInt, Some (Nullable BigInt)}" by (simp split: if_splits)
  with Le obtain u where u: "sql_type_of a = Some u" "sql_type_of b = Some u"
    "t = (case u of Nullable _ \<Rightarrow> Nullable Bool | _ \<Rightarrow> Bool)" by (auto simp: comparison_Some)
  from Le u obtain v w where vw: "eval r a = Some v" "has_type v u" "eval r b = Some w" "has_type w u" by fastforce
  with ints u show ?case by (auto simp: compares_def has_type_cases)
next
  case (Not a)
  then obtain u where "sql_type_of a = Some u" "u = t" "u = Bool \<or> u = Nullable Bool"
    by (auto split: option.splits sql_type.splits)
  with Not show ?case by (fastforce simp: has_type_cases)
qed (fastforce split: if_splits)+

text \<open>A well-typed statement keeps the rows well-typed.\<close>

lemma assigned_typed:
  assumes "assigns_ok B T (c, e)" "row_ok T r" "\<not> assumes_not_null e"
  shows "\<exists>v. eval r e = Some v \<and> has_type v (col_type c)"
  using assms eval_typed [OF assms(2)] by (auto simp: assigns_ok_def)

lemma closed_eval: "columns_of e = [] \<Longrightarrow> eval r e = eval r' e"
  by (induction e) auto

lemma row_ok_update:
  assumes "declared T" "row_ok T r" "c \<in> set (all_columns T)" "has_type v (col_type c)"
  shows "row_ok T (r(col_name c \<mapsto> v))"
proof -
  have "c' = c" if "c' \<in> set (all_columns T)" "col_name c' = col_name c" for c'
    using assms(1,3) that by (auto simp: declared_def distinct_map dest: inj_onD)
  with assms(2-4) show ?thesis by (auto simp: row_ok_def list_all_iff)
qed

lemma row_ok_new:
  assumes "declared T" "list_all (assigns_ok B T) asg" "list_all (\<lambda>(c, e). \<not> assumes_not_null e) asg"
    and "list_all (\<lambda>c. c \<in> fst ` set asg \<or> (\<exists>t. col_type c = Nullable t)) (all_columns T)"
  shows "row_ok T (new_row T asg)"
  unfolding row_ok_def list_all_iff
proof
  fix c assume c: "c \<in> set (all_columns T)"
  let ?m = "map_of (map (\<lambda>(c, e). (col_name c, e)) asg)"
  show "case new_row T asg (col_name c) of Some v \<Rightarrow> has_type v (col_type c) | None \<Rightarrow> False"
  proof (cases "?m (col_name c)")
    case None
    then have "c \<notin> fst ` set asg" by (force simp: map_of_eq_None_iff)
    with assms(4) c obtain t where "col_type c = Nullable t" by (auto simp: list_all_iff)
    with None c show ?thesis by (auto simp: new_row_def)
  next
    case (Some e)
    then obtain c' where c': "(c', e) \<in> set asg" "col_name c' = col_name c" by (force dest: map_of_SomeD)
    with assms(2,3) have ok: "assigns_ok B T (c', e)" "\<not> assumes_not_null e" by (auto simp: list_all_iff)
    then have "c' = c" using assms(1) c c'(2) by (auto simp: declared_def distinct_map assigns_ok_def dest: inj_onD)
    have "sql_type_of e = Some (col_type c)" "columns_of e = []"
      using ok(1) \<open>c' = c\<close> by (auto simp: assigns_ok_def)
    moreover have "row_ok (T\<lparr>all_columns := []\<rparr>) Map.empty" by (simp add: row_ok_def)
    ultimately obtain v where "eval Map.empty e = Some v" "has_type v (col_type c)"
      using eval_typed [of "T\<lparr>all_columns := []\<rparr>" Map.empty e] ok(2) by auto
    with Some c show ?thesis by (auto simp: new_row_def)
  qed
qed

fun assigned_exprs :: "sql_statement \<Rightarrow> expr list" where
  "assigned_exprs (InsertInto asg) = map snd asg"
| "assigned_exprs (UpdateSet conds (c, e)) = [e]"
| "assigned_exprs _ = []"

lemma run_typed:
  assumes "declared T" "statement_ok B T st ts" "\<forall>e \<in> set (assigned_exprs st). \<not> assumes_not_null e"
    and "list_all (row_ok T) rows"
  shows "list_all (row_ok T) (run_statement T st rows)"
proof (cases st)
  case (InsertInto asg)
  with assms row_ok_new [OF assms(1), of B asg] show ?thesis by (auto simp: list_all_iff split_beta)
next
  case (UpdateSet conds a)
  obtain c e where a: "a = (c, e)" by fastforce
  have asg: "assigns_ok B T (c, e)" "\<not> assumes_not_null e" using assms(2,3) UpdateSet a by simp_all
  have "row_ok T (r(col_name c := eval r e))" if r: "row_ok T r" for r
  proof -
    obtain v where "eval r e = Some v" "has_type v (col_type c)"
      using assigned_typed [OF asg(1) r asg(2)] by blast
    with row_ok_update [OF assms(1) r, of c v] asg(1) show ?thesis by (simp add: assigns_ok_def)
  qed
  with assms(4) UpdateSet a show ?thesis by (auto simp: list_all_iff)
qed (use assms(4) in \<open>auto simp: list_all_iff\<close>)

lemma deserializes_typed: "t \<noteq> RustStr \<Longrightarrow> has_type v (sql_type_for t) \<Longrightarrow> deserializes t v"
  by (cases t) (auto simp: has_type_cases)

lemma loads_typed:
  assumes "loads_ok B T e t" "t \<noteq> RustStr" "row_ok T r" "\<not> assumes_not_null e"
  shows "\<exists>v. eval r e = Some v \<and> deserializes t v"
  using eval_typed [OF assms(3) _ _ assms(4)] assms(1,2)
  by (auto simp: loads_ok_def expr_ok_def intro: deserializes_typed)

section \<open>The statements of the methods\<close>

lemma bounds_columns:
  assumes "connection_bounds B T C"
  shows "all_columns T = [Id C, Hub C, Topic C, Secret C, ExpiresAt C]" "primary_key T = Id C"
    "col_type (Id C) = BigInt" "col_type (Hub C) = Text" "col_type (Topic C) = Text"
    "col_type (Secret C) = Text" "col_type (ExpiresAt C) = Nullable BigInt"
  using assms by (auto simp: connection_bounds_def)

lemmas typing_defs = find_row_def cond_ok_def expr_ok_def loads_ok_def assigns_ok_def comparison_def

lemma methods_typed:
  assumes "connection_bounds B T C"
  shows "statement_ok B T (statement_for T C x) (loads_as x)"
  using assms bounds_columns [OF assms]
  by (cases x) (simp_all add: typing_defs connection_bounds_def)

lemma methods_assign:
  "\<forall>e \<in> set (assigned_exprs (statement_for T C x)). \<not> assumes_not_null e"
  by (cases x) auto

lemma methods_load:
  assumes "connection_bounds B T C" "list_all (row_ok T) rows" "vs \<in> set (answer_of (statement_for T C x) rows)"
  shows "list_all2 (\<lambda>t v. \<exists>w. v = Some w \<and> deserializes t w) (loads_as x) vs"
proof -
  note cols = bounds_columns [OF assms(1)]
  have col: "\<exists>w. r (col_name c) = Some w \<and> deserializes t w"
    if "row_ok T r" "c \<in> set (all_columns T)" "col_type c = sql_type_for t" "t \<noteq> RustStr" for r c t
    using row_okD [OF that(1,2)] that(3,4) by (auto intro: deserializes_typed)
  show ?thesis
  proof (cases x)
    case GetNextExpiry
    with assms(3) obtain r where r: "r \<in> set rows" "eval r (IsNotNull (Column (ExpiresAt C))) = Some (BoolV True)"
      "vs = [r (col_name (ExpiresAt C))]"
      by (auto simp: passes_def)
    with assms(2) have "row_ok T r" by (simp add: list_all_iff)
    from row_okD [OF this, of "ExpiresAt C"] cols r(2,3) GetNextExpiry show ?thesis
      by (auto simp: has_type_cases)
  qed (use assms(2,3) cols in \<open>auto simp: list_all_iff intro!: col\<close>)
qed

section \<open>What the statements mean\<close>

text \<open>The columns of a row of the model.\<close>

definition stored_row :: "column_types \<Rightarrow> row \<Rightarrow> stored" where
  "stored_row C = (\<lambda>(i, s). map_of [
     (col_name (Id C), IntV i), (col_name (Hub C), TextV (sub_hub s)),
     (col_name (Topic C), TextV (sub_topic s)), (col_name (Secret C), TextV (sub_secret s)),
     (col_name (ExpiresAt C), case sub_expires_at s of None \<Rightarrow> NullV | Some e \<Rightarrow> IntV e)])"

text \<open>The conditions that the methods of \<open>Diesel2\<close> pass.\<close>

fun conds_for :: "db_method \<Rightarrow> cond list" where
  "conds_for (Insert i hub topic secret) = []"
| "conds_for (GetTopic i) = [Find i]"
| "conds_for (SubscriptionExists i topic) = [Find i, TopicEq topic]"
| "conds_for (GetSubscriptionsExpireBefore t) = [ExpiresLe t]"
| "conds_for (GetHubOfInactiveSubscription i topic) = [Find i, TopicEq topic, ExpiresIsNull]"
| "conds_for (GetOldSubscriptions i hub topic) = [HubEq hub, TopicEq topic, NotId i]"
| "conds_for (ActivateSubscription i e) = [Find i]"
| "conds_for (DeactivateSubscriptionsExpireBefore t) = [ExpiresLe t]"
| "conds_for (DeleteSubscriptions i) = [Find i]"
| "conds_for GetNextExpiry = [ExpiresIsNotNull]"

lemma methods_pass:
  "diesel2_get_topic Q i = optional (map_action (\<lambda>(_, s). (sub_topic s, sub_secret s)) (get_result Q (conds_for (GetTopic i))))"
  "diesel2_subscription_exists Q i topic = select_exists Q (conds_for (SubscriptionExists i topic))"
  "diesel2_activate_subscription Q i e = map_action (\<lambda>n. n \<noteq> 0) (update_set Q (conds_for (ActivateSubscription i e)) (Some e))"
  "diesel2_deactivate_subscriptions_expire_before Q t =
     map_action (\<lambda>_. ()) (update_set Q (conds_for (DeactivateSubscriptionsExpireBefore t)) None)"
  "diesel2_delete_subscriptions Q i = map_action (\<lambda>n. n \<noteq> 0) (delete_where Q (conds_for (DeleteSubscriptions i)))"
  "diesel2_get_hub_of_inactive_subscription Q i topic =
     optional (map_action (\<lambda>(_, s). sub_hub s) (get_result Q (conds_for (GetHubOfInactiveSubscription i topic))))"
  by (simp_all add: diesel2_get_topic_def diesel2_subscription_exists_def diesel2_activate_subscription_def
      diesel2_deactivate_subscriptions_expire_before_def diesel2_delete_subscriptions_def
      diesel2_get_hub_of_inactive_subscription_def)

text \<open>The columns they read of a row, as \<open>Diesel2\<close> projects them.\<close>

fun columns_for :: "db_method \<Rightarrow> row \<Rightarrow> sql_value list" where
  "columns_for (GetTopic _) (i, s) = [TextV (sub_topic s), TextV (sub_secret s)]"
| "columns_for (GetSubscriptionsExpireBefore _) (i, s) = [IntV i, TextV (sub_hub s), TextV (sub_topic s)]"
| "columns_for (GetHubOfInactiveSubscription _ _) (i, s) = [TextV (sub_hub s)]"
| "columns_for (GetOldSubscriptions _ _ _) (i, s) = [IntV i]"
| "columns_for GetNextExpiry (i, s) = [case sub_expires_at s of None \<Rightarrow> NullV | Some e \<Rightarrow> IntV e]"
| "columns_for _ _ = []"

definition rows_answer :: "db_method \<Rightarrow> row list \<Rightarrow> sql_value list list" where
  "rows_answer x rows = (case x of
     SubscriptionExists _ _ \<Rightarrow> [[BoolV (list_ex (selected (conds_for x)) rows)]]
   | Insert _ _ _ _ \<Rightarrow> [] | ActivateSubscription _ _ \<Rightarrow> []
   | DeactivateSubscriptionsExpireBefore _ \<Rightarrow> [] | DeleteSubscriptions _ \<Rightarrow> []
   | _ \<Rightarrow> map (columns_for x) (filter (selected (conds_for x)) rows))"

text \<open>What a method promises of the table.\<close>

fun method_effect :: "db_method \<Rightarrow> table \<Rightarrow> table" where
  "method_effect (Insert i hub topic secret) m = created i hub topic secret m"
| "method_effect (ActivateSubscription i e) m = activated i e m"
| "method_effect (DeactivateSubscriptionsExpireBefore t) m = deactivated t m"
| "method_effect (DeleteSubscriptions i) m = m(i := None)"
| "method_effect _ m = m"

fun conds_of :: "sql_statement \<Rightarrow> expr list" where
  "conds_of (Select conds sel ord) = conds"
| "conds_of (SelectExists conds) = conds"
| "conds_of (UpdateSet conds a) = conds"
| "conds_of (DeleteFrom conds) = conds"
| "conds_of (InsertInto asg) = []"

locale typed_table =
  fixes B :: backend and T :: table_def and C :: column_types
  assumes declared: "declared T" and bounds: "connection_bounds B T C"
begin

lemmas columns = bounds_columns [OF bounds]

lemma names_distinct:
  "distinct [col_name (Id C), col_name (Hub C), col_name (Topic C), col_name (Secret C),
     col_name (ExpiresAt C)]"
  using declared columns(1) by (simp add: declared_def)

lemma stored_row_reads [simp]:
  "stored_row C (i, s) (col_name (Id C)) = Some (IntV i)"
  "stored_row C (i, s) (col_name (Hub C)) = Some (TextV (sub_hub s))"
  "stored_row C (i, s) (col_name (Topic C)) = Some (TextV (sub_topic s))"
  "stored_row C (i, s) (col_name (Secret C)) = Some (TextV (sub_secret s))"
  "stored_row C (i, s) (col_name (ExpiresAt C)) =
     Some (case sub_expires_at s of None \<Rightarrow> NullV | Some e \<Rightarrow> IntV e)"
  using names_distinct by (auto simp: stored_row_def)

lemma stored_row_update:
  "(stored_row C (i, s))(col_name (ExpiresAt C) \<mapsto> (case e of None \<Rightarrow> NullV | Some e \<Rightarrow> IntV e)) =
     stored_row C (i, s\<lparr>sub_expires_at := e\<rparr>)"
  using names_distinct by (auto simp: stored_row_def fun_eq_iff)

lemma stored_row_ok: "row_ok T (stored_row C (i, s))"
  using columns by (cases "sub_expires_at s") (simp_all add: row_ok_def)

text \<open>SQL's three truth values select the rows that the model's conditions select.\<close>

lemma conds_mean: "passes (conds_of (statement_for T C x)) (stored_row C row) \<longleftrightarrow> selected (conds_for x) row"
proof -
  obtain i s where "row = (i, s)" by fastforce
  then show ?thesis
    using columns(2)
    by (cases x; cases "sub_expires_at s")
      (auto simp: passes_def find_row_def compares_def expires_before_def)
qed

end

text \<open>What a method makes of a list of rows.\<close>

fun rows_effect :: "db_method \<Rightarrow> row list \<Rightarrow> row list" where
  "rows_effect (Insert i hub topic secret) rows =
     rows @ [(i, \<lparr>sub_hub = hub, sub_topic = topic, sub_secret = secret, sub_expires_at = None\<rparr>)]"
| "rows_effect (ActivateSubscription i e) rows =
     map (\<lambda>(j, s). (j, if j = i then s\<lparr>sub_expires_at := Some e\<rparr> else s)) rows"
| "rows_effect (DeactivateSubscriptionsExpireBefore t) rows =
     map (\<lambda>(j, s). (j, if expires_before t s then s\<lparr>sub_expires_at := None\<rparr> else s)) rows"
| "rows_effect (DeleteSubscriptions i) rows = filter (\<lambda>(j, s). j \<noteq> i) rows"
| "rows_effect _ rows = rows"

lemma map_of_rows_effect:
  assumes "\<And>i hub topic secret. x = Insert i hub topic secret \<Longrightarrow> i \<notin> fst ` set rows"
  shows "map_of (rows_effect x rows) = method_effect x (map_of rows)"
proof (cases x)
  case (Insert i hub topic secret)
  then have "map_of rows i = None" using assms by (simp add: map_of_eq_None_iff)
  with Insert show ?thesis by (auto simp: created_def fun_eq_iff map_add_def split: option.splits)
next
  case (ActivateSubscription i e)
  have "map_of (map (\<lambda>(j, s). (j, if j = i then s\<lparr>sub_expires_at := Some e\<rparr> else s)) rows) j =
      activated i e (map_of rows) j" for j
    by (induction rows) (auto simp: activated_def)
  with ActivateSubscription show ?thesis by (simp add: fun_eq_iff)
next
  case (DeactivateSubscriptionsExpireBefore t)
  have "map_of (map (\<lambda>(j, s). (j, if expires_before t s then s\<lparr>sub_expires_at := None\<rparr> else s)) rows) j =
      deactivated t (map_of rows) j" for j
    by (induction rows) (auto simp: deactivated_def)
  with DeactivateSubscriptionsExpireBefore show ?thesis by (simp add: fun_eq_iff)
next
  case (DeleteSubscriptions i)
  have "map_of (filter (\<lambda>(j, s). j \<noteq> i) rows) = (map_of rows)(i := None)"
    by (induction rows) (auto simp: fun_eq_iff)
  with DeleteSubscriptions show ?thesis by simp
qed simp_all

context typed_table
begin

lemma stored_row_new: "new_row T [(Id C, Bound BigInt (IntV i)), (Hub C, Bound Text (TextV hub)),
    (Topic C, Bound Text (TextV topic)), (Secret C, Bound Text (TextV secret))] =
  stored_row C (i, \<lparr>sub_hub = hub, sub_topic = topic, sub_secret = secret, sub_expires_at = None\<rparr>)"
  using names_distinct by (auto simp: new_row_def stored_row_def columns(1) fun_eq_iff)

lemma update_rows:
  assumes "\<And>i s. passes conds (stored_row C (i, s)) \<longleftrightarrow> P i s"
    and "\<And>r. eval r e = Some (case e' of None \<Rightarrow> NullV | Some e \<Rightarrow> IntV e)"
  shows "run_statement T (UpdateSet conds (ExpiresAt C, e)) (map (stored_row C) rows) =
    map (stored_row C) (map (\<lambda>(j, s). (j, if P j s then s\<lparr>sub_expires_at := e'\<rparr> else s)) rows)"
  using assms by (auto simp: stored_row_update)

lemma run_effect:
  "run_statement T (statement_for T C x) (map (stored_row C) rows) = map (stored_row C) (rows_effect x rows)"
proof (cases x)
  case (Insert i hub topic secret)
  then show ?thesis by (simp add: stored_row_new)
next
  case (ActivateSubscription i e)
  with conds_mean [of x] have "passes [find_row T i] (stored_row C (j, s)) \<longleftrightarrow> j = i" for j s by simp
  from update_rows [OF this, of "Bound (Nullable BigInt) (IntV e)" "Some e" rows] ActivateSubscription
  show ?thesis by simp
next
  case (DeactivateSubscriptionsExpireBefore t)
  with conds_mean [of x]
  have "passes [Le (Column (ExpiresAt C)) (Bound (Nullable BigInt) (IntV t))] (stored_row C (j, s)) \<longleftrightarrow>
      expires_before t s" for j s by simp
  from update_rows [OF this, of "Bound (Nullable BigInt) NullV" None rows] DeactivateSubscriptionsExpireBefore
  show ?thesis by simp
next
  case (DeleteSubscriptions i)
  with conds_mean [of x] have "passes [find_row T i] (stored_row C row) \<longleftrightarrow> fst row = i" for row
    by (cases row) simp
  with DeleteSubscriptions show ?thesis by (simp add: filter_map comp_def case_prod_unfold)
qed simp_all

lemma answer_rows:
  "answer_of (statement_for T C x) (map (stored_row C) rows) = map (map Some) (rows_answer x rows)"
proof -
  have "filter (passes (conds_of (statement_for T C x))) (map (stored_row C) rows) =
      map (stored_row C) (filter (selected (conds_for x)) rows)"
    by (simp add: filter_map comp_def conds_mean)
  moreover have "list_ex (passes (conds_of (statement_for T C x))) (map (stored_row C) rows) =
      list_ex (selected (conds_for x)) rows"
    by (simp add: list_ex_iff conds_mean)
  ultimately show ?thesis by (cases x) (auto simp: rows_answer_def)
qed

end

section \<open>The columns of the example\<close>

text \<open>\<open>example/src/websub.rs\<close> names the columns of \<open>schema.rs\<close>.\<close>

definition websub_columns :: column_types where
  "websub_columns =
     (let col = \<lambda>n t. \<lparr>col_table = ''subscriptions'', col_name = n, col_type = t\<rparr>
      in \<lparr>Id = col ''id'' BigInt, Hub = col ''hub'' Text, Topic = col ''topic'' Text,
          Secret = col ''secret'' Text, ExpiresAt = col ''expires_at'' (Nullable BigInt)\<rparr>)"

text \<open>A backend with the types and conversions that the code asks for.\<close>

definition plain_backend :: backend where
  "plain_backend = \<lparr>empty_from_clause_syntax = AnsiSqlFromClauseSyntax,
     select_statement_syntax = AnsiSqlSelectStatement, exists_syntax = AnsiSqlExistsSyntax,
     has_sql_type = (\<lambda>t. t \<in> {BigInt, Text, Bool}),
     from_sql = (\<lambda>r t. t = sql_type_for r \<and> r \<noteq> RustStr),
     to_sql = (\<lambda>r t. t = sql_type_for r \<and> r \<noteq> RustString)\<rparr>"

interpretation websub: typed_table plain_backend subscriptions websub_columns
  by unfold_locales
    (simp_all add: declared_def connection_bounds_def plain_backend_def subscriptions_def websub_columns_def Let_def)

section \<open>The methods against their statements\<close>

text \<open>
  \<open>performs D x s vs s'\<close>: a call of the method \<open>x\<close> succeeds with the values \<open>vs\<close>. A try of
  \<open>create_subscription\<close> that succeeds is the insertion of the id it returns.
\<close>

inductive performs ::
  "('c, 'e, 'w) connection \<Rightarrow> db_method \<Rightarrow> 'c \<times> 'w \<Rightarrow> sql_value list list \<Rightarrow> 'c \<times> 'w \<Rightarrow> bool"
  for D :: "('c, 'e, 'w) connection" where
  "conn_create_subscription D hub topic secret (c, w) = (Inr i, (c', w')) \<Longrightarrow>
     performs D (Insert i hub topic secret) (c, w) [] (c', w')"
| "conn_get_topic D i c = (Inr a, c') \<Longrightarrow>
     performs D (GetTopic i) (c, w)
       (case a of None \<Rightarrow> [] | Some (topic, secret) \<Rightarrow> [[TextV topic, TextV secret]]) (c', w)"
| "conn_subscription_exists D i topic c = (Inr b, c') \<Longrightarrow>
     performs D (SubscriptionExists i topic) (c, w) [[BoolV b]] (c', w)"
| "conn_get_subscriptions_expire_before D t c = (Inr xs, c') \<Longrightarrow>
     performs D (GetSubscriptionsExpireBefore t) (c, w)
       (map (\<lambda>(i, hub, topic). [IntV i, TextV hub, TextV topic]) xs) (c', w)"
| "conn_get_hub_of_inactive_subscription D i topic c = (Inr a, c') \<Longrightarrow>
     performs D (GetHubOfInactiveSubscription i topic) (c, w)
       (case a of None \<Rightarrow> [] | Some hub \<Rightarrow> [[TextV hub]]) (c', w)"
| "conn_get_old_subscriptions D i hub topic c = (Inr js, c') \<Longrightarrow>
     performs D (GetOldSubscriptions i hub topic) (c, w) (map (\<lambda>j. [IntV j]) js) (c', w)"
| "conn_activate_subscription D i e c = (Inr b, c') \<Longrightarrow>
     performs D (ActivateSubscription i e) (c, w) [[BoolV b]] (c', w)"
| "conn_deactivate_subscriptions_expire_before D t c = (Inr u, c') \<Longrightarrow>
     performs D (DeactivateSubscriptionsExpireBefore t) (c, w) [] (c', w)"
| "conn_delete_subscriptions D i c = (Inr b, c') \<Longrightarrow>
     performs D (DeleteSubscriptions i) (c, w) [[BoolV b]] (c', w)"
| "conn_get_next_expiry D c = (Inr a, c') \<Longrightarrow>
     performs D GetNextExpiry (c, w) (case a of None \<Rightarrow> [] | Some e \<Rightarrow> [[IntV e]]) (c', w)"

text \<open>
  What a statement comes to for its method: the rows of a query, the first one in its order, or
  whether any row was affected.
\<close>

definition affected :: "sql_statement \<Rightarrow> stored list \<Rightarrow> nat" where
  "affected st rows = length (filter (passes (conds_of st)) rows)"

definition int_of :: "sql_value option list \<Rightarrow> int" where
  "int_of vs = (case vs of Some (IntV e) # _ \<Rightarrow> sint e | _ \<Rightarrow> 0)"

fun reply :: "db_method \<Rightarrow> sql_statement \<Rightarrow> stored list \<Rightarrow> sql_value option list list" where
  "reply (ActivateSubscription i e) st rows = [[Some (BoolV (affected st rows \<noteq> 0))]]"
| "reply (DeleteSubscriptions i) st rows = [[Some (BoolV (affected st rows \<noteq> 0))]]"
| "reply GetNextExpiry st rows = take 1 (sort_key int_of (answer_of st rows))"
| "reply x st rows = answer_of st rows"

lemma filter_find:
  "distinct (map fst rows) \<Longrightarrow> filter (\<lambda>(j, s). j = i \<and> P s) rows =
     (case map_of rows i of Some s \<Rightarrow> if P s then [(i, s)] else [] | None \<Rightarrow> [])"
proof (induction rows)
  case (Cons r rows)
  obtain j s where r: "r = (j, s)" by fastforce
  show ?case
  proof (cases "j = i")
    case True
    with Cons.prems r have "map_of rows i = None" by (simp add: map_of_eq_None_iff)
    with Cons r True show ?thesis by simp
  qed (use Cons r in simp)
qed simp

lemma distinct_of_map: "distinct (map f xs) \<Longrightarrow> distinct xs"
  by (simp add: distinct_map)

lemma mset_map_distinct:
  "distinct xs \<Longrightarrow> distinct ys \<Longrightarrow> set xs = set ys \<Longrightarrow> mset (map f xs) = mset (map f ys)"
  by (metis mset_map set_eq_iff_mset_eq_distinct)

lemma sort_key_map: "sort_key f (map g xs) = map g (sort_key (\<lambda>x. f (g x)) xs)"
proof -
  have "insort_key f (g x) (map g ys) = map g (insort_key (\<lambda>x. f (g x)) x ys)" for x ys
    by (induction ys) auto
  then show ?thesis by (induction xs) auto
qed

lemma list_ex_map_of:
  "distinct (map fst rows) \<Longrightarrow> list_ex (\<lambda>(j, s). j = i \<and> P s) rows \<longleftrightarrow> (\<exists>s. map_of rows i = Some s \<and> P s)"
  by (auto simp: list_ex_iff)

text \<open>The reply over the rows of the model.\<close>

definition rows_reply :: "db_method \<Rightarrow> row list \<Rightarrow> sql_value list list" where
  "rows_reply x rows = (case x of
     ActivateSubscription i _ \<Rightarrow> [[BoolV (i \<in> fst ` set rows)]]
   | DeleteSubscriptions i \<Rightarrow> [[BoolV (i \<in> fst ` set rows)]]
   | GetNextExpiry \<Rightarrow> take 1 (sort_key (\<lambda>vs. int_of (map Some vs)) (rows_answer x rows))
   | _ \<Rightarrow> rows_answer x rows)"

lemma first_of_sorted:
  assumes "set xs = (\<lambda>e. [IntV e]) ` E" "e \<in> E" "\<forall>e' \<in> E. sint e \<le> sint e'"
  shows "take 1 (sort_key (\<lambda>vs. int_of (map Some vs)) xs) = [[IntV e]]"
proof -
  let ?ys = "sort_key (\<lambda>vs. int_of (map Some vs)) xs"
  have ys: "set ?ys = (\<lambda>e. [IntV e]) ` E" using assms(1) by simp
  with assms(2) obtain v vs where v: "?ys = v # vs" by (cases ?ys) auto
  with ys have "v \<in> (\<lambda>e. [IntV e]) ` E" by (metis list.set_intros(1))
  then obtain e' where e': "v = [IntV e']" "e' \<in> E" by blast
  have "[IntV e] \<in> set (v # vs)" using assms(2) ys v by (metis image_eqI)
  moreover have "sorted (map (\<lambda>vs. int_of (map Some vs)) (v # vs))" unfolding v [symmetric] by simp
  ultimately have "sint e' \<le> sint e" using e'(1) by (auto simp: int_of_def)
  with assms(3) e'(2) have "e' = e" by (metis order_antisym signed_word_eqI)
  with v e'(1) show ?thesis by (simp only: take_Suc_Cons One_nat_def take0)
qed

lemma rows_reply_find:
  assumes "distinct (map fst rows)"
  shows "rows_reply (GetTopic i) rows =
      (case map_of rows i of None \<Rightarrow> [] | Some s \<Rightarrow> [[TextV (sub_topic s), TextV (sub_secret s)]])"
    "rows_reply (SubscriptionExists i topic) rows =
      [[BoolV (\<exists>s. map_of rows i = Some s \<and> sub_topic s = topic)]]"
    "rows_reply (GetHubOfInactiveSubscription i topic) rows = (case map_of rows i of
        None \<Rightarrow> [] | Some s \<Rightarrow> if sub_topic s = topic \<and> sub_expires_at s = None then [[TextV (sub_hub s)]] else [])"
    "rows_reply (ActivateSubscription i e) rows = [[BoolV (i \<in> dom (map_of rows))]]"
    "rows_reply (DeleteSubscriptions i) rows = [[BoolV (i \<in> dom (map_of rows))]]"
proof -
  have sel: "selected [Find i] = (\<lambda>(j, s). j = i \<and> True)"
    "selected [Find i, TopicEq topic] = (\<lambda>(j, s). j = i \<and> sub_topic s = topic)"
    "selected [Find i, TopicEq topic, ExpiresIsNull] =
       (\<lambda>(j, s). j = i \<and> sub_topic s = topic \<and> sub_expires_at s = None)"
    by (auto simp: fun_eq_iff)
  show "rows_reply (GetTopic i) rows =
      (case map_of rows i of None \<Rightarrow> [] | Some s \<Rightarrow> [[TextV (sub_topic s), TextV (sub_secret s)]])"
    unfolding rows_reply_def rows_answer_def db_method.case conds_for.simps sel filter_find [OF assms]
    by (simp split: option.split)
  show "rows_reply (SubscriptionExists i topic) rows =
      [[BoolV (\<exists>s. map_of rows i = Some s \<and> sub_topic s = topic)]]"
    unfolding rows_reply_def rows_answer_def db_method.case conds_for.simps sel list_ex_map_of [OF assms] ..
  show "rows_reply (GetHubOfInactiveSubscription i topic) rows = (case map_of rows i of
        None \<Rightarrow> [] | Some s \<Rightarrow> if sub_topic s = topic \<and> sub_expires_at s = None then [[TextV (sub_hub s)]] else [])"
    unfolding rows_reply_def rows_answer_def db_method.case conds_for.simps sel filter_find [OF assms]
    by (simp split: option.split)
qed (simp_all add: rows_reply_def dom_map_of_conv_image_fst)

lemma rows_reply_expiring:
  assumes "distinct (map fst rows)" "distinct (map fst xs)" "set xs = expiring t (map_of rows)"
  shows "mset (map (\<lambda>(i, hub, topic). [IntV i, TextV hub, TextV topic]) xs) =
    mset (rows_reply (GetSubscriptionsExpireBefore t) rows)"
proof -
  let ?ys = "map (\<lambda>(i, s). (i, sub_hub s, sub_topic s)) (filter (selected [ExpiresLe t]) rows)"
  have "distinct (map fst ?ys)"
    using assms(1) by (simp add: comp_def case_prod_unfold distinct_map_filter)
  then have "distinct ?ys" by (rule distinct_of_map)
  moreover have "set xs = set ?ys"
    using assms(1,3) by (force simp: expiring_def)
  moreover from assms(2) have "distinct xs" by (rule distinct_of_map)
  ultimately have "mset (map (\<lambda>(i, hub, topic). [IntV i, TextV hub, TextV topic]) xs) =
      mset (map (\<lambda>(i, hub, topic). [IntV i, TextV hub, TextV topic]) ?ys)"
    by (intro mset_map_distinct)
  also have "map (\<lambda>(i, hub, topic). [IntV i, TextV hub, TextV topic]) ?ys =
      rows_reply (GetSubscriptionsExpireBefore t) rows"
    by (simp add: rows_reply_def rows_answer_def)
  finally show ?thesis .
qed

lemma rows_reply_old:
  assumes "distinct (map fst rows)" "distinct js" "set js = duplicates i hub topic (map_of rows)"
  shows "mset (map (\<lambda>j. [IntV j]) js) = mset (rows_reply (GetOldSubscriptions i hub topic) rows)"
proof -
  let ?js = "map fst (filter (selected [HubEq hub, TopicEq topic, NotId i]) rows)"
  have "set js = set ?js"
    using assms(1,3) by (force simp: duplicates_def)
  then have "mset (map (\<lambda>j. [IntV j]) js) = mset (map (\<lambda>j. [IntV j]) ?js)"
    using assms(1,2) by (intro mset_map_distinct) (simp_all add: distinct_map_filter)
  also have "map (\<lambda>j. [IntV j]) ?js = rows_reply (GetOldSubscriptions i hub topic) rows"
    by (auto simp: rows_reply_def rows_answer_def)
  finally show ?thesis .
qed

lemma rows_reply_next:
  assumes "distinct (map fst rows)" "first_expiry (map_of rows) a"
  shows "(case a of None \<Rightarrow> [] | Some e \<Rightarrow> [[IntV e]]) = rows_reply GetNextExpiry rows"
proof -
  let ?E = "{e. \<exists>i s. map_of rows i = Some s \<and> sub_expires_at s = Some e}"
  let ?xs = "rows_answer GetNextExpiry rows"
  have xs: "set ?xs = (\<lambda>e. [IntV e]) ` ?E"
    using assms(1) by (force simp: rows_answer_def)
  show ?thesis
  proof (cases a)
    case None
    with assms(2) have "?E = {}" by (auto simp: first_expiry_def)
    with xs have "?xs = []" by simp
    with None show ?thesis by (simp add: rows_reply_def)
  next
    case (Some e)
    with assms(2) have "e \<in> ?E" "\<forall>e' \<in> ?E. sint e \<le> sint e'" by (auto simp: first_expiry_def)
    from first_of_sorted [OF xs this] Some show ?thesis by (simp add: rows_reply_def)
  qed
qed

lemma statement_ok_value: "statement tbl up m P \<Longrightarrow> m c = (Inr a, c') \<Longrightarrow> P (tbl c) a (tbl c')"
  by (auto elim: statementE)

context connection_ref
begin

text \<open>What the contract says of a call, over the rows of the table.\<close>

lemma performs_contract:
  assumes "performs D x (c, w) vs (c', w')" "subs c = map_of rows" "distinct (map fst rows)"
  shows "mset vs = mset (rows_reply x rows)" "subs c' = method_effect x (map_of rows)"
    "x = Insert i hub topic secret \<Longrightarrow> i \<notin> fst ` set rows"
proof -
  note found = rows_reply_find [OF assms(3)]
  have "mset vs = mset (rows_reply x rows) \<and> subs c' = method_effect x (map_of rows) \<and>
    (\<forall>i hub topic secret. x = Insert i hub topic secret \<longrightarrow> i \<notin> fst ` set rows)"
    using assms(1)
  proof (cases rule: performs.cases)
    case (1 hub topic secret i)
    with create_subscription [OF 1(3)] assms(2) show ?thesis
      by (simp add: creates_def rows_reply_def rows_answer_def dom_map_of_conv_image_fst)
  next
    case (2 i a)
    from statement_ok_value [OF get_topic 2(4)] found(1) [of i] assms(2) 2(1,2) show ?thesis
      by (auto split: option.splits)
  next
    case (3 i topic b)
    from statement_ok_value [OF subscription_exists 3(4)] found(2) [of i topic] assms(2) 3(1,2) show ?thesis
      by auto
  next
    case (4 t xs)
    from statement_ok_value [OF get_subscriptions_expire_before 4(4)]
    have "distinct (map fst xs)" "set xs = expiring t (map_of rows)" "subs c' = subs c"
      using assms(2) by auto
    with rows_reply_expiring [OF assms(3) this(1,2)] assms(2) 4(1,2) show ?thesis by simp
  next
    case (5 i topic a)
    from statement_ok_value [OF get_hub_of_inactive_subscription 5(4)] found(3) [of i topic] assms(2) 5(1,2)
    show ?thesis by (auto split: option.splits if_splits)
  next
    case (6 i hub topic js)
    from statement_ok_value [OF get_old_subscriptions 6(4)]
    have "distinct js" "set js = duplicates i hub topic (map_of rows)" "subs c' = subs c"
      using assms(2) by auto
    with rows_reply_old [OF assms(3) this(1,2)] assms(2) 6(1,2) show ?thesis by simp
  next
    case (7 i e b)
    from statement_ok_value [OF activate_subscription 7(4)] found(4) [of i e] assms(2) 7(1,2) show ?thesis
      by auto
  next
    case (8 t u)
    from statement_ok_value [OF deactivate_subscriptions_expire_before 8(4)] assms(2) 8(1,2) show ?thesis
      by (auto simp: rows_reply_def rows_answer_def)
  next
    case (9 i b)
    from statement_ok_value [OF delete_subscriptions 9(4)] found(5) [of i] assms(2) 9(1,2) show ?thesis
      by auto
  next
    case (10 a)
    from statement_ok_value [OF get_next_expiry 10(4)]
    have "first_expiry (map_of rows) a" "subs c' = subs c" using assms(2) by auto
    with rows_reply_next [OF assms(3) this(1)] assms(2) 10(1,2) show ?thesis by simp
  qed
  then show "mset vs = mset (rows_reply x rows)" "subs c' = method_effect x (map_of rows)"
    "x = Insert i hub topic secret \<Longrightarrow> i \<notin> fst ` set rows" by blast+
qed

end

lemma distinct_rows_effect:
  assumes "distinct (map fst rows)" "\<And>i hub topic secret. x = Insert i hub topic secret \<Longrightarrow> i \<notin> fst ` set rows"
  shows "distinct (map fst (rows_effect x rows))"
  using assms by (cases x) (auto simp: comp_def case_prod_unfold distinct_map_filter)

context typed_table
begin

lemma affected_rows:
  "affected (statement_for T C x) (map (stored_row C) rows) \<noteq> 0 \<longleftrightarrow> list_ex (selected (conds_for x)) rows"
  by (simp add: affected_def filter_map comp_def conds_mean list_ex_iff filter_empty_conv)

lemma reply_rows:
  "reply x (statement_for T C x) (map (stored_row C) rows) = map (map Some) (rows_reply x rows)"
proof (cases x)
  case (ActivateSubscription i e)
  with affected_rows [of x rows] show ?thesis
    by (force simp: rows_reply_def list_ex_iff image_iff)
next
  case (DeleteSubscriptions i)
  with affected_rows [of x rows] show ?thesis
    by (force simp: rows_reply_def list_ex_iff image_iff)
qed (use answer_rows [of x rows] in \<open>simp_all add: rows_reply_def sort_key_map take_map\<close>)

end

section \<open>Properties\<close>

text \<open>
  C19: what the trait bounds of the Diesel 2 backend promise. For every backend, table and
  columns that meet them, every statement of every method is well-typed, it keeps the rows of
  the table well-typed, and every row it loads has values of the types the method reads them
  as: no \<open>NULL\<close> reaches a column read as an \<open>i64\<close>, although \<open>get_next_expiry\<close> reads the
  nullable column as one.
\<close>

theorem statements_typed:
  assumes "declared T" "connection_bounds B T C" "list_all (row_ok T) rows"
  shows "statement_ok B T (statement_for T C x) (loads_as x) \<and>
    list_all (row_ok T) (run_statement T (statement_for T C x) rows) \<and>
    (\<forall>vs \<in> set (answer_of (statement_for T C x) rows).
       list_all2 (\<lambda>t v. \<exists>w. v = Some w \<and> deserializes t w) (loads_as x) vs)"
  using methods_typed [OF assms(2)] run_typed [OF assms(1) methods_typed [OF assms(2)] methods_assign assms(3)]
    methods_load [OF assms(2,3)] by blast

theorem statements_typed_witness:
  "list_all (row_ok subscriptions) (run_statement subscriptions
     (statement_for subscriptions websub_columns (DeactivateSubscriptionsExpireBefore 10))
     [stored_row websub_columns (1, \<lparr>sub_hub = ''h'', sub_topic = ''t'', sub_secret = ''s'', sub_expires_at = Some 7\<rparr>)])"
proof -
  have "list_all (row_ok subscriptions) [stored_row websub_columns
      (1, \<lparr>sub_hub = ''h'', sub_topic = ''t'', sub_secret = ''s'', sub_expires_at = Some 7\<rparr>)]"
    by (simp add: websub.stored_row_ok)
  from statements_typed [OF websub.declared websub.bounds this, of "DeactivateSubscriptionsExpireBefore 10"]
  show ?thesis by blast
qed

text \<open>
  C20: the methods do what their statements say. Take any connection of diesel that keeps its
  promises and any rows the table consists of, and evaluate the statement of a method on their
  stored form, where a comparison with \<open>NULL\<close> is neither true nor false. A call of the method
  that succeeds returns exactly the values that the statement selects (for the next expiry the
  first of them in ascending order, for an activation or a deletion whether a row was
  affected), and it leaves the table whose stored form the statement leaves.
\<close>

theorem statements_refine:
  assumes "diesel_spec Q tbl up" "declared T" "connection_bounds B T C"
    and "performs (diesel2_connection Q R) x (c, w) vs (c', w')"
    and "tbl c = map_of rows" "distinct (map fst rows)"
  shows "mset (map (map Some) vs) = mset (reply x (statement_for T C x) (map (stored_row C) rows)) \<and>
    (\<exists>rows'. run_statement T (statement_for T C x) (map (stored_row C) rows) = map (stored_row C) rows' \<and>
       map_of rows' = tbl c' \<and> distinct (map fst rows'))"
proof (intro conjI exI)
  have table: "typed_table B T C" by (rule typed_table.intro [OF assms(2,3)])
  have contract: "connection_ref (diesel2_connection Q R) R tbl up"
    using assms(1) by (intro diesel2_backend.connection diesel2_backend.intro)
  note performed = connection_ref.performs_contract [OF contract assms(4-6)]
  show "mset (map (map Some) vs) = mset (reply x (statement_for T C x) (map (stored_row C) rows))"
    unfolding typed_table.reply_rows [OF table] by (simp only: mset_map performed(1))
  show "run_statement T (statement_for T C x) (map (stored_row C) rows) = map (stored_row C) (rows_effect x rows)"
    by (rule typed_table.run_effect [OF table])
  show "map_of (rows_effect x rows) = tbl c'"
    unfolding performed(2) by (rule map_of_rows_effect) (rule performed(3))
  show "distinct (map fst (rows_effect x rows))"
    by (rule distinct_rows_effect [OF assms(6)]) (rule performed(3))
qed

theorem statements_refine_witness:
  "mset (reply (GetHubOfInactiveSubscription 1 ''t'')
     (statement_for subscriptions websub_columns (GetHubOfInactiveSubscription 1 ''t''))
     [stored_row websub_columns (1, \<lparr>sub_hub = ''h'', sub_topic = ''t'', sub_secret = ''s'', sub_expires_at = None\<rparr>)]) =
   {#[Some (TextV ''h'')]#}"
proof -
  let ?x = "GetHubOfInactiveSubscription 1 ''t''"
  let ?rows = "[(1, \<lparr>sub_hub = ''h'', sub_topic = ''t'', sub_secret = ''s'', sub_expires_at = None\<rparr>)] :: row list"
  let ?c = "\<lparr>mem_rows = ?rows, mem_faults = []\<rparr>" and ?w = "\<lparr>thread_rng = 0\<rparr> :: u64 thread"
  have "conn_get_hub_of_inactive_subscription (diesel2_connection mem_diesel counter_rng) 1 ''t'' ?c =
      (Inr (Some ''h''), ?c)"
    by (simp add: diesel2_connection_def diesel2_get_hub_of_inactive_subscription_def optional_def map_action_def
        and_then_def ret_def mem_diesel_def mem_query_def mem_select_def first_row_def)
  from performs.intros(5) [OF this]
  have "performs (diesel2_connection mem_diesel counter_rng) ?x (?c, ?w) [[TextV ''h'']] (?c, ?w)" by simp
  from statements_refine [OF mem.diesel_spec_axioms websub.declared websub.bounds this, of ?rows, THEN conjunct1]
  have "mset (reply ?x (statement_for subscriptions websub_columns ?x) (map (stored_row websub_columns) ?rows)) =
      mset (map (map Some) [[TextV ''h'']])"
    by (simp only: mem_table_def mem.select_convs list.map(1) fst_conv list.set distinct.simps empty_iff if_True
        simp_thms list.map(2))
  then show ?thesis by (simp only: list.map mset.simps)
qed

end
