(* ===== verification/Wrappers.thy ===== *)
theory Wrappers
  imports Columns Diesel1_Macro
begin

text \<open>
  The types around the connections of both backends: \<open>Connection\<close> and \<open>Pool\<close> of
  \<open>src/db/diesel2.rs\<close> and of the expansion of \<open>define_connection!\<close> (\<open>src/db/diesel1.rs\<close>). Every impl is
  written with its \<open>where\<close> clause, a list of bounds; the impl is \<open>None\<close> for types that do not
  meet them, or if its body calls an impl that these types do not have. That no such call is
  left is what the compiler checks, and what is proved here for all types.
\<close>

section \<open>Bounds\<close>

text \<open>
  The types the clauses mention. \<open>ConnTy\<close> is the inner connection, \<open>PooledConnection<M>\<close> in the impls
  of \<open>Pool\<close>; \<open>BackendTy\<close> its backend, \<open>R2d2PoolTy\<close> is \<open>r2d2::Pool<M>\<close>, and \<open>InsertTy\<close> the assignment
  of a bound value to a column.
\<close>

datatype rust_ty =
    ConnTy | BackendTy | TableTy | FromClauseTy | IdTy | HubTy | TopicTy | SecretTy | ExpiresAtTy
  | BoolTy | I64Ty | StrTy | StringTy | DefaultValuesTy | NoLimitOffsetTy | InsertTy rust_ty
  | ManagerTy | R2d2PoolTy

datatype bound =
    IsConnection | LoadConnection | IsBackend | SqlDialect dialect dialect dialect
  | DieselReserveSpecialization | HasSqlType sql_type | FromSql sql_type | ToSql sql_type
  | QueryFragment | QueryId | TableOf | HasTableSelf | AsSelectStatement | DefaultSelectionAll
  | ColumnOf | ExpressionOf sql_type | SelectableExpression | NotAggregate | EqAllI64 | InsertValues
  | DefaultImpl | ManageConnection | CloneImpl | Send | Sync | Static

type_synonym type_env = "rust_ty \<Rightarrow> bound \<Rightarrow> bool"

definition meets :: "type_env \<Rightarrow> (rust_ty \<times> bound) list \<Rightarrow> bool" where
  "meets E bounds = list_all (\<lambda>(t, b). E t b) bounds"

text \<open>The types of a backend, a table and its columns; what else they implement is \<open>X\<close>.\<close>

fun column_of :: "column_types \<Rightarrow> rust_ty \<Rightarrow> table_column option" where
  "column_of C IdTy = Some (Id C)"
| "column_of C HubTy = Some (Hub C)"
| "column_of C TopicTy = Some (Topic C)"
| "column_of C SecretTy = Some (Secret C)"
| "column_of C ExpiresAtTy = Some (ExpiresAt C)"
| "column_of C _ = None"

definition types_of :: "backend \<Rightarrow> table_def \<Rightarrow> column_types \<Rightarrow> type_env \<Rightarrow> type_env" where
  "types_of B T C X t b = (case b of
     SqlDialect f s e \<Rightarrow> empty_from_clause_syntax B = f \<and> select_statement_syntax B = s \<and> exists_syntax B = e
   | HasSqlType s \<Rightarrow> has_sql_type B s
   | FromSql s \<Rightarrow> (case t of BoolTy \<Rightarrow> from_sql B RustBool s | I64Ty \<Rightarrow> from_sql B RustI64 s
       | StringTy \<Rightarrow> from_sql B RustString s | _ \<Rightarrow> False)
   | ToSql s \<Rightarrow> (case t of I64Ty \<Rightarrow> to_sql B RustI64 s | StrTy \<Rightarrow> to_sql B RustStr s | _ \<Rightarrow> False)
   | TableOf \<Rightarrow> primary_key T = Id C \<and> all_columns T = [Id C, Hub C, Topic C, Secret C, ExpiresAt C]
   | ColumnOf \<Rightarrow> (case column_of C t of Some c \<Rightarrow> col_table c = table_name T | None \<Rightarrow> False)
   | ExpressionOf s \<Rightarrow> (case column_of C t of Some c \<Rightarrow> col_type c = s | None \<Rightarrow> False)
   | _ \<Rightarrow> X t b)"

section \<open>The structs\<close>

datatype phantom = PhantomData

record 'c conn_wrapper =
  inner_conn :: 'c
  conn_marker :: phantom

record 'p pool_wrapper =
  inner_pool :: 'p
  pool_marker :: phantom

text \<open>\<open>r2d2::Pool\<close>, with the errors \<open>'pe\<close> of \<open>r2d2\<close>; its state is a part of \<open>'s\<close>.\<close>

record ('m, 'p, 'c, 's, 'pe) r2d2 =
  r2d2_new :: "'m \<Rightarrow> ('s, 'pe, 'p) action"
  r2d2_get :: "'p \<Rightarrow> ('s, 'pe, 'c) action"
  r2d2_clone :: "'p \<Rightarrow> 'p"

text \<open>A pool may be shared between threads if its manager manages connections.\<close>

definition r2d2_types :: "type_env \<Rightarrow> bool" where
  "r2d2_types E \<longleftrightarrow> (E ManagerTy ManageConnection \<longrightarrow>
     E ManagerTy Static \<and> E R2d2PoolTy CloneImpl \<and> E R2d2PoolTy Send \<and> E R2d2PoolTy Sync)"

text \<open>The supertraits of \<open>crate::db::Pool\<close>.\<close>

definition pool_supertraits :: "bound list" where
  "pool_supertraits = [CloneImpl, Send, Sync, Static]"

section \<open>Diesel 2\<close>

text \<open>The bounds on a column, with what the impls of \<open>Pool\<close> add to them.\<close>

definition column_bounds :: "(rust_ty \<Rightarrow> (rust_ty \<times> bound) list) \<Rightarrow> rust_ty \<Rightarrow> sql_type \<Rightarrow> (rust_ty \<times> bound) list" where
  "column_bounds extra t s =
     [(t, ColumnOf), (t, ExpressionOf s), (t, SelectableExpression), (t, QueryFragment), (t, QueryId),
      (t, NotAggregate)] @ (if t = IdTy then [(t, EqAllI64)] else []) @ [(t, DefaultImpl)] @ extra t"

definition where_clause :: "(rust_ty \<Rightarrow> (rust_ty \<times> bound) list) \<Rightarrow> (rust_ty \<times> bound) list" where
  "where_clause extra =
     [(ConnTy, IsConnection), (ConnTy, LoadConnection), (BackendTy, IsBackend),
      (BackendTy, SqlDialect AnsiSqlFromClauseSyntax AnsiSqlSelectStatement AnsiSqlExistsSyntax),
      (BackendTy, DieselReserveSpecialization), (BackendTy, HasSqlType BigInt), (BackendTy, HasSqlType Bool),
      (BackendTy, HasSqlType Text), (BackendTy, Static), (DefaultValuesTy, QueryFragment),
      (NoLimitOffsetTy, QueryFragment), (BoolTy, FromSql Bool), (I64Ty, FromSql BigInt), (I64Ty, ToSql BigInt),
      (StrTy, ToSql Text), (StringTy, FromSql Text), (TableTy, TableOf), (TableTy, HasTableSelf),
      (TableTy, AsSelectStatement), (TableTy, DefaultSelectionAll), (TableTy, QueryId), (TableTy, DefaultImpl),
      (TableTy, Static), (FromClauseTy, QueryFragment)] @
     column_bounds extra IdTy BigInt @ column_bounds extra HubTy Text @ column_bounds extra TopicTy Text @
     column_bounds extra SecretTy Text @ column_bounds extra ExpiresAtTy (Nullable BigInt)"

definition connection_where :: "(rust_ty \<times> bound) list" where
  "connection_where = where_clause (\<lambda>_. [])"

definition pool_where :: "(rust_ty \<times> bound) list" where
  "pool_where = (ManagerTy, ManageConnection) # where_clause (\<lambda>t. [(t, Static)])"

definition conn_new :: "type_env \<Rightarrow> ('c \<Rightarrow> 'c conn_wrapper) option" where
  "conn_new E =
     (if meets E connection_where then Some (\<lambda>c. \<lparr>inner_conn = c, conn_marker = PhantomData\<rparr>) else None)"

definition into_inner_conn :: "'c conn_wrapper \<Rightarrow> 'c" where
  "into_inner_conn this = inner_conn this"

text \<open>The impl of \<open>crate::db::Connection\<close>: its \<open>Ref\<close> is \<open>&mut Self\<close>, which must be a \<open>ConnectionRef\<close>.\<close>

definition connection_ref_impl :: "type_env \<Rightarrow> bool" where
  "connection_ref_impl E \<longleftrightarrow> meets E connection_where"

definition connection_impl :: "type_env \<Rightarrow> bool" where
  "connection_impl E \<longleftrightarrow> meets E connection_where \<and> connection_ref_impl E"

definition as_conn_ref :: "type_env \<Rightarrow> ('c conn_wrapper \<Rightarrow> 'c conn_wrapper) option" where
  "as_conn_ref E = (if connection_impl E then Some (\<lambda>this. this) else None)"

text \<open>Code that is given the inner connection, for reading or to change it.\<close>

definition conn_as_ref :: "'c conn_wrapper \<Rightarrow> 'c" where
  "conn_as_ref this = inner_conn this"

definition conn_as_mut :: "('c \<Rightarrow> 'a \<times> 'c) \<Rightarrow> 'c conn_wrapper \<Rightarrow> 'a \<times> 'c conn_wrapper" where
  "conn_as_mut f this = (case f (inner_conn this) of (a, c) \<Rightarrow> (a, this\<lparr>inner_conn := c\<rparr>))"

text \<open>\<open>Formatter::debug_tuple\<close> with one field; with \<open>{:#?}\<close> the field is on indented lines.\<close>

fun pad_lines :: "bool \<Rightarrow> string \<Rightarrow> string" where
  "pad_lines start [] = []"
| "pad_lines start (ch # s) = (if start then ''    '' else []) @ ch # pad_lines (ch = CHR 0x0A) s"

definition debug_tuple :: "bool \<Rightarrow> string \<Rightarrow> string \<Rightarrow> string" where
  "debug_tuple alternate name field =
     (if alternate then name @ ''('' @ CHR 0x0A # pad_lines True (field @ '','' @ [CHR 0x0A]) @ '')''
      else name @ ''('' @ field @ '')'')"

definition wrapper_fmt :: "string \<Rightarrow> (rust_ty \<Rightarrow> string) \<Rightarrow> bool \<Rightarrow> string \<Rightarrow> string" where
  "wrapper_fmt name type_name alternate field =
     name @ ''<_, '' @ type_name IdTy @ '', '' @ type_name HubTy @ '', '' @ type_name TopicTy @ '', '' @
     type_name SecretTy @ '', '' @ type_name ExpiresAtTy @ debug_tuple alternate ''>'' field"

definition conn_fmt :: "(rust_ty \<Rightarrow> string) \<Rightarrow> (bool \<Rightarrow> 'c \<Rightarrow> string) \<Rightarrow> bool \<Rightarrow> 'c conn_wrapper \<Rightarrow> string" where
  "conn_fmt type_name fmt alternate this =
     wrapper_fmt ''Connection'' type_name alternate (fmt alternate (inner_conn this))"

definition pool_fmt :: "(rust_ty \<Rightarrow> string) \<Rightarrow> (bool \<Rightarrow> 'p \<Rightarrow> string) \<Rightarrow> bool \<Rightarrow> 'p pool_wrapper \<Rightarrow> string" where
  "pool_fmt type_name fmt alternate this =
     wrapper_fmt ''Pool'' type_name alternate (fmt alternate (inner_pool this))"

definition pool_from :: "type_env \<Rightarrow> ('p \<Rightarrow> 'p pool_wrapper) option" where
  "pool_from E =
     (if meets E pool_where then Some (\<lambda>p. \<lparr>inner_pool = p, pool_marker = PhantomData\<rparr>) else None)"

definition pool_new ::
  "type_env \<Rightarrow> ('m, 'p, 'c, 's, 'pe) r2d2 \<Rightarrow> ('m \<Rightarrow> ('s, 'pe, 'p pool_wrapper) action) option" where
  "pool_new E R =
     (if meets E pool_where
      then (case pool_from E of None \<Rightarrow> None
            | Some from_pool \<Rightarrow> Some (\<lambda>manager. map_action from_pool (r2d2_new R manager)))
      else None)"

definition into_inner_pool :: "'p pool_wrapper \<Rightarrow> 'p" where
  "into_inner_pool this = inner_pool this"

definition pool_as_ref :: "'p pool_wrapper \<Rightarrow> 'p" where
  "pool_as_ref this = inner_pool this"

definition pool_clone :: "('m, 'p, 'c, 's, 'pe) r2d2 \<Rightarrow> 'p pool_wrapper \<Rightarrow> 'p pool_wrapper" where
  "pool_clone R this = \<lparr>inner_pool = r2d2_clone R (inner_pool this), pool_marker = PhantomData\<rparr>"

text \<open>
  What a \<open>Pool\<close> is by its impl of \<open>Clone\<close> and by its fields. The marker is of a function type, so
  it may be shared between threads whatever the columns are; it lives as long as they do.
\<close>

definition pool_is :: "type_env \<Rightarrow> bound \<Rightarrow> bool" where
  "pool_is E b = (case b of
     CloneImpl \<Rightarrow> E ManagerTy ManageConnection
   | Send \<Rightarrow> E R2d2PoolTy Send
   | Sync \<Rightarrow> E R2d2PoolTy Sync
   | Static \<Rightarrow> list_all (\<lambda>t. E t Static) [ManagerTy, IdTy, HubTy, TopicTy, SecretTy, ExpiresAtTy]
   | _ \<Rightarrow> False)"

text \<open>The impl of \<open>crate::db::Pool\<close>; its \<open>Connection\<close> must be a \<open>crate::db::Connection\<close>.\<close>

definition pool_get ::
  "type_env \<Rightarrow> ('m, 'p, 'c, 's, 'pe) r2d2 \<Rightarrow> ('p pool_wrapper \<Rightarrow> ('s, 'pe, 'c conn_wrapper) action) option" where
  "pool_get E R =
     (if meets E pool_where \<and> list_all (pool_is E) pool_supertraits \<and> connection_impl E
      then (case conn_new E of None \<Rightarrow> None
            | Some new \<Rightarrow> Some (\<lambda>this. map_action new (r2d2_get R (inner_pool this))))
      else None)"

section \<open>Diesel 1\<close>

text \<open>The structs of the expansion have no marker: the columns are written into the impls.\<close>

record 'c conn1_wrapper =
  inner_conn1 :: 'c

record 'p pool1_wrapper =
  inner_pool1 :: 'p

definition inserts :: "(rust_ty \<times> bound) list" where
  "inserts = map (\<lambda>t. (InsertTy t, InsertValues)) [IdTy, HubTy, TopicTy, SecretTy]"

definition connection1_where :: "(rust_ty \<times> bound) list" where
  "connection1_where = [(ConnTy, IsConnection), (BackendTy, HasSqlType Bool), (BackendTy, Static),
     (I64Ty, FromSql BigInt), (BoolTy, FromSql Bool), (StringTy, FromSql Text)] @ inserts"

definition pool1_where :: "(rust_ty \<times> bound) list" where
  "pool1_where = [(ManagerTy, ManageConnection), (ConnTy, IsConnection), (BackendTy, HasSqlType Bool),
     (BackendTy, Static), (BoolTy, FromSql Bool), (I64Ty, FromSql BigInt), (StringTy, FromSql Text)] @ inserts"

definition connection1_new :: "type_env \<Rightarrow> ('c \<Rightarrow> 'c conn1_wrapper) option" where
  "connection1_new E = (if meets E connection1_where then Some (\<lambda>connection. \<lparr>inner_conn1 = connection\<rparr>) else None)"

definition connection1_ref_impl :: "type_env \<Rightarrow> bool" where
  "connection1_ref_impl E \<longleftrightarrow> meets E connection1_where"

text \<open>Here \<open>Ref\<close> is \<open>&Self\<close>.\<close>

definition connection1_impl :: "type_env \<Rightarrow> bool" where
  "connection1_impl E \<longleftrightarrow> meets E connection1_where \<and> connection1_ref_impl E"

definition as_conn1_ref :: "type_env \<Rightarrow> ('c conn1_wrapper \<Rightarrow> 'c conn1_wrapper) option" where
  "as_conn1_ref E = (if connection1_impl E then Some (\<lambda>this. this) else None)"

definition into_inner_conn1 :: "'c conn1_wrapper \<Rightarrow> 'c" where
  "into_inner_conn1 this = inner_conn1 this"

definition conn1_as_ref :: "'c conn1_wrapper \<Rightarrow> 'c" where
  "conn1_as_ref this = inner_conn1 this"

definition conn1_as_mut :: "('c \<Rightarrow> 'a \<times> 'c) \<Rightarrow> 'c conn1_wrapper \<Rightarrow> 'a \<times> 'c conn1_wrapper" where
  "conn1_as_mut f this = (case f (inner_conn1 this) of (a, c) \<Rightarrow> (a, this\<lparr>inner_conn1 := c\<rparr>))"

definition pool1_from :: "type_env \<Rightarrow> ('p \<Rightarrow> 'p pool1_wrapper) option" where
  "pool1_from E = (if meets E pool1_where then Some (\<lambda>pool. \<lparr>inner_pool1 = pool\<rparr>) else None)"

definition pool1_new ::
  "type_env \<Rightarrow> ('m, 'p, 'c, 's, 'pe) r2d2 \<Rightarrow> ('m \<Rightarrow> ('s, 'pe, 'p pool1_wrapper) action) option" where
  "pool1_new E R =
     (if meets E pool1_where
      then (case pool1_from E of None \<Rightarrow> None
            | Some from_pool \<Rightarrow> Some (\<lambda>manager. map_action from_pool (r2d2_new R manager)))
      else None)"

definition into_inner_pool1 :: "'p pool1_wrapper \<Rightarrow> 'p" where
  "into_inner_pool1 this = inner_pool1 this"

definition pool1_as_ref :: "'p pool1_wrapper \<Rightarrow> 'p" where
  "pool1_as_ref this = inner_pool1 this"

definition pool1_clone :: "('m, 'p, 'c, 's, 'pe) r2d2 \<Rightarrow> 'p pool1_wrapper \<Rightarrow> 'p pool1_wrapper" where
  "pool1_clone R this = \<lparr>inner_pool1 = r2d2_clone R (inner_pool1 this)\<rparr>"

definition pool1_is :: "type_env \<Rightarrow> bound \<Rightarrow> bool" where
  "pool1_is E b = (case b of
     CloneImpl \<Rightarrow> E ManagerTy ManageConnection
   | Send \<Rightarrow> E R2d2PoolTy Send
   | Sync \<Rightarrow> E R2d2PoolTy Sync
   | Static \<Rightarrow> E ManagerTy Static
   | _ \<Rightarrow> False)"

text \<open>\<open>get\<close> makes the struct itself.\<close>

definition pool1_get ::
  "type_env \<Rightarrow> ('m, 'p, 'c, 's, 'pe) r2d2 \<Rightarrow> ('p pool1_wrapper \<Rightarrow> ('s, 'pe, 'c conn1_wrapper) action) option" where
  "pool1_get E R =
     (if meets E pool1_where \<and> list_all (pool1_is E) pool_supertraits \<and> connection1_impl E
      then Some (\<lambda>this. map_action (\<lambda>inner. \<lparr>inner_conn1 = inner\<rparr>) (r2d2_get R (inner_pool1 this)))
      else None)"

text \<open>The test \<open>it_compiles\<close> names the columns of \<open>schema.rs\<close>.\<close>

definition it_compiles ::
  "macro_error list \<times> (struct_item \<times> struct_item \<times> string slots) option" where
  "it_compiles = define_connection
     (map (\<lambda>n. (n, ''subscriptions::'' @ n)) [''id'', ''hub'', ''topic'', ''secret'', ''expires_at''])
     [ConnectionDecl \<lparr>item_attrs = [], item_vis = [], item_name = ''C''\<rparr>,
      PoolDecl \<lparr>item_attrs = [], item_vis = [], item_name = ''M''\<rparr>]"

section \<open>The clauses imply each other\<close>

lemma meets_append [simp]: "meets E (bs @ cs) \<longleftrightarrow> meets E bs \<and> meets E cs"
  by (simp add: meets_def)

lemma meets_Cons [simp]: "meets E (b # bs) \<longleftrightarrow> E (fst b) (snd b) \<and> meets E bs"
  by (simp add: meets_def split: prod.splits)

lemma meets_Nil [simp]: "meets E []"
  by (simp add: meets_def)

lemma column_bounds_meets:
  "meets E (column_bounds extra t s) \<longleftrightarrow> meets E (column_bounds (\<lambda>_. []) t s) \<and> meets E (extra t)"
  by (auto simp: column_bounds_def)

lemma where_clause_meets:
  "meets E (where_clause extra) \<longleftrightarrow> meets E connection_where \<and>
     (\<forall>t \<in> {IdTy, HubTy, TopicTy, SecretTy, ExpiresAtTy}. meets E (extra t))"
  by (auto simp: connection_where_def where_clause_def column_bounds_meets [of E extra])

lemma pool_where_meets:
  "meets E pool_where \<longleftrightarrow> E ManagerTy ManageConnection \<and> meets E connection_where \<and>
     (\<forall>t \<in> {IdTy, HubTy, TopicTy, SecretTy, ExpiresAtTy}. E t Static)"
  by (simp add: pool_where_def where_clause_meets)

lemma pool1_where_meets:
  "meets E pool1_where \<longleftrightarrow> E ManagerTy ManageConnection \<and> meets E connection1_where"
  by (auto simp: pool1_where_def connection1_where_def)

lemma pool_is_supertraits:
  assumes "r2d2_types E" "meets E pool_where"
  shows "list_all (pool_is E) pool_supertraits"
  using assms by (simp add: pool_where_meets r2d2_types_def pool_supertraits_def pool_is_def)

lemma pool1_is_supertraits:
  assumes "r2d2_types E" "meets E pool1_where"
  shows "list_all (pool1_is E) pool_supertraits"
  using assms by (simp add: pool1_where_meets r2d2_types_def pool_supertraits_def pool1_is_def)

lemma where_connection_bounds:
  "meets (types_of B T C X) connection_where \<Longrightarrow> connection_bounds B T C"
  by (simp add: connection_where_def where_clause_def column_bounds_def types_of_def connection_bounds_def)


text \<open>
  The \<open>transmute\<close> of \<open>transaction\<close> takes an inner connection for a wrapper: the wrapper holds
  nothing else.
\<close>

lemma wrapper_is_inner:
  assumes "conn_new E = Some new"
  shows "inner_conn (new c) = c" "new (inner_conn this) = this"
proof -
  have new: "new = (\<lambda>c. \<lparr>inner_conn = c, conn_marker = PhantomData\<rparr>)"
    using assms by (simp add: conn_new_def split: if_splits)
  show "inner_conn (new c) = c" unfolding new by simp
  obtain c m where k: "this = \<lparr>inner_conn = c, conn_marker = m\<rparr>" by (cases this) simp
  show "new (inner_conn this) = this" unfolding new k by (cases m) simp
qed

lemma map_action_apply:
  "map_action f m s = (case m s of (Inr a, s') \<Rightarrow> (Inr (f a), s') | (Inl e, s') \<Rightarrow> (Inl e, s'))"
  by (simp add: map_action_def and_then_def ret_def split: prod.splits sum.splits)

lemma diesel1_compiles:
  assumes "r2d2_types E" "meets E pool1_where"
  shows "connection1_impl E" "pool1_from E = Some (\<lambda>p. \<lparr>inner_pool1 = p\<rparr>)"
    "connection1_new E = Some (\<lambda>c. \<lparr>inner_conn1 = c\<rparr>)"
    "pool1_new E R = Some (\<lambda>m. map_action (\<lambda>p. \<lparr>inner_pool1 = p\<rparr>) (r2d2_new R m))"
    "pool1_get E R = Some (\<lambda>this. map_action (\<lambda>c. \<lparr>inner_conn1 = c\<rparr>) (r2d2_get R (inner_pool1 this)))"
  using assms pool1_is_supertraits [OF assms]
  by (simp_all add: pool1_where_meets connection1_impl_def connection1_ref_impl_def pool1_from_def
      connection1_new_def pool1_new_def pool1_get_def)

lemma diesel2_compiles:
  assumes "r2d2_types E" "meets E pool_where"
  shows "connection_impl E" "pool_from E = Some (\<lambda>p. \<lparr>inner_pool = p, pool_marker = PhantomData\<rparr>)"
    "conn_new E = Some (\<lambda>c. \<lparr>inner_conn = c, conn_marker = PhantomData\<rparr>)"
    "pool_new E R = Some (\<lambda>m. map_action (\<lambda>p. \<lparr>inner_pool = p, pool_marker = PhantomData\<rparr>) (r2d2_new R m))"
    "pool_get E R = Some (\<lambda>this.
       map_action (\<lambda>c. \<lparr>inner_conn = c, conn_marker = PhantomData\<rparr>) (r2d2_get R (inner_pool this)))"
  using assms pool_is_supertraits [OF assms]
  by (simp_all add: pool_where_meets connection_impl_def connection_ref_impl_def pool_from_def
      conn_new_def pool_new_def pool_get_def)

lemma it_compiles: "fst it_compiles = [] \<and> snd it_compiles \<noteq> None"
  by (simp add: it_compiles_def define_connection_def fill_column_def missing_column_def columns_def)

lemma wrapper_fmt_plain:
  "conn_fmt type_name fmt False this = ''Connection<_, '' @ type_name IdTy @ '', '' @ type_name HubTy @ '', '' @
     type_name TopicTy @ '', '' @ type_name SecretTy @ '', '' @ type_name ExpiresAtTy @ ''>('' @
     fmt False (inner_conn this) @ '')''"
  by (simp add: conn_fmt_def wrapper_fmt_def debug_tuple_def)

end
