(* ===== verification/Http.thy ===== *)
theory Http
  imports Crates
begin

text \<open>
  The HTTP side of the crates the code calls: \<open>http::Uri\<close> and its parts, the form encoding of
  \<open>serde_urlencoded\<close>, and the requests and responses the code builds and reads. As in
  \<open>Crates\<close> a crate is a record of functions, a locale of documented laws and a reference
  instance that shows them consistent.
\<close>

section \<open>URIs\<close>

text \<open>
  \<open>'a\<close> stands for the scheme and authority of a URI's \<open>Parts\<close>, which the code only carries
  around, \<open>'p\<close> for a \<open>PathAndQuery\<close>.
\<close>

record ('u, 'a, 'p) uri_crate =
  into_parts :: "'u \<Rightarrow> 'a \<times> 'p option"
  from_parts :: "'a \<times> 'p option \<Rightarrow> 'u option"
  path_and_query :: "'u \<Rightarrow> 'p option"
  pq_as_str :: "'p \<Rightarrow> string"
  pq_display :: "'p \<Rightarrow> string"
  pq_try_from :: "string \<Rightarrow> 'p option"
  uri_path :: "'u \<Rightarrow> string"
  uri_query :: "'u \<Rightarrow> string option"
  uri_display :: "'u \<Rightarrow> string"
  uri_parse :: "string \<Rightarrow> 'u option"

text \<open>The text of a path and query is cut at the first question mark.\<close>

definition path_of :: "string \<Rightarrow> string" where
  "path_of s = takeWhile (\<lambda>c. c \<noteq> CHR ''?'') s"

definition query_of :: "string \<Rightarrow> string option" where
  "query_of s = (case dropWhile (\<lambda>c. c \<noteq> CHR ''?'') s of [] \<Rightarrow> None | _ # q \<Rightarrow> Some q)"

text \<open>
  The laws are about origin-form texts, those that begin with a slash: the path and query of a
  URI may be replaced by any other, and a valid text stays valid when segment characters are
  appended to it.
\<close>

locale uri_spec =
  fixes U :: "('u, 'a, 'p) uri_crate"
  assumes path_and_query: "path_and_query U u = snd (into_parts U u)"
    and replace_path_and_query: "into_parts U u = (a, Some p) \<Longrightarrow>
      \<exists>u'. from_parts U (a, Some p') = Some u' \<and> into_parts U u' = (a, Some p')"
    and uri_reads: "path_and_query U u = Some p \<Longrightarrow> pq_as_str U p = CHR ''/'' # s \<Longrightarrow>
      uri_path U u = path_of (pq_as_str U p) \<and> uri_query U u = query_of (pq_as_str U p)"
    and pq_display: "pq_as_str U p = CHR ''/'' # s \<Longrightarrow> pq_display U p = pq_as_str U p"
    and pq_append: "pq_as_str U p = CHR ''/'' # s \<Longrightarrow> set t \<subseteq> insert CHR ''/'' (set url_safe_alphabet) \<Longrightarrow>
      \<exists>p'. pq_try_from U (pq_as_str U p @ t) = Some p' \<and> pq_as_str U p' = pq_as_str U p @ t"

text \<open>A URI as the text of its scheme and authority and of its path and query.\<close>

definition text_uri :: "(string \<times> string option, string, string) uri_crate" where
  "text_uri = \<lparr>
     into_parts = (\<lambda>u. u), from_parts = Some, path_and_query = snd,
     pq_as_str = (\<lambda>p. p), pq_display = (\<lambda>p. p), pq_try_from = Some,
     uri_path = (\<lambda>(_, p). case p of None \<Rightarrow> '''' | Some p \<Rightarrow> path_of p),
     uri_query = (\<lambda>(_, p). case p of None \<Rightarrow> None | Some p \<Rightarrow> query_of p),
     uri_display = (\<lambda>(a, p). a @ (case p of None \<Rightarrow> '''' | Some p \<Rightarrow> p)),
     uri_parse = (\<lambda>s. if s = '''' then None else Some (s, None))\<rparr>"

interpretation text_uri: uri_spec text_uri
  by unfold_locales (auto simp: text_uri_def)

section \<open>Form encoding\<close>

text \<open>\<open>serde_urlencoded\<close> on the fields of a struct; parsing accepts any text.\<close>

record form_crate =
  form_to_string :: "(string \<times> string) list \<Rightarrow> string option"
  form_parse :: "string \<Rightarrow> (string \<times> string) list"

locale form_spec =
  fixes E :: form_crate
  assumes form_roundtrip: "\<exists>s. form_to_string E fs = Some s \<and> form_parse E s = fs"

text \<open>A reference: every string is preceded by its length in unary.\<close>

definition framed :: "string \<Rightarrow> string" where
  "framed s = replicate (length s) CHR ''1'' @ CHR ''0'' # s"

definition unframe :: "string \<Rightarrow> string \<times> string" where
  "unframe s = (let n = length (takeWhile (\<lambda>c. c = CHR ''1'') s); r = drop (Suc n) s
     in (take n r, drop n r))"

fun unframe_fields :: "nat \<Rightarrow> string \<Rightarrow> (string \<times> string) list" where
  "unframe_fields 0 s = []"
| "unframe_fields (Suc n) s =
     (if s = [] then []
      else (case unframe s of (k, r) \<Rightarrow> (case unframe r of (v, r) \<Rightarrow> (k, v) # unframe_fields n r)))"

definition framed_form :: form_crate where
  "framed_form = \<lparr>
     form_to_string = (\<lambda>fs. Some (concat (map (\<lambda>(k, v). framed k @ framed v) fs))),
     form_parse = (\<lambda>s. unframe_fields (length s) s)\<rparr>"

lemma unframe_framed [simp]: "unframe (framed s @ r) = (s, r)"
proof -
  have "takeWhile (\<lambda>c. c = CHR ''1'') (framed s @ r) = replicate (length s) CHR ''1''"
    unfolding framed_def append_assoc by (subst takeWhile_append2) auto
  then show ?thesis by (simp add: unframe_def framed_def)
qed

lemma unframe_fields_framed:
  "length (concat (map (\<lambda>(k, v). framed k @ framed v) fs)) \<le> n \<Longrightarrow>
     unframe_fields n (concat (map (\<lambda>(k, v). framed k @ framed v) fs)) = fs"
proof (induction fs arbitrary: n)
  case Nil
  then show ?case by (cases n) auto
next
  case (Cons f fs)
  obtain k v where f: "f = (k, v)" by fastforce
  have ne: "framed k \<noteq> []" "length (framed k) = Suc (2 * length k)" for k by (simp_all add: framed_def)
  from Cons.prems f ne obtain m where m: "n = Suc m" by (cases n) auto
  have "length (concat (map (\<lambda>(k, v). framed k @ framed v) fs)) \<le> m"
    using Cons.prems f m ne(2) [of k] by simp
  with Cons.IH [of m] f m ne(1) [of k] show ?case by simp
qed

interpretation framed_form: form_spec framed_form
  by unfold_locales (simp add: framed_form_def unframe_fields_framed)

section \<open>Requests and responses\<close>

text \<open>\<open>util::consts\<close>.\<close>

definition APPLICATION_WWW_FORM_URLENCODED :: string where
  "APPLICATION_WWW_FORM_URLENCODED = ''application/x-www-form-urlencoded''"

definition HUB_SIGNATURE :: string where
  "HUB_SIGNATURE = ''x-hub-signature''"

text \<open>A header map as its fields in order; names are in lower case.\<close>

type_synonym headers = "(string \<times> u8 list) list"

definition get_all :: "headers \<Rightarrow> string \<Rightarrow> u8 list list" where
  "get_all hs name = map snd (filter (\<lambda>(n, _). n = name) hs)"

text \<open>A POST request to a hub, and a request to the callback server with its body \<open>'b\<close>.\<close>

record 'u hub_request =
  request_uri :: 'u
  request_content_type :: string
  request_body :: string

record ('u, 'b) server_request =
  req_uri :: 'u
  req_headers :: headers
  req_body :: 'b

type_synonym status = nat

definition OK :: status where "OK = 200"
definition NOT_FOUND :: status where "NOT_FOUND = 404"
definition GONE :: status where "GONE = 410"
definition INTERNAL_SERVER_ERROR :: status where "INTERNAL_SERVER_ERROR = 500"

lemma status_distinct [simp]:
  "OK \<noteq> NOT_FOUND" "OK \<noteq> GONE" "NOT_FOUND \<noteq> OK" "GONE \<noteq> OK" "NOT_FOUND \<noteq> GONE" "GONE \<noteq> NOT_FOUND"
  by (simp_all add: OK_def NOT_FOUND_def GONE_def)

record response =
  resp_status :: status
  resp_body :: string

definition response_new :: "string \<Rightarrow> response" where
  "response_new b = \<lparr>resp_status = OK, resp_body = b\<rparr>"

definition response_default :: response where
  "response_default = \<lparr>resp_status = OK, resp_body = ''''\<rparr>"

definition empty_response :: "status \<Rightarrow> response" where
  "empty_response s = response_default\<lparr>resp_status := s\<rparr>"

section \<open>The crates together\<close>

text \<open>The crates a subscriber is built over, and their laws.\<close>

record ('u, 'a, 'p, 'g) crates =
  memchr_of :: memchr_crate
  hex_of :: hex_crate
  base64_of :: base64_engine
  rand_of :: "'g rng_core"
  uri_of :: "('u, 'a, 'p) uri_crate"
  form_of :: form_crate

locale crates_spec =
  fixes L :: "('u, 'a, 'p, 'g) crates"
  assumes memchr_laws: "memchr_spec (memchr_of L)"
    and hex_laws: "hex_spec (hex_of L)"
    and base64_laws: "url_safe_no_pad (base64_of L)"
    and rand_laws: "rng_spec (rand_of L)"
    and uri_laws: "uri_spec (uri_of L)"
    and form_laws: "form_spec (form_of L)"

definition reference_crates :: "(string \<times> string option, string, string, u64) crates" where
  "reference_crates = \<lparr>memchr_of = list_memchr, hex_of = list_hex, base64_of = rfc4648_engine, rand_of = counter_rng,
     uri_of = text_uri, form_of = framed_form\<rparr>"

interpretation reference_crates: crates_spec reference_crates
  by (rule crates_spec.intro) (simp_all add: reference_crates_def list_memchr.memchr_spec_axioms
      list_hex.hex_spec_axioms
      rfc4648.url_safe_no_pad_axioms counter_rng.rng_spec_axioms text_uri.uri_spec_axioms
      framed_form.form_spec_axioms)

end
