(* ===== verification/CallbackId.thy ===== *)
theory CallbackId
  imports Crates
begin

text \<open>
  \<open>src/util/callback_id.rs\<close>: how a subscription id becomes the last segment of its callback
  URL and back, over the \<open>base64\<close> and \<open>memchr\<close> crates of \<open>Crates\<close>.
\<close>

section \<open>Encoding and decoding a callback id\<close>

definition encode :: "memchr_crate \<Rightarrow> base64_engine \<Rightarrow> u8 list \<Rightarrow> string" where
  "encode M B bytes =
     (let end = (case memrchr M 0 bytes of Some i \<Rightarrow> i | None \<Rightarrow> length bytes)
      in b64_display B (take end bytes))"

definition decode :: "base64_engine \<Rightarrow> string \<Rightarrow> u64 option" where
  "decode B s =
     (if length s > 11 then None
      else let buf = replicate 9 0
        in case decode_slice B s buf of
             None \<Rightarrow> None
           | Some (n, buf) \<Rightarrow>
               if n > 8 then None
               else Some (from_le_bytes (take 8 buf)))"

text \<open>Which bytes \<open>encode\<close> keeps: those before the last zero byte.\<close>

definition kept :: "u8 list \<Rightarrow> u8 list" where
  "kept bytes = (if 0 \<in> set bytes then rev (tl (dropWhile (\<lambda>b. b \<noteq> 0) (rev bytes))) else bytes)"

lemma kept_no_zero [simp]: "0 \<notin> set bytes \<Longrightarrow> kept bytes = bytes"
  by (simp add: kept_def)

lemma kept_split: "0 \<notin> set ys \<Longrightarrow> kept (xs @ 0 # ys) = xs"
proof -
  assume "0 \<notin> set ys"
  then have "dropWhile (\<lambda>b. b \<noteq> 0) (rev ys @ 0 # rev xs) = 0 # rev xs"
    by (subst dropWhile_append2) auto
  then show ?thesis by (simp add: kept_def)
qed

lemma last_zero_split:
  assumes "0 \<in> set (bytes :: u8 list)"
  obtains xs ys where "bytes = xs @ 0 # ys" "0 \<notin> set ys"
  using split_list_last [OF assms] by blast

lemma kept_take: "kept bytes = take (length (kept bytes)) bytes"
  by (cases "0 \<in> set bytes") (auto elim!: last_zero_split simp: kept_split)

lemma length_kept: "length (kept bytes) \<le> length bytes"
  using kept_take [of bytes] by (metis length_take min.cobounded1)

locale callback_codec = memchr_spec M + url_safe_no_pad B
  for M :: memchr_crate and B :: base64_engine
begin

lemma encode_kept: "encode M B bytes = b64_display B (kept bytes)"
proof (cases "0 \<in> set bytes")
  case True
  then show ?thesis by (elim last_zero_split) (simp add: encode_def kept_split memrchr_append)
next
  case False
  then have "memrchr M 0 bytes = None" by (simp add: memrchr_None)
  with False show ?thesis by (simp add: encode_def)
qed

lemma decode_display: "length bs \<le> 8 \<Longrightarrow> decode B (b64_display B bs) = Some (from_le_bytes bs)"
proof -
  assume bs: "length bs \<le> 8"
  define buf where "buf = replicate 9 (0 :: u8)"
  have len: "length (b64_display B bs) \<le> 11" using bs by (simp add: display_length)
  then have "(length (b64_display B bs) + 3) div 4 \<le> 3" by simp
  then have dec: "decode_slice B (b64_display B bs) buf = Some (length bs, bs @ drop (length bs) buf)"
    by (intro decode_slice_display) (simp add: buf_def)
  have "take 8 (bs @ drop (length bs) buf) = bs @ replicate (8 - length bs) 0"
    using bs by (simp add: buf_def min_def)
  then have "from_le_bytes (take 8 (bs @ drop (length bs) buf)) = from_le_bytes bs"
    by (simp add: from_le_bytes_value le_value_append)
  then show ?thesis using bs len dec by (simp add: decode_def buf_def)
qed

lemma decode_only:
  assumes "decode B s = Some i"
  shows "\<exists>bs. length bs \<le> 8 \<and> s = b64_display B bs \<and> i = from_le_bytes bs"
proof -
  obtain n buf where dec: "decode_slice B s (replicate 9 0) = Some (n, buf)" and n: "n \<le> 8"
    using assms by (auto simp: decode_def Let_def split: if_splits option.splits)
  obtain bs where bs: "s = b64_display B bs" "n = length bs"
    using decode_slice_only [OF dec] by blast
  with n decode_display [of bs] assms show ?thesis by auto
qed

lemma decode_encode: "length bytes \<le> 8 \<Longrightarrow> decode B (encode M B bytes) = Some (from_le_bytes (kept bytes))"
  using length_kept [of bytes] by (simp add: encode_kept decode_display)

end

text \<open>On the documented behaviour of the two crates the codec's facts hold; the reference
  functions provide one instance.\<close>

interpretation reference_codec: callback_codec list_memchr rfc4648_engine
  by unfold_locales

section \<open>Properties\<close>

lemma kept_full_iff:
  "from_le_bytes (kept (to_le_bytes w)) = w \<longleftrightarrow> unat w < 2 ^ 56 \<or> 0 \<notin> set (to_le_bytes w)"
proof (cases "0 \<in> set (to_le_bytes w)")
  case False
  then show ?thesis by simp
next
  case True
  then obtain xs ys where split: "to_le_bytes w = xs @ 0 # ys" and ys: "0 \<notin> set ys"
    by (rule last_zero_split)
  have len: "length xs + length ys = 7" using arg_cong [OF split, of length] by simp
  have whole: "unat w = le_value xs + 256 ^ Suc (length xs) * le_value ys"
    using le_value_to_le_bytes [of w] unfolding split by (simp add: le_value_append)
  have kept: "kept (to_le_bytes w) = xs" using split ys by (simp add: kept_split)
  have "le_value xs < 256 ^ length xs" by (rule le_value_less)
  also have "\<dots> \<le> 256 ^ 7" using len by (intro power_increasing) simp_all
  finally have small: "le_value xs < 2 ^ 56" by simp
  have "from_le_bytes xs = w \<longleftrightarrow> le_value xs = unat w"
    using small by (auto simp: from_le_bytes_value word_unat_eq_iff unat_of_nat)
  also have "\<dots> \<longleftrightarrow> unat w < 2 ^ 56"
  proof (cases ys rule: rev_cases)
    case Nil
    with whole small show ?thesis by simp
  next
    case (snoc zs z)
    have "unat z \<noteq> 0" using ys snoc by (metis UnI2 list.set_intros(1) set_append unat_eq_0)
    then have "256 ^ length zs \<le> 256 ^ length zs * unat z" by simp
    also have "\<dots> \<le> le_value ys" unfolding snoc by (simp add: le_value_append)
    finally have big: "256 ^ length zs \<le> le_value ys" .
    have "256 ^ 7 = 256 ^ Suc (length xs) * (256 ^ length zs :: nat)"
      using len snoc by (simp flip: power_add power_Suc)
    also have "\<dots> \<le> 256 ^ Suc (length xs) * le_value ys" using big by (intro mult_le_mono2)
    also have "\<dots> \<le> unat w" using whole by simp
    finally have "2 ^ 56 \<le> unat w" by simp
    with small show ?thesis by simp
  qed
  finally show ?thesis using True kept by simp
qed

lemma codec_of_specs: "memchr_spec M \<Longrightarrow> url_safe_no_pad B \<Longrightarrow> callback_codec M B"
  by (rule callback_codec.intro)

lemma decode_encode_iff:
  assumes "memchr_spec M" "url_safe_no_pad B"
  shows "decode B (encode M B (to_le_bytes w)) = Some w
    \<longleftrightarrow> unat w < 2 ^ 56 \<or> 0 \<notin> set (to_le_bytes w)"
  using callback_codec.decode_encode [OF codec_of_specs [OF assms], of "to_le_bytes w"]
    kept_full_iff [of w] by simp

text \<open>
  C28: a subscription id survives the trip through its callback URL exactly when its most
  significant byte is zero or none of its eight bytes is zero: \<open>encode\<close> cuts the
  little-endian bytes at the last zero byte wherever it stands, so an id with a zero byte
  below a non-zero top byte comes back as another id.
\<close>

theorem callback_id_roundtrip:
  assumes "memchr_spec M" "url_safe_no_pad B"
  shows "decode B (encode M B (to_le_bytes w)) = Some w
    \<longleftrightarrow> unat w < 2 ^ 56 \<or> 0 \<notin> set (to_le_bytes w)"
  using assms by (rule decode_encode_iff)

theorem callback_id_roundtrip_witness:
  "decode rfc4648_engine (encode list_memchr rfc4648_engine (to_le_bytes 0x1234)) = Some 0x1234
   \<and> decode rfc4648_engine (encode list_memchr rfc4648_engine (to_le_bytes 0x0100000000000005)) \<noteq>
       Some 0x0100000000000005"
  using callback_id_roundtrip [OF list_memchr.memchr_spec_axioms rfc4648.url_safe_no_pad_axioms,
      of "0x1234"]
    callback_id_roundtrip [OF list_memchr.memchr_spec_axioms rfc4648.url_safe_no_pad_axioms,
      of "0x0100000000000005"]
  by (simp add: to_le_bytes_def upt_rec)

lemma to_le_bytes_top:
  assumes "unat x < 2 ^ 48" "h < 256"
  shows "to_le_bytes (x + of_nat h * 2 ^ 56) = take 6 (to_le_bytes x) @ [0, of_nat h]"
proof (rule le_value_inj)
  have top: "unat (of_nat h * 2 ^ 56 :: u64) = h * 2 ^ 56"
    using assms(2) by (simp add: unat_word_ariths unat_of_nat)
  have "unat x + h * 2 ^ 56 < 2 ^ 64" using assms by simp
  then have "unat (x + of_nat h * 2 ^ 56) = unat x + h * 2 ^ 56"
    using unat_plus_no_wrap [of x "of_nat h * 2 ^ 56"] top by simp
  moreover have "le_value (take 6 (to_le_bytes x)) = unat x"
    using assms(1) by (simp add: le_value_take)
  moreover have "unat (of_nat h :: u8) = h" using assms(2) by (simp add: unat_of_nat)
  ultimately show "le_value (to_le_bytes (x + of_nat h * 2 ^ 56)) =
      le_value (take 6 (to_le_bytes x) @ [0, of_nat h])"
    by (simp add: le_value_append)
qed simp

text \<open>
  The callback URLs of distinct subscriptions can coincide. For any 48-bit \<open>x\<close> the 255
  ids that extend it with a zero byte and a non-zero top byte all encode to one segment,
  so the hub's requests for one of them reach none or another subscription.
\<close>

theorem callback_id_collision:
  assumes "memchr_spec M" "url_safe_no_pad B" "unat x < 2 ^ 48"
    and "0 < h" "h < 256" "0 < h'" "h' < 256"
  shows "encode M B (to_le_bytes (x + of_nat h * 2 ^ 56))
    = encode M B (to_le_bytes (x + of_nat h' * 2 ^ 56))"
proof -
  have kept: "kept (to_le_bytes (x + of_nat k * 2 ^ 56)) = take 6 (to_le_bytes x)"
    if "0 < k" "k < 256" for k
  proof -
    have "(of_nat k :: u8) \<noteq> 0" using that by (auto simp: word_unat_eq_iff unat_of_nat)
    then show ?thesis
      using to_le_bytes_top [OF assms(3) that(2)] kept_split [of "[of_nat k]" "take 6 (to_le_bytes x)"]
      by simp
  qed
  show ?thesis
    unfolding callback_codec.encode_kept [OF codec_of_specs [OF assms(1,2)]]
      kept [OF assms(4,5)] kept [OF assms(6,7)] by (rule refl)
qed

theorem callback_id_collision_witness:
  "encode list_memchr rfc4648_engine (to_le_bytes (5 + of_nat 1 * 2 ^ 56))
    = encode list_memchr rfc4648_engine (to_le_bytes (5 + of_nat 2 * 2 ^ 56))"
  by (rule callback_id_collision [OF list_memchr.memchr_spec_axioms
        rfc4648.url_safe_no_pad_axioms]) simp_all

text \<open>
  \<open>decode\<close> accepts exactly the encodings of at most eight bytes and reads them as a
  little-endian number; it rejects everything else and never faults.
\<close>

theorem callback_id_decode:
  assumes "url_safe_no_pad B"
  shows "decode B s = Some w
    \<longleftrightarrow> (\<exists>bs. length bs \<le> 8 \<and> s = b64_display B bs \<and> unat w = le_value bs)"
proof -
  have codec: "callback_codec list_memchr B"
    using list_memchr.memchr_spec_axioms assms by (rule codec_of_specs)
  have val: "from_le_bytes bs = w \<longleftrightarrow> unat w = le_value bs" if "length bs \<le> 8" for bs
  proof -
    have "le_value bs < 256 ^ length bs" by (rule le_value_less)
    also have "\<dots> \<le> 256 ^ 8" using that by (intro power_increasing) simp_all
    finally show ?thesis by (auto simp: from_le_bytes_value word_unat_eq_iff unat_of_nat)
  qed
  show ?thesis
    using callback_codec.decode_display [OF codec] callback_codec.decode_only [OF codec] val
    by (metis option.inject)
qed

theorem callback_id_decode_witness:
  "decode rfc4648_engine ''AQ'' = Some 1 \<and> decode rfc4648_engine ''/'' = None"
proof -
  have "b64_display rfc4648_engine [1] = ''AQ''"
    by (simp add: rfc4648_engine_def) code_simp
  then have "decode rfc4648_engine ''AQ'' = Some 1"
    using callback_id_decode [OF rfc4648.url_safe_no_pad_axioms, of "''AQ''" 1]
    by (metis One_nat_def Suc_leI le_value.simps length_Cons list.size(3) mult_0_right
        nat_add_left_cancel_le add.right_neutral one_le_numeral unsigned_1)
  moreover have "decode rfc4648_engine ''/'' \<noteq> Some w" for w
    using callback_id_decode [OF rfc4648.url_safe_no_pad_axioms, of "''/''" w]
      rfc4648.display_no_slash by (metis list.set_intros(1))
  ultimately show ?thesis by (cases "decode rfc4648_engine ''/''") auto
qed

end
