(* ===== verification/Hub.thy ===== *)
theory Hub
  imports Http CallbackId Diesel2
begin

text \<open>
  \<open>src/hub.rs\<close>: the forms a subscriber exchanges with a hub, subscription and unsubscription
  requests, the callback URL of a subscription and its secret. The serializers that
  \<open>serde\<close> derives are the tables of fields below. A \<open>ResponseFuture\<close> is the request it
  will send when it is polled. The argument \<open>debug\<close> says whether debug assertions and
  overflow checks are compiled in.
\<close>

section \<open>Forms\<close>

datatype 'u form =
    SubscribeForm (form_callback: 'u) (form_topic: string) (form_secret: string)
  | UnsubscribeForm (form_callback: 'u) (form_topic: string)

datatype verify =
    VerifySubscribe (verify_topic: string) (verify_challenge: string) (verify_lease_seconds: u64)
  | VerifyUnsubscribe (verify_topic: string) (verify_challenge: string)

fun form_fields :: "('u, 'a, 'p) uri_crate \<Rightarrow> 'u form \<Rightarrow> (string \<times> string) list" where
  "form_fields U (SubscribeForm cb topic secret) =
     [(''hub.mode'', ''subscribe''), (''hub.callback'', uri_display U cb),
      (''hub.topic'', topic), (''hub.secret'', secret)]"
| "form_fields U (UnsubscribeForm cb topic) =
     [(''hub.mode'', ''unsubscribe''), (''hub.callback'', uri_display U cb), (''hub.topic'', topic)]"

fun verify_fields :: "verify \<Rightarrow> (string \<times> string) list" where
  "verify_fields (VerifySubscribe topic challenge lease) =
     [(''hub.mode'', ''subscribe''), (''hub.topic'', topic), (''hub.challenge'', challenge),
      (''hub.lease_seconds'', show_nat (unat lease))]"
| "verify_fields (VerifyUnsubscribe topic challenge) =
     [(''hub.mode'', ''unsubscribe''), (''hub.topic'', topic), (''hub.challenge'', challenge)]"

text \<open>A field must be given exactly once: a missing or a duplicate field is an error.\<close>

definition field :: "string \<Rightarrow> (string \<times> string) list \<Rightarrow> string option" where
  "field k fs = (case filter (\<lambda>(k', _). k' = k) fs of [(_, v)] \<Rightarrow> Some v | _ \<Rightarrow> None)"

text \<open>
  Deserializing a \<open>Verify\<close>: \<open>hub.mode\<close> selects the variant, the variant's fields are read,
  all others ignored; the lease goes through \<open>util::deserialize_from_str\<close>.
\<close>

definition deserialize_from_str :: "string \<Rightarrow> u64 option" where
  "deserialize_from_str v = u64_from_str v"

definition verify_of_fields :: "(string \<times> string) list \<Rightarrow> verify option" where
  "verify_of_fields fs =
     (case field ''hub.mode'' fs of
        None \<Rightarrow> None
      | Some mode \<Rightarrow>
          (if mode = ''subscribe'' then
             (case (field ''hub.topic'' fs, field ''hub.challenge'' fs, field ''hub.lease_seconds'' fs) of
                (Some topic, Some challenge, Some lease) \<Rightarrow>
                  map_option (VerifySubscribe topic challenge) (deserialize_from_str lease)
              | _ \<Rightarrow> None)
           else if mode = ''unsubscribe'' then
             (case (field ''hub.topic'' fs, field ''hub.challenge'' fs) of
                (Some topic, Some challenge) \<Rightarrow> Some (VerifyUnsubscribe topic challenge)
              | _ \<Rightarrow> None)
           else None))"

section \<open>Secrets\<close>

definition SECRET_LEN :: nat where
  "SECRET_LEN = 32"

definition gen_secret ::
  "('u, 'a, 'p, 'g) crates \<Rightarrow> bool \<Rightarrow> 'g \<Rightarrow> ('e, string) result \<times> 'g" where
  "gen_secret L debug g =
     (case fill_bytes (rand_of L) (SECRET_LEN * 6 div 8) g of
        (rand, g) \<Rightarrow>
          let result = encode_slice (base64_of L) rand (replicate SECRET_LEN 0);
              ret = (case result of Some (_, buf) \<Rightarrow> buf | None \<Rightarrow> replicate SECRET_LEN 0);
              fits = (case result of Some (len, _) \<Rightarrow> len = length ret | None \<Rightarrow> False)
          in (if debug \<and> \<not> fits then Inl Panic else unwrap (from_utf8 ret), g))"

definition hub_create_subscription ::
  "('c, 'e, ('g, 'z) thread_scheme) connection \<Rightarrow> ('u, 'a, 'p, 'g) crates \<Rightarrow> bool \<Rightarrow>
    string \<Rightarrow> string \<Rightarrow> ('c \<times> ('g, 'z) thread_scheme, 'e, u64 \<times> string) action" where
  "hub_create_subscription D L debug hub topic = (\<lambda>(c, w).
     case gen_secret L debug (thread_rng w) of
       (Inl f, g) \<Rightarrow> (Inl f, (c, w\<lparr>thread_rng := g\<rparr>))
     | (Inr secret, g) \<Rightarrow>
         and_then (conn_create_subscription D hub topic secret) (\<lambda>i. ret (i, secret))
           (c, w\<lparr>thread_rng := g\<rparr>))"

section \<open>Callbacks and requests\<close>

definition make_callback :: "('u, 'a, 'p, 'g) crates \<Rightarrow> 'u \<Rightarrow> u64 \<Rightarrow> ('e, 'u) result" where
  "make_callback L prefix i =
     (let segment = encode (memchr_of L) (base64_of L) (to_le_bytes i)
      in case into_parts (uri_of L) prefix of
           (a, pq) \<Rightarrow>
             bind_result (unwrap pq) (\<lambda>p.
             bind_result (unwrap (pq_try_from (uri_of L) (pq_display (uri_of L) p @ segment))) (\<lambda>p.
             unwrap (from_parts (uri_of L) (a, Some p)))))"

record 'u response_future =
  future_hub :: string
  future_topic :: string
  future_request :: "'u hub_request"

definition send_request ::
  "('u, 'a, 'p, 'g) crates \<Rightarrow> string \<Rightarrow> string \<Rightarrow> string \<Rightarrow> ('e, 'u response_future) result" where
  "send_request L hub topic body =
     bind_result (unwrap (uri_parse (uri_of L) hub)) (\<lambda>u.
       Inr \<lparr>future_hub = hub, future_topic = topic,
            future_request = \<lparr>request_uri = u,
              request_content_type = APPLICATION_WWW_FORM_URLENCODED, request_body = body\<rparr>\<rparr>)"

text \<open>What the future does with the answer: a status and the \<open>Location\<close>, or the client's error.\<close>

datatype warning = RedirectsTo string string string | ReturnedStatus string string status

definition response_warnings :: "'u response_future \<Rightarrow> status \<Rightarrow> string option \<Rightarrow> warning list" where
  "response_warnings fut st location =
     (if 200 \<le> st \<and> st < 300 then []
      else (if 300 \<le> st \<and> st < 400
            then (case location of
                    Some to \<Rightarrow> [RedirectsTo (future_topic fut) (future_hub fut) to]
                  | None \<Rightarrow> [])
            else []) @ [ReturnedStatus (future_topic fut) (future_hub fut) st])"

definition hub_subscribe ::
  "('c, 'e, ('g, 'z) thread_scheme) connection \<Rightarrow> ('u, 'a, 'p, 'g) crates \<Rightarrow> bool \<Rightarrow>
    'u \<Rightarrow> string \<Rightarrow> string \<Rightarrow> ('c \<times> ('g, 'z) thread_scheme, 'e, 'u response_future) action" where
  "hub_subscribe D L debug callback hub topic =
     and_then (hub_create_subscription D L debug hub topic) (\<lambda>(i, secret).
       lift (bind_result (make_callback L callback i) (\<lambda>cb.
             bind_result (unwrap (form_to_string (form_of L)
               (form_fields (uri_of L) (SubscribeForm cb topic secret)))) (\<lambda>body.
             send_request L hub topic body))))"

definition hub_unsubscribe ::
  "('c, 'e, 'w) connection \<Rightarrow> ('u, 'a, 'p, 'g) crates \<Rightarrow>
    'u \<Rightarrow> u64 \<Rightarrow> string \<Rightarrow> string \<Rightarrow> ('c, 'e, 'u response_future) action" where
  "hub_unsubscribe D L callback i hub topic =
     and_then (conn_delete_subscriptions D i) (\<lambda>_.
       lift (bind_result (make_callback L callback i) (\<lambda>cb.
             bind_result (unwrap (form_to_string (form_of L)
               (form_fields (uri_of L) (UnsubscribeForm cb topic)))) (\<lambda>body.
             send_request L hub topic body))))"

section \<open>The reader's side of the forms\<close>

lemma verify_roundtrip: "verify_of_fields (verify_fields v) = Some v"
  by (cases v) (simp_all add: verify_of_fields_def field_def deserialize_from_str_def)

section \<open>Callbacks of a prepared prefix\<close>

text \<open>
  A callback prefix as \<open>prepare_callback_prefix\<close> makes it from a URI without a query: its
  path begins and ends with a slash.
\<close>

definition prepared :: "('u, 'a, 'p) uri_crate \<Rightarrow> 'u \<Rightarrow> bool" where
  "prepared U u \<longleftrightarrow> (\<exists>p s. path_and_query U u = Some p \<and> pq_as_str U p = CHR ''/'' # s \<and>
     last (pq_as_str U p) = CHR ''/'' \<and> CHR ''?'' \<notin> set (pq_as_str U p))"

lemma path_of_no_query: "CHR ''?'' \<notin> set s \<Longrightarrow> path_of s = s \<and> query_of s = None"
proof -
  assume "CHR ''?'' \<notin> set s"
  then have "takeWhile (\<lambda>c. c \<noteq> CHR ''?'') s = s" "dropWhile (\<lambda>c. c \<noteq> CHR ''?'') s = []"
    by (auto simp: takeWhile_eq_all_conv dropWhile_eq_Nil_conv)
  then show ?thesis by (simp only: path_of_def query_of_def list.case)
qed

context crates_spec
begin

lemma gen_secret_ok:
  "gen_secret L debug g = (Inr (b64_display (base64_of L) (fst (fill_bytes (rand_of L) 24 g))),
     snd (fill_bytes (rand_of L) 24 g))"
proof -
  obtain rand h where fill: "fill_bytes (rand_of L) 24 g = (rand, h)" by fastforce
  have len: "length (b64_display (base64_of L) rand) = 32"
    using rng_spec.length_fill [OF rand_laws, of 24 g] fill
    by (simp add: url_safe_no_pad.display_length [OF base64_laws])
  have "encode_slice (base64_of L) rand (replicate 32 0) =
      Some (32, as_bytes (b64_display (base64_of L) rand))"
    using url_safe_no_pad.encode_slice_fits [OF base64_laws, of rand "replicate 32 0"] len by simp
  moreover have "from_utf8 (as_bytes (b64_display (base64_of L) rand)) =
      Some (b64_display (base64_of L) rand)"
  proof (rule from_utf8_ascii)
    fix c assume "c \<in> set (b64_display (base64_of L) rand)"
    then have "c \<in> set url_safe_alphabet"
      using url_safe_no_pad.display_alphabet [OF base64_laws] by blast
    then show "(of_char c :: nat) < 128" by (auto simp: url_safe_alphabet_def)
  qed
  ultimately show ?thesis
    by (simp add: gen_secret_def SECRET_LEN_def fill len)
qed

text \<open>The callback of an origin-form prefix: the segment of the id is appended to its text.\<close>

lemma make_callback_text:
  assumes "path_and_query (uri_of L) prefix = Some p" "pq_as_str (uri_of L) p = CHR ''/'' # s"
  obtains cb where "(make_callback L prefix i :: ('e, 'u) result) = Inr cb"
    "uri_path (uri_of L) cb = path_of (pq_as_str (uri_of L) p @ encode (memchr_of L) (base64_of L) (to_le_bytes i))"
    "uri_query (uri_of L) cb = query_of (pq_as_str (uri_of L) p @ encode (memchr_of L) (base64_of L) (to_le_bytes i))"
proof -
  let ?U = "uri_of L" and ?seg = "encode (memchr_of L) (base64_of L) (to_le_bytes i)"
  obtain a where parts: "into_parts ?U prefix = (a, Some p)"
    using uri_spec.path_and_query [OF uri_laws, of prefix] assms(1) by (metis prod.collapse)
  have "set ?seg \<subseteq> insert CHR ''/'' (set url_safe_alphabet)"
    using url_safe_no_pad.display_alphabet [OF base64_laws] by (auto simp: encode_def Let_def)
  from uri_spec.pq_append [OF uri_laws assms(2) this] obtain p' where
    p': "pq_try_from ?U (pq_as_str ?U p @ ?seg) = Some p'" "pq_as_str ?U p' = pq_as_str ?U p @ ?seg"
    by blast
  from uri_spec.replace_path_and_query [OF uri_laws parts, of p'] obtain cb where
    cb: "from_parts ?U (a, Some p') = Some cb" "into_parts ?U cb = (a, Some p')" by blast
  have pq: "path_and_query ?U cb = Some p'"
    using uri_spec.path_and_query [OF uri_laws, of cb] cb(2) by simp
  have "uri_path ?U cb = path_of (pq_as_str ?U p') \<and> uri_query ?U cb = query_of (pq_as_str ?U p')"
    by (rule uri_spec.uri_reads [OF uri_laws pq, of "s @ ?seg"]) (simp add: p' assms)
  moreover have "(make_callback L prefix i :: ('e, 'u) result) = Inr cb"
    using parts p' cb(1) uri_spec.pq_display [OF uri_laws assms(2)] by (simp add: make_callback_def)
  ultimately show thesis using that p'(2) by simp
qed

lemma make_callback_prepared:
  assumes "prepared (uri_of L) prefix"
  obtains cb where "(make_callback L prefix i :: ('e, 'u) result) = Inr cb"
    "uri_path (uri_of L) cb = uri_path (uri_of L) prefix @
       encode (memchr_of L) (base64_of L) (to_le_bytes i)"
    "uri_query (uri_of L) cb = None"
proof -
  let ?U = "uri_of L" and ?seg = "encode (memchr_of L) (base64_of L) (to_le_bytes i)"
  obtain p s where p: "path_and_query ?U prefix = Some p" "pq_as_str ?U p = CHR ''/'' # s"
    "CHR ''?'' \<notin> set (pq_as_str ?U p)"
    using assms by (auto simp: prepared_def)
  obtain cb where cb: "(make_callback L prefix i :: ('e, 'u) result) = Inr cb"
    "uri_path ?U cb = path_of (pq_as_str ?U p @ ?seg)" "uri_query ?U cb = query_of (pq_as_str ?U p @ ?seg)"
    by (rule make_callback_text [OF p(1,2)])
  have "CHR ''?'' \<notin> set ?seg"
    using url_safe_no_pad.display_alphabet [OF base64_laws]
    by (fastforce simp: encode_def Let_def url_safe_alphabet_def)
  with p(3) have no_query: "CHR ''?'' \<notin> set (pq_as_str ?U p @ ?seg)" by simp
  have "uri_path ?U prefix = path_of (pq_as_str ?U p)"
    using uri_spec.uri_reads [OF uri_laws p(1,2)] by simp
  with that cb show thesis
    using path_of_no_query [OF no_query] path_of_no_query [OF p(3)] by simp
qed

end

section \<open>Requests to a hub\<close>

text \<open>A future that will ask a hub to subscribe or unsubscribe the callback of an id.\<close>

definition posts_form ::
  "('u, 'a, 'p, 'g) crates \<Rightarrow> 'u \<Rightarrow> u64 \<Rightarrow> ('u \<Rightarrow> 'u form) \<Rightarrow> string \<Rightarrow> string \<Rightarrow> 'u response_future \<Rightarrow> bool" where
  "posts_form L prefix i form hub topic fut \<longleftrightarrow>
     future_hub fut = hub \<and> future_topic fut = topic \<and>
     uri_parse (uri_of L) hub = Some (request_uri (future_request fut)) \<and>
     request_content_type (future_request fut) = APPLICATION_WWW_FORM_URLENCODED \<and>
     (\<exists>cb. (make_callback L prefix i :: (unit, 'u) result) = Inr cb \<and>
        form_parse (form_of L) (request_body (future_request fut)) = form_fields (uri_of L) (form cb))"

locale hub_client = crates_spec L + connection_ref D "rand_of L" subs up
  for L :: "('u, 'a, 'p, 'g) crates" and D :: "('c, 'e, ('g, 'z) thread_scheme) connection"
    and subs :: "'c \<Rightarrow> table" and up :: "'c \<Rightarrow> bool"
begin

lemma request_result:
  assumes "prepared (uri_of L) prefix"
  shows "(\<exists>fut. bind_result (make_callback L prefix i) (\<lambda>cb.
             bind_result (unwrap (form_to_string (form_of L) (form_fields (uri_of L) (form cb)))) (\<lambda>body.
             send_request L hub topic body)) = (Inr fut :: ('e, _) result) \<and>
           posts_form L prefix i form hub topic fut) \<or>
         (uri_parse (uri_of L) hub = None \<and>
           bind_result (make_callback L prefix i) (\<lambda>cb.
             bind_result (unwrap (form_to_string (form_of L) (form_fields (uri_of L) (form cb)))) (\<lambda>body.
             send_request L hub topic body)) = (Inl Panic :: ('e, _) result))"
proof -
  obtain cb where cb: "(make_callback L prefix i :: (unit, 'u) result) = Inr cb"
    using make_callback_prepared [OF assms] by metis
  then have cb': "(make_callback L prefix i :: ('e, 'u) result) = Inr cb"
    by (auto simp: make_callback_def unwrap_def Let_def split: prod.splits option.splits)
  obtain body where body: "form_to_string (form_of L) (form_fields (uri_of L) (form cb)) = Some body"
    "form_parse (form_of L) body = form_fields (uri_of L) (form cb)"
    using form_spec.form_roundtrip [OF form_laws] by blast
  show ?thesis
    using cb cb' body by (cases "uri_parse (uri_of L) hub") (auto simp: send_request_def posts_form_def)
qed

lemma hub_subscribe_result:
  assumes "prepared (uri_of L) prefix"
    and run: "hub_subscribe D L debug prefix hub topic (c, w) = (r, (c', w'))"
  shows "(\<exists>g. w' = w\<lparr>thread_rng := g\<rparr>) \<and>
    (case r of
       Inr fut \<Rightarrow> \<exists>i secret. i \<notin> dom (subs c) \<and> subs c' = created i hub topic secret (subs c) \<and>
         posts_form L prefix i (\<lambda>cb. SubscribeForm cb topic secret) hub topic fut
     | Inl (Err e) \<Rightarrow> subs c' = subs c
     | Inl Panic \<Rightarrow> uri_parse (uri_of L) hub = None \<and>
         (\<exists>i secret. i \<notin> dom (subs c) \<and> subs c' = created i hub topic secret (subs c))
     | Inl Diverge \<Rightarrow> True) \<and>
    (up c \<longrightarrow> (\<forall>e. r \<noteq> Inl (Err e)) \<and> (r \<noteq> Inl Diverge \<longrightarrow> up c')) \<and>
    (up c \<longrightarrow> dom (subs c) \<noteq> UNIV \<longrightarrow> r \<noteq> Inl Diverge)"
proof -
  obtain secret h where secret: "\<And>debug. gen_secret L debug (thread_rng w) = (Inr secret :: ('e, _) result, h)"
    using gen_secret_ok by blast
  obtain r1 c1 w1 where create:
    "conn_create_subscription D hub topic secret (c, w\<lparr>thread_rng := h\<rparr>) = (r1, (c1, w1))"
    by (metis prod_cases3)
  note created = create_subscription [OF create]
  have total: "up c \<Longrightarrow> dom (subs c) \<noteq> UNIV \<Longrightarrow> \<exists>i. r1 = Inr i"
    using create_total [OF rand_laws, of c hub topic secret "w\<lparr>thread_rng := h\<rparr>"] create by (metis Pair_inject)
  have rng: "\<exists>g. w1 = w\<lparr>thread_rng := g\<rparr>" using created by (auto simp: creates_def)
  show ?thesis
  proof (cases r1)
    case (Inl f)
    with run secret create have "r = Inl f" "c' = c1" "w' = w1"
      by (auto simp: hub_subscribe_def hub_create_subscription_def and_then_def)
    with Inl created rng create_subscription_up [OF create] total show ?thesis
      by (cases f) (auto simp: creates_def)
  next
    case (Inr i)
    let ?chain = "bind_result (make_callback L prefix i) (\<lambda>cb.
             bind_result (unwrap (form_to_string (form_of L)
               (form_fields (uri_of L) (SubscribeForm cb topic secret)))) (\<lambda>body.
             send_request L hub topic body)) :: ('e, 'u response_future) result"
    from run secret create Inr have r: "r = ?chain" "c' = c1" "w' = w1"
      by (auto simp: hub_subscribe_def hub_create_subscription_def and_then_def)
    have "(\<exists>fut. r = Inr fut \<and> posts_form L prefix i (\<lambda>cb. SubscribeForm cb topic secret) hub topic fut) \<or>
        (uri_parse (uri_of L) hub = None \<and> r = Inl Panic)"
      unfolding r(1) by (rule request_result [OF assms(1)])
    then consider fut where "r = Inr fut"
        "posts_form L prefix i (\<lambda>cb. SubscribeForm cb topic secret) hub topic fut"
      | "uri_parse (uri_of L) hub = None" "r = Inl Panic"
      by auto
    then show ?thesis
      using created rng r(2,3) Inr create_subscription_up [OF create]
      by cases (auto simp: creates_def)
  qed
qed

lemma hub_subscribe_total:
  assumes "prepared (uri_of L) prefix" "up c" "dom (subs c) \<noteq> UNIV" "uri_parse (uri_of L) hub = Some u"
  shows "\<exists>fut c' g i secret.
    hub_subscribe D L debug prefix hub topic (c, w) = (Inr fut, (c', w\<lparr>thread_rng := g\<rparr>)) \<and>
    i \<notin> dom (subs c) \<and> subs c' = created i hub topic secret (subs c) \<and> up c' \<and>
    posts_form L prefix i (\<lambda>cb. SubscribeForm cb topic secret) hub topic fut"
proof -
  obtain r c' w' where run: "hub_subscribe D L debug prefix hub topic (c, w) = (r, (c', w'))"
    by (metis prod_cases3)
  from hub_subscribe_result [OF assms(1) run] assms(2-4) run show ?thesis
    by (cases r rule: sum.exhaust; cases "projl r") (auto split: fault.splits)
qed

lemma hub_unsubscribe_result:
  assumes "prepared (uri_of L) prefix"
    and run: "hub_unsubscribe D L prefix i hub topic c = (r, c')"
  shows "(case r of
       Inr fut \<Rightarrow> subs c' = (subs c)(i := None) \<and>
         posts_form L prefix i (\<lambda>cb. UnsubscribeForm cb topic) hub topic fut
     | Inl (Err e) \<Rightarrow> subs c' = subs c
     | Inl Panic \<Rightarrow> uri_parse (uri_of L) hub = None
     | Inl Diverge \<Rightarrow> False) \<and>
    (up c \<longrightarrow> (\<forall>e. r \<noteq> Inl (Err e)) \<and> up c')"
proof -
  obtain r1 c1 where delete: "conn_delete_subscriptions D i c = (r1, c1)" by fastforce
  show ?thesis
    using delete_subscriptions delete
  proof (cases rule: statementE)
    case (err e)
    with run delete show ?thesis by (auto simp: hub_unsubscribe_def and_then_def)
  next
    case (ok b)
    let ?chain = "bind_result (make_callback L prefix i) (\<lambda>cb.
             bind_result (unwrap (form_to_string (form_of L)
               (form_fields (uri_of L) (UnsubscribeForm cb topic)))) (\<lambda>body.
             send_request L hub topic body)) :: ('e, 'u response_future) result"
    from run delete ok have r: "r = ?chain" "c' = c1"
      by (auto simp: hub_unsubscribe_def and_then_def)
    have "(\<exists>fut. r = Inr fut \<and> posts_form L prefix i (\<lambda>cb. UnsubscribeForm cb topic) hub topic fut) \<or>
        (uri_parse (uri_of L) hub = None \<and> r = Inl Panic)"
      unfolding r(1) by (rule request_result [OF assms(1)])
    then consider fut where "r = Inr fut" "posts_form L prefix i (\<lambda>cb. UnsubscribeForm cb topic) hub topic fut"
      | "uri_parse (uri_of L) hub = None" "r = Inl Panic"
      by auto
    then show ?thesis using ok r(2) by cases auto
  qed
qed

end

lemma mem_connection:
  "connection_ref (diesel2_connection mem_diesel counter_rng) (rand_of reference_crates) mem_table mem_up"
proof -
  have "rand_of reference_crates = counter_rng" by (simp add: reference_crates_def)
  then show ?thesis using mem2.connection by simp
qed

interpretation mem_hub: hub_client reference_crates "diesel2_connection mem_diesel counter_rng"
  mem_table mem_up
  by (rule hub_client.intro [OF reference_crates.crates_spec_axioms mem_connection])

section \<open>Properties\<close>

lemma hub_clientI:
  "crates_spec L \<Longrightarrow> connection_ref D (rand_of L) subs up \<Longrightarrow> hub_client L D subs up"
  by (rule hub_client.intro)

text \<open>
  C30: subscribing to a topic at a valid hub, on a database that answers, stores one inactive
  subscription under a fresh id and yields the request that asks the hub for it: its form
  names the callback of that id, the topic and the secret that was stored.
\<close>

theorem subscribe_creates_and_asks:
  assumes "crates_spec L" "connection_ref D (rand_of L) subs up"
    and "prepared (uri_of L) prefix" "up c" "dom (subs c) \<noteq> UNIV"
    and "uri_parse (uri_of L) hub = Some u"
  shows "\<exists>fut c' g i secret.
    hub_subscribe D L debug prefix hub topic (c, w) = (Inr fut, (c', w\<lparr>thread_rng := g\<rparr>)) \<and>
    i \<notin> dom (subs c) \<and> subs c' = created i hub topic secret (subs c) \<and> up c' \<and>
    posts_form L prefix i (\<lambda>cb. SubscribeForm cb topic secret) hub topic fut"
  by (rule hub_client.hub_subscribe_total [OF hub_clientI [OF assms(1,2)] assms(3-6)])

theorem subscribe_creates_and_asks_witness:
  "\<exists>fut c' g. hub_subscribe (diesel2_connection mem_diesel counter_rng) reference_crates True
      (''http://sub'', Some ''/'') ''http://hub'' ''topic''
      (\<lparr>mem_rows = [], mem_faults = []\<rparr>, \<lparr>thread_rng = 7\<rparr>) = (Inr fut, (c', \<lparr>thread_rng = g\<rparr>)) \<and>
    future_hub fut = ''http://hub''"
proof -
  let ?c = "\<lparr>mem_rows = [], mem_faults = []\<rparr>"
  have "mem_up ?c" "dom (mem_table ?c) \<noteq> UNIV" by (simp_all add: mem_up_def mem_table_def)
  moreover have "prepared (uri_of reference_crates) (''http://sub'', Some ''/'')"
    "uri_parse (uri_of reference_crates) ''http://hub'' = Some (''http://hub'', None)"
    by (simp_all add: prepared_def reference_crates_def text_uri_def)
  ultimately show ?thesis
    using subscribe_creates_and_asks [OF reference_crates.crates_spec_axioms mem_connection,
        of "(''http://sub'', Some ''/'')" ?c "''http://hub''" "(''http://hub'', None)" True
        "''topic''" "\<lparr>thread_rng = 7\<rparr>"]
    by (fastforce simp: posts_form_def)
qed

text \<open>
  A hub whose name is no URI is not an error: the subscription is stored first, then
  building the request panics, so the row stays behind without a request.
\<close>

theorem subscribe_bad_hub_panics:
  assumes "crates_spec L" "connection_ref D (rand_of L) subs up"
    and "prepared (uri_of L) prefix" "up c" "dom (subs c) \<noteq> UNIV"
    and "uri_parse (uri_of L) hub = None"
  shows "\<exists>c' g i secret.
    hub_subscribe D L debug prefix hub topic (c, w) = (Inl Panic, (c', w\<lparr>thread_rng := g\<rparr>)) \<and>
    i \<notin> dom (subs c) \<and> subs c' = created i hub topic secret (subs c)"
proof -
  have hc: "hub_client L D subs up" using assms(1,2) by (rule hub_clientI)
  obtain r c' w' where run: "hub_subscribe D L debug prefix hub topic (c, w) = (r, (c', w'))"
    by (metis prod_cases3)
  from hub_client.hub_subscribe_result [OF hc assms(3) run] assms(4-6) run show ?thesis
    by (cases r rule: sum.exhaust; cases "projl r") (auto simp: posts_form_def split: fault.splits)
qed

theorem subscribe_bad_hub_panics_witness:
  "\<exists>c' g. hub_subscribe (diesel2_connection mem_diesel counter_rng) reference_crates True
      (''http://sub'', Some ''/'') '''' ''topic''
      (\<lparr>mem_rows = [], mem_faults = []\<rparr>, \<lparr>thread_rng = 7\<rparr>) = (Inl Panic, (c', \<lparr>thread_rng = g\<rparr>))"
proof -
  let ?c = "\<lparr>mem_rows = [], mem_faults = []\<rparr>"
  have "mem_up ?c" "dom (mem_table ?c) \<noteq> UNIV" by (simp_all add: mem_up_def mem_table_def)
  moreover have "prepared (uri_of reference_crates) (''http://sub'', Some ''/'')"
    "uri_parse (uri_of reference_crates) '''' = None"
    by (simp_all add: prepared_def reference_crates_def text_uri_def)
  ultimately show ?thesis
    using subscribe_bad_hub_panics [OF reference_crates.crates_spec_axioms mem_connection,
        of "(''http://sub'', Some ''/'')" ?c "''''" True "''topic''" "\<lparr>thread_rng = 7\<rparr>"]
    by fastforce
qed

text \<open>
  C31: unsubscribing deletes the row and yields the request that asks the hub to forget the
  callback of that id; the row is deleted whether or not it existed.
\<close>

theorem unsubscribe_deletes_and_asks:
  assumes "crates_spec L" "connection_ref D (rand_of L) subs up"
    and "prepared (uri_of L) prefix" "up c" "uri_parse (uri_of L) hub = Some u"
  shows "\<exists>fut c'. hub_unsubscribe D L prefix i hub topic c = (Inr fut, c') \<and>
    subs c' = (subs c)(i := None) \<and> up c' \<and>
    posts_form L prefix i (\<lambda>cb. UnsubscribeForm cb topic) hub topic fut"
proof -
  have hc: "hub_client L D subs up" using assms(1,2) by (rule hub_clientI)
  obtain r c' where run: "hub_unsubscribe D L prefix i hub topic c = (r, c')" by fastforce
  from hub_client.hub_unsubscribe_result [OF hc assms(3) run] assms(4,5) run show ?thesis
    by (cases r rule: sum.exhaust; cases "projl r") (auto split: fault.splits)
qed

theorem unsubscribe_deletes_and_asks_witness:
  "\<exists>fut c'. hub_unsubscribe (diesel2_connection mem_diesel counter_rng :: (_, _, (_, unit) thread_scheme) connection)
      reference_crates (''http://sub'', Some ''/'') 3 ''http://hub'' ''topic''
      \<lparr>mem_rows = [], mem_faults = []\<rparr> = (Inr fut, c')"
proof -
  let ?c = "\<lparr>mem_rows = [], mem_faults = []\<rparr>"
  have "mem_up ?c" by (simp add: mem_up_def)
  moreover have "prepared (uri_of reference_crates) (''http://sub'', Some ''/'')"
    "uri_parse (uri_of reference_crates) ''http://hub'' = Some (''http://hub'', None)"
    by (simp_all add: prepared_def reference_crates_def text_uri_def)
  ultimately show ?thesis
    using unsubscribe_deletes_and_asks [OF reference_crates.crates_spec_axioms mem_connection,
        of "(''http://sub'', Some ''/'')" ?c "''http://hub''" "(''http://hub'', None)" 3 "''topic''"]
    by blast
qed

text \<open>
  C29: the callback of a subscription lies under the prepared prefix, one segment below it and
  without a query, so stripping the prefix leaves the encoded id; reading it gives the id
  back exactly when the encoding of the id is reversible.
\<close>

theorem callback_resolves:
  assumes "crates_spec L" "prepared (uri_of L) prefix"
  shows "\<exists>cb tail. (make_callback L prefix i :: (unit, 'u) result) = Inr cb \<and>
    uri_path (uri_of L) cb = uri_path (uri_of L) prefix @ tail \<and> uri_query (uri_of L) cb = None \<and>
    CHR ''/'' \<notin> set tail \<and>
    (decode (base64_of L) tail = Some i \<longleftrightarrow> unat i < 2 ^ 56 \<or> 0 \<notin> set (to_le_bytes i))"
proof -
  have m: "memchr_spec (memchr_of L)" and b: "url_safe_no_pad (base64_of L)"
    using assms(1) by (simp_all add: crates_spec_def)
  let ?tail = "encode (memchr_of L) (base64_of L) (to_le_bytes i)"
  obtain cb where cb: "(make_callback L prefix i :: (unit, 'u) result) = Inr cb"
    "uri_path (uri_of L) cb = uri_path (uri_of L) prefix @ ?tail" "uri_query (uri_of L) cb = None"
    by (rule crates_spec.make_callback_prepared [OF assms])
  have "CHR ''/'' \<notin> set ?tail"
    using url_safe_no_pad.display_no_slash [OF b] by (simp add: encode_def Let_def)
  with cb decode_encode_iff [OF m b, of i] show ?thesis by blast
qed

theorem callback_resolves_witness:
  "\<exists>cb tail. (make_callback reference_crates (''http://sub'', Some ''/cb/'') 300 :: (unit, _) result) = Inr cb \<and>
     uri_path text_uri cb = ''/cb/'' @ tail \<and> decode rfc4648_engine tail = Some 300"
proof -
  have "prepared (uri_of reference_crates) (''http://sub'', Some ''/cb/'')"
    by (simp add: prepared_def reference_crates_def text_uri_def)
  from callback_resolves [OF reference_crates.crates_spec_axioms this, of 300] show ?thesis
    by (auto simp: reference_crates_def path_of_def text_uri_def)
qed

text \<open>
  Generating a secret never fails: 24 random bytes give 32 characters of the URL-safe
  alphabet, and distinct bytes give distinct secrets.
\<close>

theorem secret_ok:
  assumes "crates_spec L"
  shows "\<exists>secret. (gen_secret L debug g :: ('e, string) result \<times> 'g) =
      (Inr secret, snd (fill_bytes (rand_of L) 24 g)) \<and>
    length secret = SECRET_LEN \<and> set secret \<subseteq> set url_safe_alphabet \<and>
    (\<forall>h. gen_secret L debug h = (Inr secret :: ('e, string) result, snd (fill_bytes (rand_of L) 24 h)) \<longleftrightarrow>
       fst (fill_bytes (rand_of L) 24 h) = fst (fill_bytes (rand_of L) 24 g))"
proof -
  have b: "url_safe_no_pad (base64_of L)" and r: "rng_spec (rand_of L)"
    using assms by (simp_all add: crates_spec_def)
  show ?thesis
    unfolding crates_spec.gen_secret_ok [OF assms]
    using url_safe_no_pad.display_length [OF b] url_safe_no_pad.display_alphabet [OF b]
      url_safe_no_pad.display_inj [OF b] rng_spec.length_fill [OF r, of 24 g]
    by (auto simp: SECRET_LEN_def)
qed

theorem secret_ok_witness:
  "\<exists>secret. gen_secret reference_crates True 5 = (Inr secret :: (unit, string) result, 6) \<and>
     length secret = 32"
  using secret_ok [OF reference_crates.crates_spec_axioms, of True 5]
  by (auto simp: reference_crates_def counter_rng_def SECRET_LEN_def)

text \<open>
  The query a hub verifies an intent with is read back as it was meant, whatever the
  topic, the challenge and the lease.
\<close>

theorem verify_query_roundtrip:
  assumes "form_spec E"
  shows "\<exists>q. form_to_string E (verify_fields v) = Some q \<and> verify_of_fields (form_parse E q) = Some v"
  using form_spec.form_roundtrip [OF assms, of "verify_fields v"] verify_roundtrip by metis

theorem verify_query_roundtrip_witness:
  "\<exists>q. form_to_string framed_form (verify_fields (VerifySubscribe ''t'' ''c'' 864000)) = Some q \<and>
     verify_of_fields (form_parse framed_form q) = Some (VerifySubscribe ''t'' ''c'' 864000)"
  by (rule verify_query_roundtrip [OF framed_form.form_spec_axioms])

end
