(* ===== verification/Signature.thy ===== *)
theory Signature
  imports Crates
begin

text \<open>
  \<open>src/signature.rs\<close>: the \<open>X-Hub-Signature\<close> header value, its parser, the preference
  between two signatures, and the verifier that recomputes a signature over a body.
\<close>

section \<open>Data\<close>

text \<open>The cargo features \<open>sha-1\<close> and \<open>sha-2\<close> decide which algorithms are compiled in.\<close>

record features =
  sha_1 :: bool
  sha_2 :: bool

datatype signature = Sha1 "u8 list" | Sha256 "u8 list" | Sha384 "u8 list" | Sha512 "u8 list"

datatype serialize_error = Parse | UnknownMethod "u8 list"

datatype signature_mismatch = SignatureMismatch

record 'm generic_verifier =
  signature :: "u8 list"
  mac :: 'm

datatype 'm verifier =
    VSha1 "'m generic_verifier" | VSha256 "'m generic_verifier"
  | VSha384 "'m generic_verifier" | VSha512 "'m generic_verifier"

section \<open>Parsing\<close>

definition eq_sign :: u8 where
  "eq_sign = of_char CHR ''=''"

definition decode_hex :: "hex_crate \<Rightarrow> digest_alg \<Rightarrow> u8 list \<Rightarrow> serialize_error + u8 list" where
  "decode_hex H alg hex =
     (case decode_to_slice H hex (replicate (output_size alg) 0) of
        None \<Rightarrow> Inl Parse
      | Some out \<Rightarrow> Inr out)"

definition map_ok :: "('a \<Rightarrow> 'b) \<Rightarrow> 'e + 'a \<Rightarrow> 'e + 'b" where
  "map_ok f r = (case r of Inl e \<Rightarrow> Inl e | Inr a \<Rightarrow> Inr (f a))"

definition parse ::
  "features \<Rightarrow> memchr_crate \<Rightarrow> hex_crate \<Rightarrow> u8 list \<Rightarrow> serialize_error + signature" where
  "parse F M H header_value =
     (case memchr M eq_sign header_value of
        None \<Rightarrow> Inl Parse
      | Some i \<Rightarrow>
          let method = take i header_value;
              hex = tl (drop i header_value)
          in if method = as_bytes ''sha1'' \<and> sha_1 F then map_ok Sha1 (decode_hex H SHA1 hex)
             else if method = as_bytes ''sha256'' \<and> sha_2 F then map_ok Sha256 (decode_hex H SHA256 hex)
             else if method = as_bytes ''sha384'' \<and> sha_2 F then map_ok Sha384 (decode_hex H SHA384 hex)
             else if method = as_bytes ''sha512'' \<and> sha_2 F then map_ok Sha512 (decode_hex H SHA512 hex)
             else Inl (UnknownMethod method))"

section \<open>Preference\<close>

fun discriminant :: "signature \<Rightarrow> u8" where
  "discriminant (Sha1 _) = 0"
| "discriminant (Sha256 _) = 1"
| "discriminant (Sha384 _) = 2"
| "discriminant (Sha512 _) = 3"

definition is_preferable_to :: "signature \<Rightarrow> signature \<Rightarrow> bool" where
  "is_preferable_to self other \<longleftrightarrow> discriminant self \<ge> discriminant other"

section \<open>Verification\<close>

definition generic_verifier_new ::
  "'m mac_crate \<Rightarrow> digest_alg \<Rightarrow> u8 list \<Rightarrow> u8 list \<Rightarrow> ('e, 'm generic_verifier) result" where
  "generic_verifier_new K alg sig secret =
     bind_result (unwrap (new_from_slice K alg secret))
       (\<lambda>m. Inr \<lparr>signature = sig, mac = m\<rparr>)"

definition generic_verify_reset ::
  "'m mac_crate \<Rightarrow> digest_alg \<Rightarrow> 'm generic_verifier \<Rightarrow>
     (signature_mismatch + unit) \<times> 'm generic_verifier" where
  "generic_verify_reset K alg v =
     (let (code, m) = finalize_reset K alg (mac v); v = v\<lparr>mac := m\<rparr>
      in (if code = signature v then Inr () else Inl SignatureMismatch, v))"

fun verify_with :: "'m mac_crate \<Rightarrow> signature \<Rightarrow> u8 list \<Rightarrow> ('e, 'm verifier) result" where
  "verify_with K (Sha1 s) secret = bind_result (generic_verifier_new K SHA1 s secret) (\<lambda>v. Inr (VSha1 v))"
| "verify_with K (Sha256 s) secret = bind_result (generic_verifier_new K SHA256 s secret) (\<lambda>v. Inr (VSha256 v))"
| "verify_with K (Sha384 s) secret = bind_result (generic_verifier_new K SHA384 s secret) (\<lambda>v. Inr (VSha384 v))"
| "verify_with K (Sha512 s) secret = bind_result (generic_verifier_new K SHA512 s secret) (\<lambda>v. Inr (VSha512 v))"

fun update_verifier :: "'m mac_crate \<Rightarrow> 'm verifier \<Rightarrow> u8 list \<Rightarrow> 'm verifier" where
  "update_verifier K (VSha1 v) bytes = VSha1 (v\<lparr>mac := hmac_update K SHA1 (mac v) bytes\<rparr>)"
| "update_verifier K (VSha256 v) bytes = VSha256 (v\<lparr>mac := hmac_update K SHA256 (mac v) bytes\<rparr>)"
| "update_verifier K (VSha384 v) bytes = VSha384 (v\<lparr>mac := hmac_update K SHA384 (mac v) bytes\<rparr>)"
| "update_verifier K (VSha512 v) bytes = VSha512 (v\<lparr>mac := hmac_update K SHA512 (mac v) bytes\<rparr>)"

fun verify_reset :: "'m mac_crate \<Rightarrow> 'm verifier \<Rightarrow> (signature_mismatch + unit) \<times> 'm verifier" where
  "verify_reset K (VSha1 v) = map_prod id VSha1 (generic_verify_reset K SHA1 v)"
| "verify_reset K (VSha256 v) = map_prod id VSha256 (generic_verify_reset K SHA256 v)"
| "verify_reset K (VSha384 v) = map_prod id VSha384 (generic_verify_reset K SHA384 v)"
| "verify_reset K (VSha512 v) = map_prod id VSha512 (generic_verify_reset K SHA512 v)"

section \<open>What a signature says\<close>

fun sig_alg :: "signature \<Rightarrow> digest_alg" where
  "sig_alg (Sha1 _) = SHA1"
| "sig_alg (Sha256 _) = SHA256"
| "sig_alg (Sha384 _) = SHA384"
| "sig_alg (Sha512 _) = SHA512"

fun sig_digest :: "signature \<Rightarrow> u8 list" where
  "sig_digest (Sha1 d) = d"
| "sig_digest (Sha256 d) = d"
| "sig_digest (Sha384 d) = d"
| "sig_digest (Sha512 d) = d"

fun method_name :: "digest_alg \<Rightarrow> string" where
  "method_name SHA1 = ''sha1''"
| "method_name SHA256 = ''sha256''"
| "method_name SHA384 = ''sha384''"
| "method_name SHA512 = ''sha512''"

fun enabled :: "features \<Rightarrow> digest_alg \<Rightarrow> bool" where
  "enabled F SHA1 = sha_1 F"
| "enabled F _ = sha_2 F"

text \<open>The algorithms are ordered by the length of their digests; the code prefers longer ones.\<close>

instantiation digest_alg :: linorder
begin

definition less_eq_digest_alg :: "digest_alg \<Rightarrow> digest_alg \<Rightarrow> bool" where
  "a \<le> b \<longleftrightarrow> output_size a \<le> output_size b"

definition less_digest_alg :: "digest_alg \<Rightarrow> digest_alg \<Rightarrow> bool" where
  "a < b \<longleftrightarrow> output_size a < output_size b"

instance
proof
  fix a b :: digest_alg
  show "a \<le> b \<Longrightarrow> b \<le> a \<Longrightarrow> a = b" by (cases a; cases b) (simp_all add: less_eq_digest_alg_def)
qed (auto simp: less_eq_digest_alg_def less_digest_alg_def)

end

lemma is_preferable_to_iff: "is_preferable_to s t \<longleftrightarrow> sig_alg t \<le> sig_alg s"
  by (cases s; cases t) (simp_all add: is_preferable_to_def less_eq_digest_alg_def word_le_nat_alt)

lemma signature_eq_iff: "s = t \<longleftrightarrow> sig_alg s = sig_alg t \<and> sig_digest s = sig_digest t"
  by (cases s; cases t) auto

lemma method_name_no_eq: "eq_sign \<notin> set (as_bytes (method_name a))"
  by (cases a) (simp_all add: as_bytes_def eq_sign_def)

lemma method_name_inj: "method_name a = method_name b \<longleftrightarrow> a = b"
  by (cases a; cases b) simp_all

text \<open>A verifier of one signature under one secret that has absorbed \<open>c\<close>.\<close>

fun verifying :: "(digest_alg \<Rightarrow> u8 list \<Rightarrow> u8 list \<Rightarrow> 'm \<Rightarrow> bool) \<Rightarrow> signature \<Rightarrow> u8 list \<Rightarrow>
    u8 list \<Rightarrow> 'm verifier \<Rightarrow> bool" where
  "verifying keyed s secret c (VSha1 v) \<longleftrightarrow> s = Sha1 (signature v) \<and> keyed SHA1 secret c (mac v)"
| "verifying keyed s secret c (VSha256 v) \<longleftrightarrow> s = Sha256 (signature v) \<and> keyed SHA256 secret c (mac v)"
| "verifying keyed s secret c (VSha384 v) \<longleftrightarrow> s = Sha384 (signature v) \<and> keyed SHA384 secret c (mac v)"
| "verifying keyed s secret c (VSha512 v) \<longleftrightarrow> s = Sha512 (signature v) \<and> keyed SHA512 secret c (mac v)"

context mac_spec
begin

lemma verify_with_verifying:
  "\<exists>v. verify_with K s secret = Inr v \<and> verifying keyed s secret [] v"
proof -
  obtain m where "new_from_slice K (sig_alg s) secret = Some m" "keyed (sig_alg s) secret [] m"
    using mac_new by blast
  then show ?thesis by (cases s) (simp_all add: generic_verifier_new_def)
qed

lemma update_verifier_verifying:
  "verifying keyed s secret c v \<Longrightarrow> verifying keyed s secret (c @ d) (update_verifier K v d)"
  by (cases v) (auto intro: hmac_update)

lemma verify_reset_verifying:
  assumes "verifying keyed s secret c v" and "verify_reset K v = (r, v')"
  shows "verifying keyed s secret [] v'
    \<and> r = (if tag (sig_alg s) secret c = sig_digest s then Inr () else Inl SignatureMismatch)"
  using assms
  by (cases v) (auto simp: generic_verify_reset_def split: prod.splits dest: mac_finalize)

end

section \<open>Properties\<close>

text \<open>The constructor for an algorithm, and parsing by algorithm.\<close>

fun sig_of :: "digest_alg \<Rightarrow> u8 list \<Rightarrow> signature" where
  "sig_of SHA1 = Sha1"
| "sig_of SHA256 = Sha256"
| "sig_of SHA384 = Sha384"
| "sig_of SHA512 = Sha512"

lemma sig_of_simps [simp]: "sig_alg (sig_of a d) = a" "sig_digest (sig_of a d) = d"
  "sig_of (sig_alg s) (sig_digest s) = s"
proof -
  show "sig_alg (sig_of a d) = a" "sig_digest (sig_of a d) = d" by (cases a; simp)+
  show "sig_of (sig_alg s) (sig_digest s) = s" by (cases s; simp)
qed

lemma map_ok_simps [simp]: "map_ok f (Inl e) = Inl e" "map_ok f (Inr a) = Inr (f a)"
  by (simp_all add: map_ok_def)

lemma map_ok_Inr [simp]: "map_ok f r = Inr b \<longleftrightarrow> (\<exists>a. r = Inr a \<and> b = f a)"
  by (cases r) auto

lemma parse_no_eq:
  "memchr_spec M \<Longrightarrow> eq_sign \<notin> set hv \<Longrightarrow> parse F M H hv = Inl Parse"
  by (simp add: parse_def memchr_spec.memchr_None [THEN iffD2])

lemma parse_known:
  assumes "memchr_spec M" "enabled F a"
  shows "parse F M H (as_bytes (method_name a) @ eq_sign # hex) = map_ok (sig_of a) (decode_hex H a hex)"
  using assms(2) memchr_spec.memchr_append [OF assms(1) method_name_no_eq, of a hex]
  by (cases a) (simp_all add: parse_def)

lemma parse_unknown:
  assumes "memchr_spec M" "eq_sign \<notin> set m" "\<And>a. enabled F a \<Longrightarrow> m \<noteq> as_bytes (method_name a)"
  shows "parse F M H (m @ eq_sign # hex) = Inl (UnknownMethod m)"
proof -
  have "\<not> (m = as_bytes ''sha1'' \<and> sha_1 F)" "\<not> (m = as_bytes ''sha256'' \<and> sha_2 F)"
    "\<not> (m = as_bytes ''sha384'' \<and> sha_2 F)" "\<not> (m = as_bytes ''sha512'' \<and> sha_2 F)"
    using assms(3) [of SHA1] assms(3) [of SHA256] assms(3) [of SHA384] assms(3) [of SHA512]
    by auto
  then show ?thesis
    using memchr_spec.memchr_append [OF assms(1,2), of hex] by (simp add: parse_def) blast
qed

text \<open>Every header value is of one of the three shapes of the lemmas above.\<close>

lemma header_cases:
  obtains (no_eq) "eq_sign \<notin> set hv"
  | (known) a hex where "enabled F a" "hv = as_bytes (method_name a) @ eq_sign # hex"
  | (unknown) m hex where "eq_sign \<notin> set m" "\<And>a. enabled F a \<Longrightarrow> m \<noteq> as_bytes (method_name a)"
      "hv = m @ eq_sign # hex"
proof (cases "eq_sign \<in> set hv")
  case True
  then obtain m hex where hv: "hv = m @ eq_sign # hex" "eq_sign \<notin> set m"
    using split_list_first [of eq_sign hv] by blast
  show thesis
  proof (cases "\<exists>a. enabled F a \<and> m = as_bytes (method_name a)")
    case True
    then obtain a where a: "enabled F a" "m = as_bytes (method_name a)" by blast
    show thesis by (rule known [of a hex]) (use a hv in simp_all)
  next
    case False
    show thesis by (rule unknown [of m hex]) (use False hv in blast)+
  qed
qed (rule no_eq)

lemma decode_hex_eq:
  "hex_spec H \<Longrightarrow> decode_hex H a hex =
     (case hex_bytes hex of None \<Rightarrow> Inl Parse
      | Some d \<Rightarrow> if length d = output_size a then Inr d else Inl Parse)"
  using hex_bytes_length [of hex]
  by (auto simp: decode_hex_def hex_spec.decode_to_slice split: option.splits)

lemma method_split_unique:
  assumes "xs @ e # ys = xs' @ e # ys'" "e \<notin> set xs" "e \<notin> set xs'"
  shows "xs = xs' \<and> ys = ys'"
proof -
  have "takeWhile (\<lambda>c. c \<noteq> e) (zs @ e # ws) = zs" if "e \<notin> set zs" for zs ws
    using that by (subst takeWhile_append2) auto
  from this [OF assms(2), of ys] this [OF assms(3), of ys'] assms(1) show ?thesis by auto
qed

text \<open>
  C23: \<open>parse\<close> accepts exactly the header values \<open>method=hex\<close> whose method is the name of a
  compiled-in algorithm and whose hex digits, of either case, spell a digest of that
  algorithm's length; the signature carries that algorithm and those bytes.
\<close>

theorem parse_accepts:
  assumes "memchr_spec M" "hex_spec H"
  shows "parse F M H hv = Inr s \<longleftrightarrow>
    enabled F (sig_alg s) \<and> length (sig_digest s) = output_size (sig_alg s) \<and>
    (\<exists>hex. hv = as_bytes (method_name (sig_alg s)) @ eq_sign # hex \<and>
       hex_bytes hex = Some (sig_digest s))"
    (is "?ok \<longleftrightarrow> ?spelled")
proof
  assume ?ok
  then show ?spelled
  proof (cases hv rule: header_cases [where F = F])
    case no_eq
    with \<open>?ok\<close> show ?thesis by (simp add: parse_no_eq [OF assms(1)])
  next
    case (known a hex)
    with \<open>?ok\<close> show ?thesis
      by (auto simp: parse_known [OF assms(1)] decode_hex_eq [OF assms(2)] split: option.splits if_splits)
  next
    case (unknown m hex)
    with \<open>?ok\<close> show ?thesis by (simp add: parse_unknown [OF assms(1)])
  qed
next
  assume ?spelled
  then obtain hex where "hv = as_bytes (method_name (sig_alg s)) @ eq_sign # hex"
    "hex_bytes hex = Some (sig_digest s)" by blast
  with \<open>?spelled\<close> show ?ok
    by (simp add: parse_known [OF assms(1)] decode_hex_eq [OF assms(2)])
qed

theorem parse_accepts_witness:
  "parse \<lparr>sha_1 = True, sha_2 = False\<rparr> list_memchr list_hex
     (as_bytes ''sha1='' @ hex_encode (replicate 20 171)) = Inr (Sha1 (replicate 20 171))"
  using parse_accepts [OF list_memchr.memchr_spec_axioms list_hex.hex_spec_axioms,
      of "\<lparr>sha_1 = True, sha_2 = False\<rparr>" _ "Sha1 (replicate 20 171)"]
  by (simp add: as_bytes_def eq_sign_def)

text \<open>
  The errors of \<open>parse\<close> are told apart the way the caller logs them: a value without
  \<open>=\<close>, or with a known method and digits that are no digest of its length, is a parse error;
  a method that is not compiled in is reported as it stands, before the digits are read.
\<close>

theorem parse_errors:
  assumes "memchr_spec M" "hex_spec H"
  shows "(parse F M H hv = Inl Parse \<longleftrightarrow> eq_sign \<notin> set hv \<or>
      (\<exists>a hex. enabled F a \<and> hv = as_bytes (method_name a) @ eq_sign # hex \<and>
         hex_bytes hex \<notin> Some ` {d. length d = output_size a}))
    \<and> (parse F M H hv = Inl (UnknownMethod m) \<longleftrightarrow>
      (\<exists>hex. hv = m @ eq_sign # hex) \<and> eq_sign \<notin> set m \<and>
      m \<notin> (as_bytes \<circ> method_name) ` {a. enabled F a})"
proof (cases hv rule: header_cases [where F = F])
  case no_eq
  then show ?thesis by (auto simp: parse_no_eq [OF assms(1)])
next
  case (known a hex)
  have uniq: "m' = as_bytes (method_name a) \<and> hex' = hex"
    if "hv = m' @ eq_sign # hex'" "eq_sign \<notin> set m'" for m' hex'
    using that known(2) method_split_unique [of m' eq_sign hex'] method_name_no_eq by metis
  have "parse F M H hv = map_ok (sig_of a) (decode_hex H a hex)"
    using known by (simp add: parse_known [OF assms(1)])
  moreover have "(\<exists>b hex'. enabled F b \<and> hv = as_bytes (method_name b) @ eq_sign # hex' \<and>
         hex_bytes hex' \<notin> Some ` {d. length d = output_size b})
      \<longleftrightarrow> hex_bytes hex \<notin> Some ` {d. length d = output_size a}"
    using known uniq [OF _ method_name_no_eq] by (metis as_bytes_inj method_name_inj)
  moreover have "eq_sign \<in> set hv" using known by simp
  moreover have "\<not> ((\<exists>hex. hv = m @ eq_sign # hex) \<and> eq_sign \<notin> set m \<and>
      m \<notin> (as_bytes \<circ> method_name) ` {a. enabled F a})"
  proof
    assume bad: "(\<exists>hex. hv = m @ eq_sign # hex) \<and> eq_sign \<notin> set m \<and>
      m \<notin> (as_bytes \<circ> method_name) ` {a. enabled F a}"
    then have "m = as_bytes (method_name a)" using uniq by blast
    with bad known(1) show False by simp
  qed
  ultimately show ?thesis
    by (auto simp: decode_hex_eq [OF assms(2)] split: option.splits)
next
  case (unknown m' hex)
  have uniq: "n = m'" if "hv = n @ eq_sign # hex'" "eq_sign \<notin> set n" for n hex'
    using that unknown(1,3) method_split_unique [of n eq_sign hex' m' hex] by simp
  have "parse F M H hv = Inl (UnknownMethod m')"
    using unknown by (simp add: parse_unknown [OF assms(1)])
  moreover have "\<not> (\<exists>a hex. enabled F a \<and> hv = as_bytes (method_name a) @ eq_sign # hex)"
    using uniq [OF _ method_name_no_eq] unknown(2) by metis
  moreover have "eq_sign \<in> set hv" using unknown(3) by simp
  moreover have "(\<exists>hex. hv = m @ eq_sign # hex) \<and> eq_sign \<notin> set m \<and>
      m \<notin> (as_bytes \<circ> method_name) ` {a. enabled F a} \<longleftrightarrow> m' = m"
    using uniq unknown by auto
  ultimately show ?thesis by auto
qed

theorem parse_errors_witness:
  "parse \<lparr>sha_1 = True, sha_2 = False\<rparr> list_memchr list_hex (as_bytes ''sha256=00'')
     = Inl (UnknownMethod (as_bytes ''sha256''))
   \<and> parse \<lparr>sha_1 = True, sha_2 = False\<rparr> list_memchr list_hex (as_bytes ''sha1'') = Inl Parse"
proof -
  note errors = parse_errors [OF list_memchr.memchr_spec_axioms list_hex.hex_spec_axioms,
      of "\<lparr>sha_1 = True, sha_2 = False\<rparr>"]
  have "method_name a \<noteq> ''sha256''" if "enabled \<lparr>sha_1 = True, sha_2 = False\<rparr> a" for a
    using that by (cases a) simp_all
  moreover have "as_bytes ''sha256=00'' = as_bytes ''sha256'' @ eq_sign # as_bytes ''00''"
    by (simp add: as_bytes_def eq_sign_def)
  moreover have "eq_sign \<notin> set (as_bytes ''sha256'')" "eq_sign \<notin> set (as_bytes ''sha1'')"
    by (simp_all add: as_bytes_def eq_sign_def)
  ultimately show ?thesis
    using errors [of "as_bytes ''sha256=00''" "as_bytes ''sha256''"] errors [of "as_bytes ''sha1''"]
    by auto
qed

text \<open>
  C22: a verifier made from a signature and a secret never panics, and however the body is
  cut into updates, \<open>verify_reset\<close> succeeds exactly when the signature's bytes are the HMAC
  of the whole body under the secret; afterwards it is ready for another body.
\<close>

theorem verifier_correct:
  assumes "mac_spec (K :: 'm mac_crate) tag keyed"
  shows "\<exists>v. (verify_with K s secret :: ('e, 'm verifier) result) = Inr v \<and>
    (let (r, v') = verify_reset K (fold (\<lambda>d v. update_verifier K v d) chunks v)
     in (r = Inr () \<longleftrightarrow> tag (sig_alg s) secret (concat chunks) = sig_digest s)
        \<and> verifying keyed s secret [] v')"
proof -
  obtain v where v: "(verify_with K s secret :: ('e, 'm verifier) result) = Inr v" "verifying keyed s secret [] v"
    using mac_spec.verify_with_verifying [OF assms, of s secret] by blast
  have "verifying keyed s secret (c @ concat chunks) (fold (\<lambda>d v. update_verifier K v d) chunks v)"
    if "verifying keyed s secret c v" for c v
    using that
  proof (induction chunks arbitrary: c v)
    case (Cons d chunks)
    from Cons.IH [OF mac_spec.update_verifier_verifying [OF assms Cons.prems, of d]]
    show ?case by simp
  qed simp
  from this [OF v(2)] have absorbed:
    "verifying keyed s secret (concat chunks) (fold (\<lambda>d v. update_verifier K v d) chunks v)"
    by simp
  obtain r v' where r: "verify_reset K (fold (\<lambda>d v. update_verifier K v d) chunks v) = (r, v')"
    by fastforce
  show ?thesis
    using v(1) r mac_spec.verify_reset_verifying [OF assms absorbed r] by auto
qed

theorem verifier_correct_witness:
  "\<exists>v. verify_with (buffered_mac (\<lambda>a k c. k @ c)) (Sha1 [1, 2, 3]) [1] =
     (Inr v :: (unit, (u8 list \<times> u8 list) verifier) result)"
  using verifier_correct [OF buffered_mac.mac_spec_axioms, of "\<lambda>a k c. k @ c" "Sha1 [1, 2, 3]" "[1]"]
  by blast

end
