(* ===== verification/Content.thy ===== *)
theory Content
  imports Signature
begin

text \<open>
  \<open>src/subscriber/update.rs\<close> and \<open>src/subscriber/update/content.rs\<close>: the body of an update
  is handed to the user chunk by chunk while its signature is computed, and the signature
  is checked at the end of the body. The traits \<open>bytes::Buf\<close> and \<open>http_body::Body\<close> are
  parameters.
\<close>

section \<open>The \<open>bytes\<close> and \<open>http_body\<close> traits\<close>

datatype 'a poll = Pending | Ready 'a

record 'd buf_ops =
  chunk :: "'d \<Rightarrow> u8 list"
  remaining :: "'d \<Rightarrow> nat"
  advance :: "'d \<Rightarrow> nat \<Rightarrow> 'd"

record ('b, 'd, 'e, 'h) body_ops =
  body_poll_data :: "'b \<Rightarrow> ('e + 'd) option poll \<times> 'b"
  body_poll_trailers :: "'b \<Rightarrow> ('e + 'h option) poll \<times> 'b"
  body_size_hint :: "'b \<Rightarrow> nat \<times> nat option"

text \<open>
  The contract of \<open>Buf\<close>: a cursor over some bytes; \<open>chunk\<close> is a prefix of what remains, empty
  only if nothing remains, and \<open>advance\<close> moves the cursor.
\<close>

locale buf_spec =
  fixes U :: "'d buf_ops" and contents :: "'d \<Rightarrow> u8 list" and good :: "'d \<Rightarrow> bool"
  assumes remaining_length: "good d \<Longrightarrow> remaining U d = length (contents d)"
    and chunk_prefix: "good d \<Longrightarrow> chunk U d = take (length (chunk U d)) (contents d)"
    and chunk_nonempty: "good d \<Longrightarrow> contents d \<noteq> [] \<Longrightarrow> chunk U d \<noteq> []"
    and advance_drop: "good d \<Longrightarrow> n \<le> length (contents d) \<Longrightarrow>
      good (advance U d n) \<and> contents (advance U d n) = drop n (contents d)"

text \<open>A rope of non-empty chunks meets the contract; so does one contiguous buffer.\<close>

fun rope_advance :: "u8 list list \<Rightarrow> nat \<Rightarrow> u8 list list" where
  "rope_advance [] n = []"
| "rope_advance (c # cs) n =
     (if n < length c then drop n c # cs else rope_advance cs (n - length c))"

definition rope_buf :: "u8 list list buf_ops" where
  "rope_buf = \<lparr>chunk = (\<lambda>cs. case cs of [] \<Rightarrow> [] | c # _ \<Rightarrow> c),
     remaining = (\<lambda>cs. length (concat cs)), advance = rope_advance\<rparr>"

definition rope_good :: "u8 list list \<Rightarrow> bool" where
  "rope_good cs \<longleftrightarrow> [] \<notin> set cs"

lemma rope_advance_concat:
  "rope_good cs \<Longrightarrow> rope_good (rope_advance cs n) \<and> concat (rope_advance cs n) = drop n (concat cs)"
  by (induction cs n rule: rope_advance.induct) (auto simp: rope_good_def)

interpretation rope: buf_spec rope_buf concat rope_good
  by unfold_locales
    (auto simp: rope_buf_def rope_advance_concat [unfolded rope_good_def] rope_good_def split: list.splits)

section \<open>Data\<close>

datatype 'e update_error = BodyError 'e | Mismatch signature_mismatch

record ('b, 'm) content =
  body :: 'b
  verifier :: "'m verifier"

record ('b, 'm, 'h) update_data =
  update_topic :: string
  update_headers :: 'h
  update_content :: "('b, 'm) content"

section \<open>Operations\<close>

definition content_new ::
  "'m mac_crate \<Rightarrow> 'b \<Rightarrow> signature \<Rightarrow> u8 list \<Rightarrow> ('e, ('b, 'm) content) result" where
  "content_new K b sig secret =
     bind_result (verify_with K sig secret) (\<lambda>v. Inr \<lparr>body = b, verifier = v\<rparr>)"

text \<open>The loop over the chunks of a buffer that is not contiguous; \<open>None\<close> if it never ends.\<close>

partial_function (option) update_chunks ::
  "'d buf_ops \<Rightarrow> ('v \<Rightarrow> u8 list \<Rightarrow> 'v) \<Rightarrow> 'v \<Rightarrow> 'd \<Rightarrow> u8 list \<Rightarrow> 'v option" where
  "update_chunks U up v buf c =
     (let v = up v c;
          buf = advance U buf (length c)
      in if remaining U buf = 0 then Some v
         else update_chunks U up v buf (chunk U buf))"

definition poll_data ::
  "'m mac_crate \<Rightarrow> 'd buf_ops \<Rightarrow> ('b, 'd, 'e, 'h) body_ops \<Rightarrow>
     (('b, 'm) content, unit, ('e update_error + 'd) option poll) action" where
  "poll_data K U D this =
     (case body_poll_data D (body this) of
        (Pending, b) \<Rightarrow> (Inr Pending, this\<lparr>body := b\<rparr>)
      | (Ready (Some (Inl e)), b) \<Rightarrow> (Inr (Ready (Some (Inl (BodyError e)))), this\<lparr>body := b\<rparr>)
      | (Ready (Some (Inr buf)), b) \<Rightarrow>
          let this = this\<lparr>body := b\<rparr>; c = chunk U buf
          in if length c = remaining U buf
             then (Inr (Ready (Some (Inr buf))), this\<lparr>verifier := update_verifier K (verifier this) c\<rparr>)
             else (case update_chunks U (update_verifier K) (verifier this) buf c of
                     None \<Rightarrow> (Inl Diverge, this)
                   | Some v \<Rightarrow> (Inr (Ready (Some (Inr buf))), this\<lparr>verifier := v\<rparr>))
      | (Ready None, b) \<Rightarrow>
          let this = this\<lparr>body := b\<rparr>
          in (case verify_reset K (verifier this) of
                (Inl e, v) \<Rightarrow> (Inr (Ready (Some (Inl (Mismatch e)))), this\<lparr>verifier := v\<rparr>)
              | (Inr _, v) \<Rightarrow> (Inr (Ready None), this\<lparr>verifier := v\<rparr>)))"

definition poll_trailers ::
  "('b, 'd, 'e, 'h) body_ops \<Rightarrow> ('b, 'm) content \<Rightarrow>
     ('e update_error + 'h option) poll \<times> ('b, 'm) content" where
  "poll_trailers D this =
     (case body_poll_trailers D (body this) of
        (Pending, b) \<Rightarrow> (Pending, this\<lparr>body := b\<rparr>)
      | (Ready (Inl e), b) \<Rightarrow> (Ready (Inl (BodyError e)), this\<lparr>body := b\<rparr>)
      | (Ready (Inr t), b) \<Rightarrow> (Ready (Inr t), this\<lparr>body := b\<rparr>))"

definition size_hint :: "('b, 'd, 'e, 'h) body_ops \<Rightarrow> ('b, 'm) content \<Rightarrow> nat \<times> nat option" where
  "size_hint D this = body_size_hint D (body this)"

definition poll_next ::
  "'m mac_crate \<Rightarrow> 'd buf_ops \<Rightarrow> ('b, 'd, 'e, 'h) body_ops \<Rightarrow>
     (('b, 'm) content, unit, ('e update_error + 'd) option poll) action" where
  "poll_next K U D = poll_data K U D"

section \<open>Reading a body\<close>

text \<open>Polling \<open>n\<close> times: the answers in order. A fault of the code ends the reading; a poll has no
  error of its own (its errors are answers), so the error type is \<open>unit\<close>.\<close>

fun poll_times :: "nat \<Rightarrow> ('s, unit, 'r) action \<Rightarrow> ('s, unit, 'r list) action" where
  "poll_times 0 p = ret []"
| "poll_times (Suc n) p = and_then p (\<lambda>r. and_then (poll_times n p) (\<lambda>rs. ret (r # rs)))"

text \<open>The body's own answers.\<close>

fun body_answers ::
  "('b, 'd, 'e, 'h) body_ops \<Rightarrow> nat \<Rightarrow> 'b \<Rightarrow> ('e + 'd) option poll list \<times> 'b" where
  "body_answers D 0 b = ([], b)"
| "body_answers D (Suc n) b =
     (let (r, b) = body_poll_data D b; (rs, b) = body_answers D n b in (r # rs, b))"

text \<open>The bytes the data answers carry.\<close>

fun data_bytes :: "('d \<Rightarrow> u8 list) \<Rightarrow> ('e + 'd) option poll list \<Rightarrow> u8 list" where
  "data_bytes contents [] = []"
| "data_bytes contents (Ready (Some (Inr d)) # rs) = contents d @ data_bytes contents rs"
| "data_bytes contents (r # rs) = data_bytes contents rs"

text \<open>Answers that neither end the body nor fail: the ones an honest transfer gives before the end.\<close>

fun transfers :: "('d \<Rightarrow> bool) \<Rightarrow> ('e + 'd) option poll \<Rightarrow> bool" where
  "transfers good Pending \<longleftrightarrow> True"
| "transfers good (Ready (Some (Inr d))) \<longleftrightarrow> good d"
| "transfers good _ \<longleftrightarrow> False"

text \<open>What the user sees for an answer of the body that is passed on.\<close>

fun passed_on :: "('e + 'd) option poll \<Rightarrow> ('e update_error + 'd) option poll" where
  "passed_on Pending = Pending"
| "passed_on (Ready None) = Ready None"
| "passed_on (Ready (Some (Inl e))) = Ready (Some (Inl (BodyError e)))"
| "passed_on (Ready (Some (Inr d))) = Ready (Some (Inr d))"

context buf_spec
begin

lemma update_chunks_all:
  assumes "good d" "contents d \<noteq> []"
  shows "\<exists>cs. concat cs = contents d \<and>
    update_chunks U up v d (chunk U d) = Some (fold (\<lambda>c v. up v c) cs v)"
  using assms
proof (induction "length (contents d)" arbitrary: d v rule: less_induct)
  case less
  let ?c = "chunk U d" and ?d = "advance U d (length (chunk U d))"
  have le: "length ?c \<le> length (contents d)"
    using arg_cong [OF chunk_prefix [OF less.prems(1)], of length] by simp
  have rest: "good ?d" "contents ?d = drop (length ?c) (contents d)"
    using advance_drop [OF less.prems(1) le] by simp_all
  have split: "contents d = ?c @ contents ?d"
    using chunk_prefix [OF less.prems(1)] rest(2) by (metis append_take_drop_id)
  show ?case
  proof (cases "contents ?d = []")
    case True
    then have "update_chunks U up v d ?c = Some (fold (\<lambda>c v. up v c) [?c] v)"
      using remaining_length [OF rest(1)] by (simp add: update_chunks.simps)
    with split True show ?thesis by (metis append_Nil2 concat.simps)
  next
    case False
    have "length (contents ?d) < length (contents d)"
      using chunk_nonempty [OF less.prems] split by simp
    from less.hyps [OF this rest(1) False, of "up v ?c"] obtain cs where
      "concat cs = contents ?d"
      "update_chunks U up (up v ?c) ?d (chunk U ?d) = Some (fold (\<lambda>c v. up v c) cs (up v ?c))"
      by blast
    moreover have "update_chunks U up v d ?c = update_chunks U up (up v ?c) ?d (chunk U ?d)"
      using remaining_length [OF rest(1)] False by (subst update_chunks.simps) (simp add: Let_def)
    ultimately have "concat (?c # cs) = contents d"
      "update_chunks U up v d ?c = Some (fold (\<lambda>c v. up v c) (?c # cs) v)"
      using split by simp_all
    then show ?thesis by blast
  qed
qed

end

text \<open>One poll of a body whose signature is being verified.\<close>

locale verified_body = mac_spec K tag keyed + buf_spec U contents good
  for K :: "'m mac_crate" and tag keyed and U :: "'d buf_ops" and contents good
begin

lemma poll_transfer:
  assumes "body_poll_data D (body c) = (r, b)" "transfers good r"
    and "verifying keyed s secret m (verifier c)"
  shows "\<exists>c'. poll_data K U D c = (Inr (passed_on r), c') \<and> body c' = b
    \<and> verifying keyed s secret (m @ data_bytes contents [r]) (verifier c')"
proof -
  consider "r = Pending" | d where "r = Ready (Some (Inr d))" "good d"
    using assms(2) by (cases "(good, r)" rule: transfers.cases) auto
  then show ?thesis
  proof cases
    case 1
    with assms show ?thesis by (simp add: poll_data_def)
  next
    case (2 d)
    have all: "\<exists>cs. concat cs = contents d \<and>
        (if length (chunk U d) = remaining U d then Some (update_verifier K (verifier c) (chunk U d))
         else update_chunks U (update_verifier K) (verifier c) d (chunk U d))
        = Some (fold (\<lambda>x v. update_verifier K v x) cs (verifier c))"
    proof (cases "length (chunk U d) = remaining U d")
      case True
      then have "concat [chunk U d] = contents d"
        using chunk_prefix [OF 2(2)] remaining_length [OF 2(2)] by simp
      with True show ?thesis by (intro exI [of _ "[chunk U d]"]) simp
    next
      case False
      then have "contents d \<noteq> []"
        using chunk_prefix [OF 2(2)] remaining_length [OF 2(2)] by auto
      with update_chunks_all [OF 2(2) this] False show ?thesis by simp
    qed
    have keep: "verifying keyed s secret (m @ concat cs) (fold (\<lambda>x v. update_verifier K v x) cs v)"
      if "verifying keyed s secret m v" for cs v m
      using that
    proof (induction cs arbitrary: m v)
      case (Cons x cs)
      from Cons.IH [OF update_verifier_verifying [OF Cons.prems, of x]] show ?case by simp
    qed simp
    from all obtain cs where cs: "concat cs = contents d"
      "(if length (chunk U d) = remaining U d then Some (update_verifier K (verifier c) (chunk U d))
         else update_chunks U (update_verifier K) (verifier c) d (chunk U d))
        = Some (fold (\<lambda>x v. update_verifier K v x) cs (verifier c))" by blast
    have "verifying keyed s secret (m @ contents d) (fold (\<lambda>x v. update_verifier K v x) cs (verifier c))"
      using keep [OF assms(3), of cs] cs(1) by simp
    with cs(2) 2 assms(1) show ?thesis
      by (auto simp: poll_data_def Let_def split: if_splits)
  qed
qed

lemma poll_transfers:
  assumes "body_answers D n (body c) = (rs, b)" "list_all (transfers good) rs"
    and "verifying keyed s secret m (verifier c)"
  shows "\<exists>c'. poll_times n (poll_data K U D) c = (Inr (map passed_on rs), c') \<and> body c' = b
    \<and> verifying keyed s secret (m @ data_bytes contents rs) (verifier c')"
  using assms
proof (induction n arbitrary: c rs m)
  case 0
  then show ?case by simp
next
  case (Suc n)
  obtain r b1 rs' where r: "body_poll_data D (body c) = (r, b1)"
    and rs': "body_answers D n b1 = (rs', b)" and rs: "rs = r # rs'"
    using Suc.prems(1) by (auto split: prod.splits)
  obtain c1 where c1: "poll_data K U D c = (Inr (passed_on r), c1)" "body c1 = b1"
    "verifying keyed s secret (m @ data_bytes contents [r]) (verifier c1)"
    using poll_transfer [OF r _ Suc.prems(3)] Suc.prems(2) rs by auto
  have "body_answers D n (body c1) = (rs', b)" "list_all (transfers good) rs'"
    using rs' c1(2) Suc.prems(2) rs by simp_all
  from Suc.IH [OF this c1(3)] obtain c2 where
    "poll_times n (poll_data K U D) c1 = (Inr (map passed_on rs'), c2)" "body c2 = b"
    "verifying keyed s secret (m @ data_bytes contents [r] @ data_bytes contents rs') (verifier c2)"
    by auto
  moreover have "data_bytes contents rs = data_bytes contents [r] @ data_bytes contents rs'"
    unfolding rs by (cases "(contents, [r])" rule: data_bytes.cases) auto
  ultimately show ?case
    using c1(1) rs by (simp add: and_then_def)
qed

lemma poll_end:
  assumes "body_poll_data D (body c) = (Ready None, b)"
    and "verifying keyed s secret m (verifier c)"
  shows "\<exists>c'. poll_data K U D c =
      (Inr (if tag (sig_alg s) secret m = sig_digest s then Ready None
            else Ready (Some (Inl (Mismatch SignatureMismatch)))), c')
    \<and> body c' = b \<and> verifying keyed s secret [] (verifier c')"
proof -
  obtain r v where v: "verify_reset K (verifier c) = (r, v)" by fastforce
  note fin = verify_reset_verifying [OF assms(2) v]
  show ?thesis
    using assms(1) v fin by (cases r) (simp_all add: poll_data_def Let_def split: if_splits)
qed

end

lemma poll_times_add:
  "poll_times (a + b) p = and_then (poll_times a p) (\<lambda>rs. and_then (poll_times b p) (\<lambda>ss. ret (rs @ ss)))"
proof (induction a)
  case 0
  show ?case by (rule ext) (auto simp: and_then_def split: prod.splits sum.splits)
next
  case (Suc a)
  then show ?case
    by (intro ext) (auto simp: and_then_def split: prod.splits sum.splits)
qed

interpretation buffered_rope: verified_body "buffered_mac tag" tag buffered rope_buf concat rope_good
  for tag
  by unfold_locales

section \<open>Properties\<close>

text \<open>The answer at the end of a body that has carried \<open>m\<close>.\<close>

definition verdict ::
  "(digest_alg \<Rightarrow> u8 list \<Rightarrow> u8 list \<Rightarrow> u8 list) \<Rightarrow> signature \<Rightarrow> u8 list \<Rightarrow> u8 list \<Rightarrow>
     ('e update_error + 'd) option poll" where
  "verdict tag s secret m =
     (if tag (sig_alg s) secret m = sig_digest s then Ready None
      else Ready (Some (Inl (Mismatch SignatureMismatch))))"

lemma body_answers_snoc:
  assumes "body_answers D (Suc n) b = (rs @ [r], b')" "length rs = n"
  obtains b1 where "body_answers D n b = (rs, b1)" "body_poll_data D b1 = (r, b')"
  using assms
proof (induction n arbitrary: b rs thesis)
  case 0
  then show ?case by (auto split: prod.splits)
next
  case (Suc n)
  obtain q b1 qs where q: "body_poll_data D b = (q, b1)" "body_answers D (Suc n) b1 = (qs, b')"
    and rs: "rs @ [r] = q # qs"
    using Suc.prems(2) by (auto simp del: body_answers.simps simp: body_answers.simps(2) [of D "Suc n"]
        split: prod.splits)
  obtain rs' where rs': "rs = q # rs'" "qs = rs' @ [r]"
    using rs Suc.prems(3) by (cases rs) auto
  obtain b2 where "body_answers D n b1 = (rs', b2)" "body_poll_data D b2 = (r, b')"
    using Suc.IH [of b1 rs'] q(2) rs' Suc.prems(3) by auto
  with q(1) rs' Suc.prems(1) [of b2] show ?case by simp
qed

lemma body_answers_length: "body_answers D n b = (rs, b') \<Longrightarrow> length rs = n"
  by (induction n arbitrary: b rs) (auto split: prod.splits)

text \<open>Reading a body to its end.\<close>

lemma reading_verifies:
  assumes "mac_spec K tag keyed" "buf_spec U contents good"
    and "body_answers D (Suc n) b = (rs @ [Ready None], b')" "list_all (transfers good) rs"
  shows "\<exists>c c'. content_new K b s secret = (Inr c :: (unit, ('b, 'm) content) result) \<and>
    poll_times (Suc n) (poll_data K U D) c =
      (Inr (map passed_on rs @ [verdict tag s secret (data_bytes contents rs)]), c')"
proof -
  have vb: "verified_body K tag keyed U contents good"
    using assms(1,2) by (rule verified_body.intro)
  have len: "length rs = n" using body_answers_length [OF assms(3)] by simp
  obtain b1 where b1: "body_answers D n b = (rs, b1)" "body_poll_data D b1 = (Ready None, b')"
    by (rule body_answers_snoc [OF assms(3) len])
  obtain v where v: "(verify_with K s secret :: (unit, 'm verifier) result) = Inr v"
    "verifying keyed s secret [] v"
    using mac_spec.verify_with_verifying [OF assms(1), of s secret] by blast
  define c where "c = \<lparr>body = b, verifier = v\<rparr>"
  have new: "content_new K b s secret = (Inr c :: (unit, ('b, 'm) content) result)"
    using v(1) by (simp add: content_new_def c_def)
  have "body_answers D n (body c) = (rs, b1)" "verifying keyed s secret [] (verifier c)"
    using b1(1) v(2) by (simp_all add: c_def)
  from verified_body.poll_transfers [OF vb this(1) assms(4) this(2)] obtain c1 where
    c1: "poll_times n (poll_data K U D) c = (Inr (map passed_on rs), c1)" "body c1 = b1"
      "verifying keyed s secret (data_bytes contents rs) (verifier c1)" by auto
  have "body_poll_data D (body c1) = (Ready None, b')" using b1(2) c1(2) by simp
  from verified_body.poll_end [OF vb this c1(3)] obtain c2 where
    "poll_data K U D c1 = (Inr (verdict tag s secret (data_bytes contents rs)), c2)"
    unfolding verdict_def by blast
  then have "poll_times 1 (poll_data K U D) c1 =
      (Inr [verdict tag s secret (data_bytes contents rs)], c2)"
    by (simp add: and_then_def)
  with c1(1) have "poll_times (n + 1) (poll_data K U D) c =
      (Inr (map passed_on rs @ [verdict tag s secret (data_bytes contents rs)]), c2)"
    unfolding poll_times_add by (simp add: and_then_def)
  with new show ?thesis by auto
qed

text \<open>
  C18: reading the body of an update never diverges, hands every chunk on unchanged and in
  order, and ends with \<open>None\<close> exactly when the signature is the HMAC of the bytes handed
  on; otherwise the last answer is a signature mismatch. The verdict comes at the end of
  the body only.
\<close>

theorem content_verifies:
  assumes "mac_spec K tag keyed" "buf_spec U contents good"
    and "body_answers D (Suc n) b = (rs @ [Ready None], b')" "list_all (transfers good) rs"
  shows "\<exists>c c'. content_new K b s secret = (Inr c :: (unit, ('b, 'm) content) result) \<and>
    poll_times (Suc n) (poll_data K U D) c =
      (Inr (map passed_on rs @ [verdict tag s secret (data_bytes contents rs)]), c')"
  by (rule reading_verifies [OF assms])

text \<open>A body given as the list of its remaining answers.\<close>

definition scripted_body :: "(('e + 'd) option poll list, 'd, 'e, unit) body_ops" where
  "scripted_body = \<lparr>body_poll_data = (\<lambda>xs. case xs of [] \<Rightarrow> (Ready None, []) | x # xs \<Rightarrow> (x, xs)),
     body_poll_trailers = (\<lambda>xs. (Ready (Inr None), xs)), body_size_hint = (\<lambda>_. (0, None))\<rparr>"

theorem content_verifies_witness:
  "\<exists>c c'. content_new (buffered_mac (\<lambda>a k m. k @ m)) [Pending, Ready (Some (Inr [[1], [2, 3]]))]
      (Sha1 [9, 1, 2, 3]) [9] = (Inr c :: (unit, _) result) \<and>
    poll_times 3 (poll_data (buffered_mac (\<lambda>a k m. k @ m)) rope_buf
        (scripted_body :: ((unit + u8 list list) option poll list, _, _, _) body_ops)) c =
      (Inr [Pending, Ready (Some (Inr [[1], [2, 3]])), Ready None], c')"
proof -
  have "body_answers scripted_body (Suc 2) [Pending, Ready (Some (Inr [[1], [2, 3]]))]
    = ([Pending, Ready (Some (Inr [[1], [2, 3]]))] @ [Ready None],
       [] :: (unit + u8 list list) option poll list)"
    by (simp add: scripted_body_def numeral_2_eq_2)
  from content_verifies [OF buffered_mac.mac_spec_axioms [of "\<lambda>a k m. k @ m"]
      rope.buf_spec_axioms this,
      where s = "Sha1 [9, 1, 2, 3]" and secret = "[9]"]
  show ?thesis by (simp add: rope_good_def verdict_def numeral_3_eq_3 numeral_2_eq_2)
qed

text \<open>
  The stream is not fused. Once the verdict is given the verifier starts over with an
  empty message, so polling a body that stays at its end a second time reports a mismatch
  even after a successful verification, unless the signature also fits the empty body.
\<close>

theorem content_not_fused:
  assumes "mac_spec K tag keyed" "buf_spec U contents good"
    and "body_poll_data D b = (Ready None, b)"
  shows "\<exists>c c'. content_new K b s secret = (Inr c :: (unit, ('b, 'm) content) result) \<and>
    poll_times (Suc n) (poll_data K U D) c = (Inr (replicate (Suc n) (verdict tag s secret [])), c')"
proof -
  have vb: "verified_body K tag keyed U contents good"
    using assms(1,2) by (rule verified_body.intro)
  have again: "\<exists>c'. poll_times k (poll_data K U D) c = (Inr (replicate k (verdict tag s secret [])), c')"
    if "body c = b" "verifying keyed s secret [] (verifier c)" for k c
    using that
  proof (induction k arbitrary: c)
    case (Suc k)
    have "body_poll_data D (body c) = (Ready None, b)" using Suc.prems(1) assms(3) by simp
    from verified_body.poll_end [OF vb this Suc.prems(2)] obtain c1 where
      c1: "poll_data K U D c = (Inr (verdict tag s secret []), c1)" "body c1 = b"
        "verifying keyed s secret [] (verifier c1)"
      unfolding verdict_def by blast
    from Suc.IH [OF this(2,3)] c1(1) show ?case by (auto simp: and_then_def)
  qed simp
  obtain v where v: "(verify_with K s secret :: (unit, 'm verifier) result) = Inr v"
    "verifying keyed s secret [] v"
    using mac_spec.verify_with_verifying [OF assms(1), of s secret] by blast
  show ?thesis
    using again [of "\<lparr>body = b, verifier = v\<rparr>" "Suc n"] v by (auto simp: content_new_def)
qed

theorem content_not_fused_witness:
  "\<exists>c c'. content_new (buffered_mac (\<lambda>a k m. k @ m)) [] (Sha1 [9, 1]) [9] =
      (Inr c :: (unit, _) result) \<and>
    poll_times 2 (poll_data (buffered_mac (\<lambda>a k m. k @ m)) rope_buf
        (scripted_body :: ((unit + u8 list list) option poll list, _, _, _) body_ops)) c =
      (Inr [Ready (Some (Inl (Mismatch SignatureMismatch))),
            Ready (Some (Inl (Mismatch SignatureMismatch)))], c')"
proof -
  have "body_poll_data scripted_body [] = (Ready None, [] :: (unit + u8 list list) option poll list)"
    by (simp add: scripted_body_def)
  from content_not_fused [OF buffered_mac.mac_spec_axioms [of "\<lambda>a k m. k @ m"]
      rope.buf_spec_axioms this, where s = "Sha1 [9, 1]" and secret = "[9]" and n = 1]
  show ?thesis by (simp add: verdict_def numeral_2_eq_2)
qed

end
