(* ===== verification/Client.thy ===== *)
theory Client
  imports Hub Content
begin

text \<open>
  The HTTP client that carries requests to hubs: the alias \<open>HttpService\<close> of the trait
  \<open>tower_service::Service\<close> and the wrapper back (\<open>src/util/http_service.rs\<close>), and the future that
  \<open>send_request\<close> makes of them (\<open>src/hub.rs\<close>). The client is an argument; \<open>'s\<close> is its state,
  \<open>'f\<close> a future it returns, \<open>'w\<close> the world it acts on, and \<open>Ready(Err(e))\<close> is the fault \<open>Err e\<close>.
\<close>

section \<open>The traits\<close>

record ('s, 'q, 'f, 'a, 'w, 'e) tower_service =
  tower_poll_ready :: "('s \<times> 'w, 'e, unit poll) action"
  tower_call :: "'q \<Rightarrow> ('s \<times> 'w, 'e, 'f) action"
  tower_future_poll :: "('f \<times> 'w, 'e, 'a poll) action"

datatype 's into_service = IntoService 's

record ('s, 'q, 'f, 'a, 'w, 'e) http_service =
  http_poll_ready :: "('s \<times> 'w, 'e, unit poll) action"
  http_call :: "'q \<Rightarrow> ('s \<times> 'w, 'e, 'f) action"
  http_future_poll :: "('f \<times> 'w, 'e, 'a poll) action"
  into_service :: "'s \<Rightarrow> 's into_service"

text \<open>Every service of HTTP requests is an \<open>HttpService\<close>; its future is the service's.\<close>

definition http_service_of ::
  "('s, 'q, 'f, 'a, 'w, 'e) tower_service \<Rightarrow> ('s, 'q, 'f, 'a, 'w, 'e) http_service" where
  "http_service_of T = \<lparr>http_poll_ready = tower_poll_ready T, http_call = (\<lambda>request. tower_call T request),
     http_future_poll = tower_future_poll T, into_service = IntoService\<rparr>"

definition on_inner :: "('s \<times> 'w, 'e, 'a) action \<Rightarrow> ('s into_service \<times> 'w, 'e, 'a) action" where
  "on_inner m = (\<lambda>(this, w). case this of IntoService s \<Rightarrow>
     (case m (s, w) of (r, (s', w')) \<Rightarrow> (r, (IntoService s', w'))))"

definition into_service_impl ::
  "('s, 'q, 'f, 'a, 'w, 'e) http_service \<Rightarrow> ('s into_service, 'q, 'f, 'a, 'w, 'e) tower_service" where
  "into_service_impl H = \<lparr>tower_poll_ready = on_inner (http_poll_ready H),
     tower_call = (\<lambda>request. on_inner (http_call H request)), tower_future_poll = http_future_poll H\<rparr>"

section \<open>One request\<close>

text \<open>
  \<open>tower::ServiceExt::oneshot\<close> calls a service with a request once it is ready. What it
  does is given by a view of its state: not called yet, called, or over.
\<close>

datatype ('s, 'q, 'f) call_state = NotCalled 's 'q | Called 'f | Over

definition poll_called ::
  "('s, 'q, 'f, 'a, 'w, 'e) tower_service \<Rightarrow> 'f \<Rightarrow> 'w \<Rightarrow>
    ('e, 'a poll) result \<times> ('s, 'q, 'f) call_state \<times> 'w" where
  "poll_called T f w = (case tower_future_poll T (f, w) of
     (Inr Pending, (f', w')) \<Rightarrow> (Inr Pending, (Called f', w'))
   | (r, (_, w')) \<Rightarrow> (r, (Over, w')))"

fun call_once ::
  "('s, 'q, 'f, 'a, 'w, 'e) tower_service \<Rightarrow> (('s, 'q, 'f) call_state \<times> 'w, 'e, 'a poll) action" where
  "call_once T (NotCalled s q, w) = (case tower_poll_ready T (s, w) of
     (Inl e, (_, w')) \<Rightarrow> (Inl e, (Over, w'))
   | (Inr Pending, (s', w')) \<Rightarrow> (Inr Pending, (NotCalled s' q, w'))
   | (Inr (Ready _), (s', w')) \<Rightarrow> (case tower_call T q (s', w') of
        (Inl e, (_, w'')) \<Rightarrow> (Inl e, (Over, w''))
      | (Inr f, (_, w'')) \<Rightarrow> poll_called T f w''))"
| "call_once T (Called f, w) = poll_called T f w"
| "call_once T (Over, w) = (Inl Panic, (Over, w))"

record ('s, 'q, 'f, 'a, 'w, 'e, 'o) tower_crate =
  oneshot :: "'s \<Rightarrow> 'q \<Rightarrow> 'o"
  oneshot_poll :: "('s, 'q, 'f, 'a, 'w, 'e) tower_service \<Rightarrow> ('o \<times> 'w, 'e, 'a poll) action"

locale oneshot_spec =
  fixes X :: "('s, 'q, 'f, 'a, 'w, 'e, 'o) tower_crate" and view :: "'o \<Rightarrow> ('s, 'q, 'f) call_state"
  assumes view_oneshot: "view (oneshot X s q) = NotCalled s q"
    and view_poll: "oneshot_poll X T (o', w) = (r, (o'', w')) \<Longrightarrow> view o' \<noteq> Over \<Longrightarrow>
      \<exists>c. call_once T (view o', w) = (r, (c, w')) \<and> (r = Inr Pending \<longrightarrow> c = view o'')"

section \<open>The future of a request\<close>

text \<open>
  \<open>send_request\<close> wraps the client, sends the request and looks at the status and the
  \<open>Location\<close> of the response; the log is the last component of the state.
\<close>

definition request_sent ::
  "('s into_service, 'u hub_request, 'f, 'a, 'w, 'e, 'o) tower_crate \<Rightarrow>
    ('s, 'u hub_request, 'f, 'a, 'w, 'e) http_service \<Rightarrow> 's \<Rightarrow> 'u response_future \<Rightarrow> 'o" where
  "request_sent X H client fut = oneshot X (into_service H client) (future_request fut)"

definition map_response ::
  "'u response_future \<Rightarrow> ('o \<times> 'w, 'e, (status \<times> string option) poll) action \<Rightarrow>
    ('o \<times> 'w \<times> warning list, 'e, unit poll) action" where
  "map_response fut poll = (\<lambda>(inner, w, log). case poll (inner, w) of
     (Inl e, (inner, w)) \<Rightarrow> (Inl e, (inner, w, log))
   | (Inr Pending, (inner, w)) \<Rightarrow> (Inr Pending, (inner, w, log))
   | (Inr (Ready (st, location)), (inner, w)) \<Rightarrow>
       (Inr (Ready ()), (inner, w, log @ response_warnings fut st location)))"

definition response_future_poll ::
  "('s into_service, 'u hub_request, 'f, status \<times> string option, 'w, 'e, 'o) tower_crate \<Rightarrow>
    ('s, 'u hub_request, 'f, status \<times> string option, 'w, 'e) http_service \<Rightarrow> 'u response_future \<Rightarrow>
    ('o \<times> 'w \<times> warning list, 'e, unit poll) action" where
  "response_future_poll X H fut = map_response fut (oneshot_poll X (into_service_impl H))"

text \<open>The executor polls a future until it is ready, here \<open>n\<close> times at most.\<close>

fun polls :: "nat \<Rightarrow> ('s, 'e, 'a poll) action \<Rightarrow> ('s, 'e, 'a poll) action" where
  "polls 0 poll x = (Inr Pending, x)"
| "polls (Suc n) poll x = (case poll x of (Inr Pending, x') \<Rightarrow> polls n poll x' | (r, x') \<Rightarrow> (r, x'))"

section \<open>The alias is transparent\<close>

fun wrapped_state :: "('s, 'q, 'f) call_state \<Rightarrow> ('s into_service, 'q, 'f) call_state" where
  "wrapped_state (NotCalled s q) = NotCalled (IntoService s) q"
| "wrapped_state (Called f) = Called f"
| "wrapped_state Over = Over"

lemma map_response_apply [simp]:
  "map_response fut poll (inner, w, log) = (case poll (inner, w) of
     (Inl e, (inner, w)) \<Rightarrow> (Inl e, (inner, w, log))
   | (Inr Pending, (inner, w)) \<Rightarrow> (Inr Pending, (inner, w, log))
   | (Inr (Ready (st, location)), (inner, w)) \<Rightarrow>
       (Inr (Ready ()), (inner, w, log @ response_warnings fut st location)))"
  by (simp add: map_response_def)

lemma wrapped_calls:
  "call_once (into_service_impl (http_service_of T)) (wrapped_state c, w) =
     (case call_once T (c, w) of (r, (c', w')) \<Rightarrow> (r, (wrapped_state c', w')))"
  by (cases c) (auto simp: into_service_impl_def http_service_of_def on_inner_def poll_called_def
      split: prod.splits sum.splits poll.splits)

lemma pending_not_over: "call_once T (c, w) = (Inr Pending, (c', w')) \<Longrightarrow> c' \<noteq> Over"
  by (cases c) (auto simp: poll_called_def split: prod.splits sum.splits poll.splits)

lemma polls_of_view:
  assumes "oneshot_spec X view" "view i = wrapped_state c" "c \<noteq> Over"
    and "polls n (response_future_poll X (http_service_of T) fut) (i, w, log) = (r, (i', w', log'))"
  shows "\<exists>c'. polls n (map_response fut (call_once T)) (c, w, log) = (r, (c', w', log'))"
  using assms(2-)
proof (induction n arbitrary: i c w log)
  case (Suc n)
  let ?T = "into_service_impl (http_service_of T)"
  obtain p i1 w1 where poll: "oneshot_poll X ?T (i, w) = (p, (i1, w1))" by (metis prod_cases3)
  have "view i \<noteq> Over" using Suc.prems(1,2) by (cases c) auto
  from oneshot_spec.view_poll [OF assms(1) poll this] obtain c1 where
    "call_once ?T (wrapped_state c, w) = (p, (c1, w1))" and same: "p = Inr Pending \<longrightarrow> c1 = view i1"
    unfolding Suc.prems(1) by blast
  then obtain c2 where raw: "call_once T (c, w) = (p, (c2, w1))" and c1: "c1 = wrapped_state c2"
    unfolding wrapped_calls by (auto split: prod.splits)
  show ?case
  proof (cases "p = Inr Pending")
    case True
    with Suc.prems(3) poll have "polls n (response_future_poll X (http_service_of T) fut) (i1, w1, log) = (r, (i', w', log'))"
      by (simp add: response_future_poll_def)
    with Suc.IH [of i1 c2] same c1 True raw pending_not_over [of T c w c2 w1] show ?thesis
      by simp
  next
    case False
    with Suc.prems(3) poll raw show ?thesis
      by (auto simp: response_future_poll_def split: sum.splits poll.splits prod.splits)
  qed
qed simp

section \<open>What the client is asked\<close>

text \<open>A client that notes what it is asked and whether it was ready.\<close>

datatype 'q client_event = NotReady | IsReady | Failed | Asked 'q

definition noting ::
  "(('e, 'b) result \<Rightarrow> 'v list) \<Rightarrow> ('s \<times> 'w, 'e, 'b) action \<Rightarrow> ('s \<times> 'w \<times> 'v list, 'e, 'b) action" where
  "noting event m = (\<lambda>(s, w, seen). case m (s, w) of (r, (s', w')) \<Rightarrow> (r, (s', w', seen @ event r)))"

definition observed ::
  "('s, 'q, 'f, 'a, 'w, 'e) tower_service \<Rightarrow> ('s, 'q, 'f, 'a, 'w \<times> 'q client_event list, 'e) tower_service" where
  "observed T = \<lparr>tower_poll_ready = noting (\<lambda>r. case r of
       Inl _ \<Rightarrow> [Failed] | Inr Pending \<Rightarrow> [NotReady] | Inr (Ready _) \<Rightarrow> [IsReady]) (tower_poll_ready T),
     tower_call = (\<lambda>q. noting (\<lambda>_. [Asked q]) (tower_call T q)),
     tower_future_poll = noting (\<lambda>_. []) (tower_future_poll T)\<rparr>"

text \<open>What one request may look like to the client, with its outcome and the warnings logged.\<close>

definition one_request ::
  "'u response_future \<Rightarrow> 'u hub_request client_event list \<Rightarrow> ('e, unit poll) result \<Rightarrow> warning list \<Rightarrow> bool" where
  "one_request fut seen r log \<longleftrightarrow> (\<exists>k.
     seen = replicate k NotReady \<and> r = Inr Pending \<and> log = [] \<or>
     seen = replicate k NotReady @ [Failed] \<and> (\<exists>e. r = Inl e) \<and> log = [] \<or>
     seen = replicate k NotReady @ [IsReady, Asked (future_request fut)] \<and>
       (case r of Inl _ \<Rightarrow> log = [] | Inr Pending \<Rightarrow> log = []
        | Inr (Ready _) \<Rightarrow> \<exists>st location. log = response_warnings fut st location))"

lemma asked_polls:
  assumes "polls n (map_response fut (call_once (observed T))) (Called f, (w, seen), []) = (r, (c, (w', seen'), log))"
  shows "seen' = seen \<and> (case r of Inl _ \<Rightarrow> log = [] | Inr Pending \<Rightarrow> log = []
    | Inr (Ready _) \<Rightarrow> \<exists>st location. log = response_warnings fut st location)"
  using assms
proof (induction n arbitrary: f w)
  case (Suc n)
  obtain p f1 w1 where "tower_future_poll T (f, w) = (p, (f1, w1))" by (metis prod_cases3)
  with Suc show ?case
    by (auto simp: map_response_def poll_called_def observed_def noting_def split: sum.splits poll.splits prod.splits)
qed auto

lemma request_polls:
  assumes "polls n (map_response fut (call_once (observed T))) (NotCalled s (future_request fut), (w, replicate k NotReady), []) =
      (r, (c, (w', seen), log))"
  shows "one_request fut seen r log"
  using assms
proof (induction n arbitrary: s w k)
  case 0
  then show ?case by (auto simp: one_request_def)
next
  case (Suc n)
  obtain p s1 w1 where ready: "tower_poll_ready T (s, w) = (p, (s1, w1))" by (metis prod_cases3)
  show ?case
  proof (cases p)
    case (Inl e)
    with Suc.prems ready show ?thesis by (auto simp: observed_def noting_def one_request_def)
  next
    case (Inr a)
    show ?thesis
    proof (cases a)
      case Pending
      have "polls n (map_response fut (call_once (observed T)))
          (NotCalled s1 (future_request fut), (w1, replicate (Suc k) NotReady), []) = (r, (c, (w', seen), log))"
        using Suc.prems ready Inr Pending by (simp add: observed_def noting_def replicate_append_same)
      then show ?thesis by (rule Suc.IH)
    next
      case (Ready u)
      let ?q = "future_request fut" and ?seen = "replicate k NotReady @ [IsReady, Asked (future_request fut)]"
      obtain p2 s2 w2 where call: "tower_call T ?q (s1, w1) = (p2, (s2, w2))" by (metis prod_cases3)
      show ?thesis
      proof (cases p2)
        case (Inl e)
        with Suc.prems ready Inr Ready call show ?thesis
          by (auto simp: observed_def noting_def one_request_def)
      next
        case (Inr f)
        have "polls (Suc n) (map_response fut (call_once (observed T))) (Called f, (w2, ?seen), []) =
            (r, (c, (w', seen), log))"
          using Suc.prems ready \<open>p = Inr a\<close> Ready call Inr by (simp add: observed_def noting_def)
        from asked_polls [OF this] show ?thesis by (auto simp: one_request_def)
      qed
    qed
  qed
qed

section \<open>A reference for the crate\<close>

definition reference_oneshot ::
  "('s, 'q, 'f, 'a, 'w, 'e, ('s, 'q, 'f) call_state) tower_crate" where
  "reference_oneshot = \<lparr>oneshot = NotCalled, oneshot_poll = call_once\<rparr>"

interpretation reference_oneshot: oneshot_spec reference_oneshot id
  by unfold_locales (auto simp: reference_oneshot_def)

text \<open>A client that is ready at its second poll, and answers at the second poll of its future.\<close>

definition slow_client :: "(nat, 'q, nat, status \<times> string option, unit, unit) tower_service" where
  "slow_client = \<lparr>tower_poll_ready = (\<lambda>(n, w). (Inr (if n = 0 then Ready () else Pending), (n - 1, w))),
     tower_call = (\<lambda>q (n, w). (Inr 1, (n, w))),
     tower_future_poll = (\<lambda>(n, w). (Inr (if n = 0 then Ready (302, Some ''/'') else Pending), (n - 1, w)))\<rparr>"

section \<open>Properties\<close>

text \<open>
  C14: a request is sent once. However often the future of a request is polled, the client behind the
  alias and its wrapper is asked exactly what a client used directly is asked: it is polled until it
  is ready, then called once with the request and never again; and the warnings that are logged are
  those that the answer asks for.
\<close>

theorem request_sent_once:
  assumes "oneshot_spec X view"
    and "polls n (response_future_poll X (http_service_of (observed T)) fut)
      (request_sent X (http_service_of (observed T)) s fut, (w, []), []) = (r, (inner, (w', seen), log))"
  shows "one_request fut seen r log \<and>
    (\<exists>c. polls n (map_response fut (call_once (observed T))) (NotCalled s (future_request fut), (w, []), []) =
      (r, (c, (w', seen), log)))"
proof -
  let ?i = "request_sent X (http_service_of (observed T)) s fut"
  have "view ?i = wrapped_state (NotCalled s (future_request fut))"
    by (simp add: request_sent_def http_service_of_def oneshot_spec.view_oneshot [OF assms(1)])
  from polls_of_view [OF assms(1) this _ assms(2)] obtain c where
    direct: "polls n (map_response fut (call_once (observed T))) (NotCalled s (future_request fut), (w, []), []) =
      (r, (c, (w', seen), log))" by auto
  with request_polls [where k = 0] show ?thesis by auto
qed

theorem request_sent_once_witness:
  "\<exists>fut :: unit response_future. \<exists>inner.
     polls 3 (response_future_poll reference_oneshot (http_service_of (observed slow_client)) fut)
       (request_sent reference_oneshot (http_service_of (observed slow_client)) 1 fut, ((), []), []) =
     (Inr (Ready ()), (inner, ((), [NotReady, IsReady, Asked (future_request fut)]),
       [RedirectsTo ''t'' ''h'' ''/'', ReturnedStatus ''t'' ''h'' 302])) \<and>
     one_request fut [NotReady, IsReady, Asked (future_request fut)] (Inr (Ready ()) :: (unit, unit poll) result)
       [RedirectsTo ''t'' ''h'' ''/'', ReturnedStatus ''t'' ''h'' 302]"
proof -
  let ?fut = "\<lparr>future_hub = ''h'', future_topic = ''t'',
    future_request = \<lparr>request_uri = (), request_content_type = ''x'', request_body = ''b''\<rparr>\<rparr>"
  have run: "polls 3 (response_future_poll reference_oneshot (http_service_of (observed slow_client)) ?fut)
      (request_sent reference_oneshot (http_service_of (observed slow_client)) 1 ?fut, ((), []), []) =
     (Inr (Ready ()) :: (unit, unit poll) result, (Over, ((), [NotReady, IsReady, Asked (future_request ?fut)]),
       [RedirectsTo ''t'' ''h'' ''/'', ReturnedStatus ''t'' ''h'' 302]))"
    by (simp add: numeral_3_eq_3 response_future_poll_def request_sent_def reference_oneshot_def http_service_of_def
        into_service_impl_def on_inner_def observed_def noting_def slow_client_def poll_called_def
        response_warnings_def)
  from request_sent_once [OF reference_oneshot.oneshot_spec_axioms run] run show ?thesis by blast
qed

end
