(* ===== verification/Time.thy ===== *)
theory Time
  imports Prelude
begin

text \<open>
  \<open>src/util/time.rs\<close> and \<open>src/util/backoff.rs\<close>: Unix times, instants of the monotonic
  clock, and the exponential backoff of the accept loop. Durations are in nanoseconds.
\<close>

section \<open>Clocks\<close>

text \<open>
  A reading of both clocks; a poll of a future works with one reading. Which instants the
  platform's \<open>Instant\<close> can represent is a range.
\<close>

record clock =
  instant_now :: int
  system_time_now :: nat

record platform =
  min_instant :: int
  max_instant :: int

abbreviation nanos :: nat where "nanos \<equiv> 10 ^ 9"

definition instant_checked :: "platform \<Rightarrow> int \<Rightarrow> int option" where
  "instant_checked P t = (if min_instant P \<le> t \<and> t \<le> max_instant P then Some t else None)"

definition from_secs :: "u64 \<Rightarrow> nat" where
  "from_secs s = unat s * nanos"

definition as_secs :: "nat \<Rightarrow> u64" where
  "as_secs d = of_nat (d div nanos)"

definition now_unix :: "clock \<Rightarrow> nat" where
  "now_unix k = system_time_now k"

text \<open>\<open>Instant + Duration\<close> panics on overflow.\<close>

definition instant_from_unix :: "platform \<Rightarrow> clock \<Rightarrow> nat \<Rightarrow> ('e, int) result" where
  "instant_from_unix P k unix =
     (if now_unix k < unix
      then unwrap (instant_checked P (instant_now k + int (unix - now_unix k)))
      else unwrap (instant_checked P (instant_now k - int (now_unix k - unix))))"

text \<open>The two branches are one translation between the clocks.\<close>

definition instant_of :: "clock \<Rightarrow> nat \<Rightarrow> int" where
  "instant_of k unix = instant_now k + (int unix - int (now_unix k))"

lemma instant_from_unix_eq:
  "instant_from_unix P k unix = unwrap (instant_checked P (instant_of k unix))"
  by (simp add: instant_from_unix_def instant_of_def of_nat_diff algebra_simps)

section \<open>Sleeping\<close>

text \<open>
  A \<open>tokio::time::Sleep\<close> is its deadline. Whether it has elapsed at an instant is the
  crate's business: never before the deadline, and within its precision of a millisecond.
\<close>

type_synonym sleep = int

locale sleep_spec =
  fixes elapsed :: "sleep \<Rightarrow> int \<Rightarrow> bool"
  assumes not_early: "elapsed d now \<Longrightarrow> d \<le> now"
    and precise: "d + 10 ^ 6 \<le> now \<Longrightarrow> elapsed d now"

definition exact_sleep :: "sleep \<Rightarrow> int \<Rightarrow> bool" where
  "exact_sleep d now \<longleftrightarrow> d \<le> now"

interpretation exact_sleep: sleep_spec exact_sleep
  by unfold_locales (auto simp: exact_sleep_def)

section \<open>Backoff\<close>

record backoff_inner =
  bo_sleep :: sleep
  bo_wait :: u64

type_synonym backoff = "backoff_inner option"

definition INITIAL_WAIT :: u64 where
  "INITIAL_WAIT = 1"

definition backoff_new :: backoff where
  "backoff_new = None"

definition wait_secs :: "backoff \<Rightarrow> u64" where
  "wait_secs b = (case b of None \<Rightarrow> 0 | Some inner \<Rightarrow> bo_wait inner)"

text \<open>The argument \<open>debug\<close> compiles in the overflow check of the doubling.\<close>

definition increase :: "platform \<Rightarrow> bool \<Rightarrow> clock \<Rightarrow> backoff \<Rightarrow> ('e, backoff) result" where
  "increase P debug k b =
     (case b of
        Some inner \<Rightarrow>
          bind_result
            (if bo_wait inner = 0 then Inr (INITIAL_WAIT, instant_now k)
             else bind_result (u64_mul debug (bo_wait inner) 2) (\<lambda>w. Inr (w, bo_sleep inner)))
            (\<lambda>(w, current_deadline).
               bind_result (unwrap (instant_checked P (current_deadline + int (from_secs w)))) (\<lambda>d.
               Inr (Some \<lparr>bo_sleep = d, bo_wait = w\<rparr>)))
      | None \<Rightarrow> Inr (Some \<lparr>bo_sleep = instant_now k + int (from_secs INITIAL_WAIT), bo_wait = INITIAL_WAIT\<rparr>))"

definition backoff_reset :: "backoff \<Rightarrow> backoff" where
  "backoff_reset b = map_option (\<lambda>inner. inner\<lparr>bo_wait := 0\<rparr>) b"

text \<open>\<open>True\<close> when the future is ready.\<close>

definition backoff_poll :: "(sleep \<Rightarrow> int \<Rightarrow> bool) \<Rightarrow> clock \<Rightarrow> backoff \<Rightarrow> bool" where
  "backoff_poll elapsed k b =
     (case b of
        Some inner \<Rightarrow> if bo_wait inner > 0 then elapsed (bo_sleep inner) (instant_now k) else True
      | None \<Rightarrow> True)"

end
