(* ===== verification/Scheduler.thy ===== *)
theory Scheduler
  imports Time Database
begin

text \<open>
  \<open>src/subscriber/scheduler.rs\<close>: a future that runs a tick when its time has come and may be
  hastened from elsewhere. The handle the two share is part of the world the tick acts on;
  the scheduler itself keeps a sleep.
\<close>

section \<open>The handle\<close>

text \<open>
  The atomic \<open>next_tick\<close>, and the \<open>AtomicWaker\<close> as two flags: a task is registered, and
  a registered task has been woken. Waking takes the registered task.
\<close>

record 'g handle = "'g thread" +
  next_tick :: u64
  task_registered :: bool
  task_woken :: bool

definition wake :: "('g, 'z) handle_scheme \<Rightarrow> ('g, 'z) handle_scheme" where
  "wake h = (if task_registered h then h\<lparr>task_registered := False, task_woken := True\<rparr> else h)"

definition handle_next_tick :: "u64 option \<Rightarrow> u64" where
  "handle_next_tick first_tick = (case first_tick of None \<Rightarrow> u64_MAX | Some t \<Rightarrow> t)"

definition hasten :: "u64 \<Rightarrow> ('g, 'z) handle_scheme \<Rightarrow> ('g, 'z) handle_scheme" where
  "hasten t h =
     (let prev = next_tick h; h = h\<lparr>next_tick := min prev t\<rparr>
      in if t < prev then wake h else h)"

definition decode_next_tick ::
  "platform \<Rightarrow> clock \<Rightarrow> ('g, 'z) handle_scheme \<Rightarrow> ('e, int option) result" where
  "decode_next_tick P k h =
     (if next_tick h \<noteq> u64_MAX
      then bind_result (instant_from_unix P k (from_secs (next_tick h))) (\<lambda>t. Inr (Some t))
      else Inr None)"

definition drop_handle :: "('g, 'z) handle_scheme \<Rightarrow> ('g, 'z) handle_scheme" where
  "drop_handle h = wake h"

section \<open>The scheduler\<close>

text \<open>\<open>Pending\<close> and \<open>Ready(Ok(()))\<close>; a tick's error is the error of the action.\<close>

datatype polled = StillPending | Finished

definition scheduler_new ::
  "platform \<Rightarrow> clock \<Rightarrow> ('g, 'z) handle_scheme \<Rightarrow> ('e, sleep option) result" where
  "scheduler_new P k h = decode_next_tick P k h"

text \<open>
  \<open>alive\<close>: the handle's owner still exists. The state is the scheduler's sleep, a connection
  and the world with the handle; \<open>tick\<close> acts on the last two.
\<close>

definition scheduler_poll ::
  "platform \<Rightarrow> (sleep \<Rightarrow> int \<Rightarrow> bool) \<Rightarrow> clock \<Rightarrow> bool \<Rightarrow>
    ('c \<times> ('g, 'z) handle_scheme, 'e, u64 option) action \<Rightarrow>
    (sleep option \<times> 'c \<times> ('g, 'z) handle_scheme, 'e, polled) action" where
  "scheduler_poll P elapsed k alive tick = (\<lambda>(sleep, c, h).
     if \<not> alive then (Inr Finished, (sleep, c, h))
     else
       let h = h\<lparr>task_registered := True\<rparr>
       in case decode_next_tick P k h of
            Inl f \<Rightarrow> (Inl f, (sleep, c, h))
          | Inr next \<Rightarrow>
              (case (case (sleep, next) of
                       (Some d, Some n) \<Rightarrow> Some (if n < d then n else d)
                     | (Some d, None) \<Rightarrow> Some d
                     | (None, Some n) \<Rightarrow> Some n
                     | (None, None) \<Rightarrow> None) of
                 None \<Rightarrow> (Inr StillPending, (None, c, h))
               | Some d \<Rightarrow>
                   if \<not> elapsed d (instant_now k) then (Inr StillPending, (Some d, c, h))
                   else
                     (case tick (c, h) of
                        (Inl f, (c, h)) \<Rightarrow> (Inl f, (Some d, c, h))
                      | (Inr (Some t), (c, h)) \<Rightarrow>
                          let h = h\<lparr>next_tick := t\<rparr>
                          in (case instant_from_unix P k (from_secs t) of
                                Inl f \<Rightarrow> (Inl f, (Some d, c, h))
                              | Inr d \<Rightarrow> (Inr StillPending, (Some d, c, h)))
                      | (Inr None, (c, h)) \<Rightarrow>
                          (Inr StillPending, (None, c, h\<lparr>next_tick := u64_MAX\<rparr>)))))"

section \<open>Deadlines\<close>

text \<open>
  Clocks that agree: every reading has the same offset between the two, and the Unix time is
  one that \<open>u64\<close> seconds can count with room to spare. Then a Unix time is one instant,
  whenever it is translated.
\<close>

definition steady :: "int \<Rightarrow> clock \<Rightarrow> bool" where
  "steady K k \<longleftrightarrow> instant_now k = int (system_time_now k) + K \<and> system_time_now k < 2 ^ 62 * nanos"

definition deadline :: "int \<Rightarrow> u64 \<Rightarrow> int" where
  "deadline K t = int (from_secs t) + K"

definition representable :: "platform \<Rightarrow> int \<Rightarrow> u64 \<Rightarrow> bool" where
  "representable P K t \<longleftrightarrow> instant_checked P (deadline K t) = Some (deadline K t)"

lemma deadline_mono: "s \<le> t \<Longrightarrow> deadline K s \<le> deadline K t"
  by (simp add: deadline_def from_secs_def word_le_def)

lemma instant_from_unix_steady:
  "steady K k \<Longrightarrow> representable P K t \<Longrightarrow> instant_from_unix P k (from_secs t) = Inr (deadline K t)"
  by (simp add: instant_from_unix_eq instant_of_def now_unix_def steady_def deadline_def representable_def
      algebra_simps)

lemma decode_next_tick_steady:
  assumes "steady K k" "next_tick h \<noteq> u64_MAX \<longrightarrow> representable P K (next_tick h)"
  shows "decode_next_tick P k h =
    Inr (if next_tick h = u64_MAX then None else Some (deadline K (next_tick h)))"
  using assms by (simp add: decode_next_tick_def instant_from_unix_steady)

lemma next_tick_hasten: "next_tick (hasten t h) = min (next_tick h) t"
  by (simp add: hasten_def wake_def Let_def)

lemma hasten_flags:
  "task_registered (hasten t h) = (task_registered h \<and> \<not> t < next_tick h)"
  "task_woken (hasten t h) = (task_woken h \<or> (task_registered h \<and> t < next_tick h))"
  by (auto simp: hasten_def wake_def Let_def)

text \<open>The sleep never runs past the time that the handle shows.\<close>

definition sleep_covers :: "int \<Rightarrow> sleep option \<Rightarrow> ('g, 'z) handle_scheme \<Rightarrow> bool" where
  "sleep_covers K s h \<longleftrightarrow>
     (next_tick h \<noteq> u64_MAX \<longrightarrow> (\<forall>d. s = Some d \<longrightarrow> deadline K (next_tick h) \<le> d))"

lemma sleep_covers_hasten:
  assumes "sleep_covers K s h" "next_tick h \<noteq> u64_MAX \<or> s = None"
  shows "sleep_covers K s (hasten t h)"
proof -
  have "deadline K (min (next_tick h) t) \<le> deadline K (next_tick h)"
    by (rule deadline_mono) simp
  with assms show ?thesis by (auto simp: sleep_covers_def next_tick_hasten intro: order_trans)
qed

text \<open>What happens when the tick is due.\<close>

definition run_tick ::
  "int \<Rightarrow> ('c \<times> ('g, 'z) handle_scheme, 'e, u64 option) action \<Rightarrow> sleep \<Rightarrow> 'c \<Rightarrow> ('g, 'z) handle_scheme \<Rightarrow>
    ('e, polled) result \<times> sleep option \<times> 'c \<times> ('g, 'z) handle_scheme" where
  "run_tick K tick d c h =
     (case tick (c, h) of
        (Inl f, (c, h)) \<Rightarrow> (Inl f, (Some d, c, h))
      | (Inr (Some t), (c, h)) \<Rightarrow> (Inr StillPending, (Some (deadline K t), c, h\<lparr>next_tick := t\<rparr>))
      | (Inr None, (c, h)) \<Rightarrow> (Inr StillPending, (None, c, h\<lparr>next_tick := u64_MAX\<rparr>)))"

lemma scheduler_poll_due:
  fixes tick :: "('c \<times> ('g, 'z) handle_scheme, 'e, u64 option) action"
  assumes "steady K k" "sleep_covers K s h" "next_tick h \<noteq> u64_MAX"
    and "representable P K (next_tick h)"
    and tick: "\<And>c' h' t. tick (c, h\<lparr>task_registered := True\<rparr>) = (Inr (Some t), (c', h')) \<Longrightarrow>
      representable P K t"
  shows "scheduler_poll P elapsed k True tick (s, c, h) =
    (if elapsed (deadline K (next_tick h)) (instant_now k)
     then run_tick K tick (deadline K (next_tick h)) c (h\<lparr>task_registered := True\<rparr>)
     else (Inr StillPending, (Some (deadline K (next_tick h)), c, h\<lparr>task_registered := True\<rparr>)))"
proof -
  let ?d = "deadline K (next_tick h)" and ?h = "h\<lparr>task_registered := True\<rparr>"
  have dec: "(decode_next_tick P k ?h :: ('e, int option) result) = Inr (Some ?d)"
    using decode_next_tick_steady [OF assms(1), of ?h P] assms(3,4) by simp
  have sleep: "(case s of Some d \<Rightarrow> Some (if ?d < d then ?d else d) | None \<Rightarrow> Some ?d) = Some ?d"
    using assms(2,3) by (auto simp: sleep_covers_def split: option.splits)
  obtain r c' h' where run: "tick (c, ?h) = (r, (c', h'))" by (metis prod_cases3)
  have "instant_from_unix P k (from_secs t) = (Inr (deadline K t) :: ('e, int) result)"
    if "r = Inr (Some t)" for t
    using tick run that by (intro instant_from_unix_steady [OF assms(1)]) blast
  then show ?thesis
    using sleep
    by (cases s) (auto simp: scheduler_poll_def Let_def dec run run_tick_def split: sum.splits option.splits)
qed

lemma scheduler_poll_idle:
  assumes "steady K k" "next_tick h = u64_MAX"
  shows "scheduler_poll P elapsed k True tick (None, c, h) =
    (Inr StillPending, (None, c, h\<lparr>task_registered := True\<rparr>))"
  using assms by (simp add: scheduler_poll_def decode_next_tick_def Let_def)

section \<open>The scheduler and its handle as a state machine\<close>

text \<open>
  What a tick must keep for the scheduler: it leaves the handle to the scheduler, and the time
  it asks for is one the platform can represent, as every time that fits an \<open>i64\<close> is.
\<close>

definition times_representable :: "platform \<Rightarrow> int \<Rightarrow> bool" where
  "times_representable P K \<longleftrightarrow> (\<forall>t. unat t < 2 ^ 63 \<longrightarrow> representable P K t)"

locale ticking =
  fixes P :: platform and K :: int
    and tick :: "clock \<Rightarrow> ('c \<times> ('g, 'z) handle_scheme, 'e, u64 option) action"
  assumes platform: "times_representable P K"
    and tick_handle: "tick k (c, h) = (r, (c', h')) \<Longrightarrow>
      next_tick h' = next_tick h \<and> task_registered h' = task_registered h \<and> task_woken h' = task_woken h"
    and tick_time: "steady K k \<Longrightarrow> tick k (c, h) = (Inr (Some t), (c', h')) \<Longrightarrow> unat t < 2 ^ 63"

text \<open>
  The executor polls the scheduler, whether or not it was woken, and takes the wake-up;
  at any time between polls the handle may be hastened.
\<close>

inductive scheduler_step ::
  "platform \<Rightarrow> (sleep \<Rightarrow> int \<Rightarrow> bool) \<Rightarrow> int \<Rightarrow>
    (clock \<Rightarrow> ('c \<times> ('g, 'z) handle_scheme, 'e, u64 option) action) \<Rightarrow>
    sleep option \<times> 'c \<times> ('g, 'z) handle_scheme \<Rightarrow> sleep option \<times> 'c \<times> ('g, 'z) handle_scheme \<Rightarrow> bool"
  for P elapsed K tick where
  polls: "steady K k \<Longrightarrow>
    scheduler_poll P elapsed k True (tick k) (s, c, h\<lparr>task_woken := False\<rparr>) = (Inr StillPending, x) \<Longrightarrow>
    scheduler_step P elapsed K tick (s, c, h) x"
| hastens: "unat t < 2 ^ 63 \<Longrightarrow> scheduler_step P elapsed K tick (s, c, h) (s, c, hasten t h)"

inductive_cases scheduler_stepE: "scheduler_step P elapsed K tick (s, c, h) x"

text \<open>
  The scheduler will notice the next tick: its task has been woken, or its sleep is set to
  exactly that time. A wake-up is always possible.
\<close>

definition on_schedule :: "int \<Rightarrow> sleep option \<times> 'c \<times> ('g, 'z) handle_scheme \<Rightarrow> bool" where
  "on_schedule K = (\<lambda>(s, c, h).
     (next_tick h \<noteq> u64_MAX \<longrightarrow> unat (next_tick h) < 2 ^ 63 \<and>
        (task_woken h \<or> s = Some (deadline K (next_tick h)))) \<and>
     (next_tick h = u64_MAX \<longrightarrow> s = None) \<and>
     (task_woken h \<or> task_registered h) \<and> sleep_covers K s h)"

lemma min_u64_MAX [simp]: "min u64_MAX t = t"
  by (simp add: min_absorb2)

context ticking
begin

lemma hasten_on_schedule:
  assumes "on_schedule K (s, c, h)" "unat t < 2 ^ 63"
  shows "on_schedule K (s, c, hasten t h)"
proof -
  have "t \<noteq> u64_MAX" using assms(2) by auto
  moreover have "sleep_covers K s (hasten t h)"
    by (rule sleep_covers_hasten) (use assms(1) in \<open>auto simp: on_schedule_def\<close>)
  ultimately show ?thesis
    using assms
    by (cases "next_tick h = u64_MAX")
      (auto simp: on_schedule_def next_tick_hasten hasten_flags min_def not_le split: if_splits)
qed

lemma run_tick_on_schedule:
  assumes "steady K k" "run_tick K (tick k) d c h = (Inr StillPending, x)" "task_registered h"
  shows "on_schedule K x"
proof -
  obtain r c' h' where run: "tick k (c, h) = (r, (c', h'))" by (metis prod_cases3)
  have "t \<noteq> u64_MAX" if "unat t < 2 ^ 63" for t using that by auto
  with assms run tick_handle [OF run] show ?thesis
    by (auto simp: run_tick_def on_schedule_def sleep_covers_def dest!: tick_time [OF assms(1)]
        split: sum.splits option.splits)
qed

lemma poll_due:
  assumes "steady K k" "on_schedule K (s, c, h)" "next_tick h \<noteq> u64_MAX"
  shows "scheduler_poll P elapsed k True (tick k) (s, c, h\<lparr>task_woken := b\<rparr>) =
    (if elapsed (deadline K (next_tick h)) (instant_now k)
     then run_tick K (tick k) (deadline K (next_tick h)) c (h\<lparr>task_woken := b, task_registered := True\<rparr>)
     else (Inr StillPending,
       (Some (deadline K (next_tick h)), c, h\<lparr>task_woken := b, task_registered := True\<rparr>)))"
proof (subst scheduler_poll_due [OF assms(1)])
  let ?h = "h\<lparr>task_woken := b\<rparr>"
  show "sleep_covers K s ?h" using assms(2) by (simp add: on_schedule_def sleep_covers_def)
  show "next_tick ?h \<noteq> u64_MAX" using assms(3) by simp
  show "representable P K (next_tick ?h)"
    using platform assms(2,3) by (simp add: on_schedule_def times_representable_def)
  show "representable P K t"
    if "tick k (c, ?h\<lparr>task_registered := True\<rparr>) = (Inr (Some t), (c', h'))" for t c' h'
    using tick_time [OF assms(1) that] platform by (simp add: times_representable_def)
qed simp

lemma poll_on_schedule:
  assumes "steady K k" "on_schedule K (s, c, h)"
    and "scheduler_poll P elapsed k True (tick k) (s, c, h\<lparr>task_woken := False\<rparr>) = (Inr StillPending, x)"
  shows "on_schedule K x"
proof (cases "next_tick h = u64_MAX")
  case True
  with assms(2) have "s = None" by (simp add: on_schedule_def)
  with assms(3) True scheduler_poll_idle [OF assms(1), of "h\<lparr>task_woken := False\<rparr>" P elapsed "tick k" c]
  show ?thesis by (auto simp: on_schedule_def sleep_covers_def)
next
  case False
  let ?h = "h\<lparr>task_woken := False\<rparr>" and ?d = "deadline K (next_tick h)"
  have small: "unat (next_tick h) < 2 ^ 63" using assms(2) False by (simp add: on_schedule_def)
  note poll = poll_due [OF assms(1,2) False, of elapsed False]
  show ?thesis
  proof (cases "elapsed ?d (instant_now k)")
    case True
    with poll assms(3) have "run_tick K (tick k) ?d c (?h\<lparr>task_registered := True\<rparr>) = (Inr StillPending, x)"
      by simp
    with assms(1) show ?thesis by (rule run_tick_on_schedule) simp
  next
    case not_due: False
    with poll assms(3) small False show ?thesis by (auto simp: on_schedule_def sleep_covers_def)
  qed
qed

lemma step_on_schedule:
  assumes "scheduler_step P elapsed K tick x y" "on_schedule K x"
  shows "on_schedule K y"
  using assms by (induction rule: scheduler_step.induct) (auto intro: poll_on_schedule hasten_on_schedule)

lemma run_on_schedule:
  "(scheduler_step P elapsed K tick)\<^sup>*\<^sup>* x y \<Longrightarrow> on_schedule K x \<Longrightarrow> on_schedule K y"
  by (induction rule: rtranclp_induct) (auto intro: step_on_schedule)

end

section \<open>Properties\<close>

text \<open>
  Hastening moves the next tick only to an earlier time, wakes the scheduler's task exactly
  when it does, and otherwise changes nothing at all: the next tick is the least of the times
  it was ever hastened to.
\<close>

theorem hasten_earliest:
  "hasten t h = (if t < next_tick h then wake (h\<lparr>next_tick := t\<rparr>) else h) \<and>
   next_tick (fold hasten ts h) = Min (insert (next_tick h) (set ts))"
proof
  show "hasten t h = (if t < next_tick h then wake (h\<lparr>next_tick := t\<rparr>) else h)"
    by (cases "t < next_tick h") (simp_all add: hasten_def Let_def min_def not_less)
  show "next_tick (fold hasten ts h) = Min (insert (next_tick h) (set ts))"
  proof (induction ts arbitrary: h)
    case (Cons u ts)
    show ?case
    proof (cases "ts = []")
      case False
      with Cons show ?thesis by (simp add: next_tick_hasten ac_simps Min_insert)
    qed (simp add: next_tick_hasten)
  qed simp
qed

text \<open>A platform whose instants reach far enough, and a tick that asks for nothing.\<close>

definition wide_platform :: platform where
  "wide_platform = \<lparr>min_instant = 0, max_instant = 2 ^ 63 * 10 ^ 9\<rparr>"

lemma wide_platform: "times_representable wide_platform 0"
proof -
  have "int (unat t) * 10 ^ 9 \<le> 2 ^ 63 * 10 ^ 9" if "unat t < 2 ^ 63" for t :: u64
  proof -
    have "int (unat t) < int (2 ^ 63)" using that by (simp only: of_nat_less_iff)
    then show ?thesis by simp
  qed
  then show ?thesis
    by (simp add: times_representable_def representable_def instant_checked_def deadline_def
        from_secs_def wide_platform_def)
qed

lemma idle_ticking: "ticking wide_platform 0 (\<lambda>_. ret None)"
  by unfold_locales (auto simp: wide_platform ret_def)

text \<open>
  C21: from the moment the scheduler is spawned, whatever the order of polls, ticks and
  hastenings, it does not miss a time: if the handle shows a next tick, the scheduler's task
  has been woken or its sleep ends at exactly that time; and a later hastening can wake it.
\<close>

theorem scheduler_never_misses:
  assumes "ticking P K tick" "steady K k"
    and "next_tick h \<noteq> u64_MAX \<longrightarrow> unat (next_tick h) < 2 ^ 63" "task_woken h"
    and "(scheduler_new P k h :: (unit, sleep option) result) = Inr s"
    and "(scheduler_step P elapsed K tick)\<^sup>*\<^sup>* (s, c, h) (s', c', h')"
    and "next_tick h' \<noteq> u64_MAX"
  shows "task_woken h' \<or> (s' = Some (deadline K (next_tick h')) \<and> task_registered h')"
proof -
  have "next_tick h \<noteq> u64_MAX \<longrightarrow> representable P K (next_tick h)"
    using ticking.platform [OF assms(1)] assms(3) by (auto simp: times_representable_def)
  then have "(decode_next_tick P k h :: (unit, int option) result) =
      Inr (if next_tick h = u64_MAX then None else Some (deadline K (next_tick h)))"
    by (rule decode_next_tick_steady [OF assms(2)])
  then have "s = (if next_tick h = u64_MAX then None else Some (deadline K (next_tick h)))"
    using assms(5) by (simp add: scheduler_new_def)
  then have "on_schedule K (s, c, h)"
    using assms(3,4) by (auto simp: on_schedule_def sleep_covers_def)
  from ticking.run_on_schedule [OF assms(1,6) this] assms(7) show ?thesis
    by (auto simp: on_schedule_def)
qed

theorem scheduler_never_misses_witness:
  "task_woken (hasten 5 \<lparr>thread_rng = (), next_tick = 9, task_registered = False, task_woken = True\<rparr>)"
proof -
  let ?h = "\<lparr>thread_rng = (), next_tick = 9, task_registered = False, task_woken = True\<rparr> :: unit handle"
  let ?k = "\<lparr>instant_now = 0, system_time_now = 0\<rparr>"
  have new: "(scheduler_new wide_platform ?k ?h :: (unit, sleep option) result) = Inr (Some (deadline 0 9))"
    by (simp add: scheduler_new_def decode_next_tick_def instant_from_unix_def now_unix_def from_secs_def
        instant_checked_def wide_platform_def deadline_def u64_MAX_def)
  have step: "(scheduler_step wide_platform exact_sleep 0 (\<lambda>_. ret None))\<^sup>*\<^sup>*
      (Some (deadline 0 9), (), ?h) (Some (deadline 0 9), (), hasten 5 ?h)"
    by (intro r_into_rtranclp scheduler_step.hastens) simp
  have "next_tick (hasten 5 ?h) = 5" by (simp add: next_tick_hasten min_def)
  with scheduler_never_misses [OF idle_ticking, of ?k ?h "Some (deadline 0 9)"] new step
  show ?thesis by (auto simp: steady_def u64_MAX_def hasten_def wake_def Let_def)
qed

text \<open>
  A poll runs the tick exactly when the time that the handle shows has come, even if the
  sleep was set to a later one: before that it only sets the sleep to that time, registers the
  task and stays pending. After a tick the handle shows the time the tick asked for.
\<close>

theorem scheduler_ticks_when_due:
  assumes "ticking P K tick" "steady K k" "on_schedule K (s, c, h)" "next_tick h \<noteq> u64_MAX"
  shows "scheduler_poll P elapsed k True (tick k) (s, c, h) =
    (if elapsed (deadline K (next_tick h)) (instant_now k)
     then run_tick K (tick k) (deadline K (next_tick h)) c (h\<lparr>task_registered := True\<rparr>)
     else (Inr StillPending, (Some (deadline K (next_tick h)), c, h\<lparr>task_registered := True\<rparr>)))"
  using ticking.poll_due [OF assms, of elapsed "task_woken h"] by simp

theorem scheduler_ticks_when_due_witness:
  "scheduler_poll wide_platform exact_sleep \<lparr>instant_now = 9 * 10 ^ 9, system_time_now = 9 * 10 ^ 9\<rparr> True
     (ret None) (Some (deadline 0 12), (),
       \<lparr>thread_rng = (), next_tick = 9, task_registered = True, task_woken = True\<rparr>) =
   (Inr StillPending :: (unit, polled) result, (None, (),
       \<lparr>thread_rng = (), next_tick = u64_MAX, task_registered = True, task_woken = True\<rparr>))"
proof -
  let ?h = "\<lparr>thread_rng = (), next_tick = 9, task_registered = True, task_woken = True\<rparr> :: unit handle"
  have "on_schedule 0 (Some (deadline 0 12), (), ?h)"
    by (simp add: on_schedule_def sleep_covers_def deadline_def from_secs_def u64_MAX_def)
  from scheduler_ticks_when_due [OF idle_ticking _ this, of "\<lparr>instant_now = 9 * 10 ^ 9, system_time_now = 9 * 10 ^ 9\<rparr>"
      exact_sleep]
  show ?thesis
    by (simp add: steady_def u64_MAX_def exact_sleep_def deadline_def from_secs_def run_tick_def)
qed

end
