(* ===== verification/Service.thy ===== *)
theory Service
  imports Hub Content Scheduler
begin

text \<open>
  \<open>src/subscriber/service.rs\<close> and \<open>src/subscriber/renew_subscriptions.rs\<close>: the service that
  answers a hub's requests to the callbacks, renews the subscriptions that are about to expire
  and verifies the intent of a hub. An action acts on a connection of the pool and on the
  world: the thread, the scheduler's handle, the tasks spawned so far and the channel of
  updates. The argument \<open>now\<close> is the Unix time in seconds that the operation reads.
\<close>

section \<open>The world and the service\<close>

text \<open>
  Tasks and updates in the order they were spawned and sent; \<open>closed\<close> once the receiver of
  the channel has been dropped.
\<close>

record ('g, 'u, 'b, 'm) world = "'g handle" +
  spawned :: "'u response_future list"
  sent :: "('b, 'm, headers) update_data list"
  closed :: bool

record 'u service =
  callback :: 'u
  renewal_margin :: u64

datatype ('pe, 'ce) service_error = PoolError 'pe | ConnectionError 'ce

text \<open>\<open>try_pool!\<close> and \<open>try_conn!\<close>: the error of a step as an error of the service.\<close>

definition map_err :: "('e \<Rightarrow> 'f) \<Rightarrow> ('s, 'e, 'a) action \<Rightarrow> ('s, 'f, 'a) action" where
  "map_err f m = (\<lambda>s. case m s of
     (Inl (Err e), s') \<Rightarrow> (Inl (Err (f e)), s')
   | (Inl Panic, s') \<Rightarrow> (Inl Panic, s')
   | (Inl Diverge, s') \<Rightarrow> (Inl Diverge, s')
   | (Inr a, s') \<Rightarrow> (Inr a, s'))"

text \<open>\<open>tokio::spawn\<close>: the task runs later, on its own.\<close>

definition spawn :: "'u response_future \<Rightarrow> ('c \<times> ('g, 'u, 'b, 'm, 'z) world_scheme, 'e, unit) action" where
  "spawn task = (\<lambda>(c, w). (Inr (), (c, w\<lparr>spawned := spawned w @ [task]\<rparr>)))"

definition refresh_time :: "bool \<Rightarrow> 'u service \<Rightarrow> u64 \<Rightarrow> ('e, u64) result" where
  "refresh_time debug svc expires_at = u64_sub debug expires_at (renewal_margin svc)"

section \<open>Renewal\<close>

definition service_subscribe ::
  "('c, 'e, ('g, 'u, 'b, 'm, 'z) world_scheme) connection \<Rightarrow> ('u, 'a, 'p, 'g) crates \<Rightarrow> bool \<Rightarrow>
    'u service \<Rightarrow> string \<Rightarrow> string \<Rightarrow>
    ('c \<times> ('g, 'u, 'b, 'm, 'z) world_scheme, 'e, 'u response_future) action" where
  "service_subscribe D L debug svc hub topic = hub_subscribe D L debug (callback svc) hub topic"

definition service_unsubscribe ::
  "('c, 'e, 'w) connection \<Rightarrow> ('u, 'a, 'p, 'g) crates \<Rightarrow> 'u service \<Rightarrow> u64 \<Rightarrow> string \<Rightarrow> string \<Rightarrow>
    ('c, 'e, 'u response_future) action" where
  "service_unsubscribe D L svc i hub topic = hub_unsubscribe D L (callback svc) i hub topic"

definition renew_subscriptions ::
  "('c, 'e, ('g, 'u, 'b, 'm, 'z) world_scheme) connection \<Rightarrow> ('u, 'a, 'p, 'g) crates \<Rightarrow> bool \<Rightarrow>
    'u service \<Rightarrow> u64 \<Rightarrow> ('c \<times> ('g, 'u, 'b, 'm, 'z) world_scheme, 'e, unit) action" where
  "renew_subscriptions D L debug svc now =
     and_then (lift (bind_result (u64_add debug now (renewal_margin svc)) (\<lambda>t.
                     bind_result (u64_add debug t 1) (\<lambda>t. unwrap (i64_try_from t))))) (\<lambda>threshold.
     conn_transaction D
       (and_then (on_fst (conn_get_subscriptions_expire_before D threshold)) (\<lambda>expiring.
        if expiring = [] then ret ()
        else
          and_then (for_each expiring (\<lambda>(_, hub, topic).
            and_then (service_subscribe D L debug svc hub topic) spawn)) (\<lambda>_.
          on_fst (conn_deactivate_subscriptions_expire_before D threshold)))))"

definition tick ::
  "('c, 'pe) pool \<Rightarrow> ('c, 'e, ('g, 'u, 'b, 'm, 'z) world_scheme) connection \<Rightarrow> ('u, 'a, 'p, 'g) crates \<Rightarrow>
    bool \<Rightarrow> 'u service \<Rightarrow> u64 \<Rightarrow>
    ('c \<times> ('g, 'u, 'b, 'm, 'z) world_scheme, ('pe, 'e) service_error, u64 option) action" where
  "tick get D L debug svc now =
     and_then (map_err PoolError (on_fst get)) (\<lambda>_.
     and_then (map_err ConnectionError (renew_subscriptions D L debug svc now)) (\<lambda>_.
     and_then (map_err ConnectionError (on_fst (conn_get_next_expiry D))) (\<lambda>expiry.
     case expiry of
       None \<Rightarrow> ret None
     | Some expires_at \<Rightarrow>
         (case u64_try_from expires_at of
            None \<Rightarrow> ret (Some 0)
          | Some expires_at \<Rightarrow>
              lift (bind_result (refresh_time debug svc expires_at) (\<lambda>t. Inr (Some t)))))))"

section \<open>Verification of intent\<close>

definition verify_intent ::
  "('c, 'e, ('g, 'u, 'b, 'm, 'z) world_scheme) connection \<Rightarrow> ('u, 'a, 'p, 'g) crates \<Rightarrow> bool \<Rightarrow>
    'u service \<Rightarrow> u64 \<Rightarrow> u64 \<Rightarrow> string \<Rightarrow> ('c \<times> ('g, 'u, 'b, 'm, 'z) world_scheme, 'e, response) action" where
  "verify_intent D L debug svc now i query =
     (case verify_of_fields (form_parse (form_of L) query) of
        Some (VerifySubscribe topic challenge lease_seconds) \<Rightarrow>
          and_then (on_fst (conn_get_hub_of_inactive_subscription D i topic)) (\<lambda>found.
          (case found of
            Some hub \<Rightarrow>
              (let expires_at = (case i64_try_from (saturating_add now lease_seconds) of
                                  None \<Rightarrow> i64_MAX | Some e \<Rightarrow> e)
              in and_then (lift (refresh_time debug svc expires_at)) (\<lambda>t.
                 and_then (\<lambda>(c, w). (Inr (), (c, hasten t w))) (\<lambda>_.
                 and_then (conn_transaction D
                   (and_then (on_fst (conn_get_old_subscriptions D i hub topic)) (\<lambda>old.
                    and_then (for_each old (\<lambda>j.
                      and_then (on_fst (service_unsubscribe D L svc j hub topic)) spawn)) (\<lambda>_.
                    and_then (on_fst (conn_activate_subscription D i expires_at)) (\<lambda>_. ret ())))))
                   (\<lambda>_. ret (response_new challenge)))))
          | None \<Rightarrow> ret (empty_response NOT_FOUND)))
      | Some (VerifyUnsubscribe topic challenge) \<Rightarrow>
          and_then (on_fst (conn_subscription_exists D i topic)) (\<lambda>found.
          ret (if \<not> found then response_new challenge else empty_response NOT_FOUND))
      | None \<Rightarrow> ret (empty_response NOT_FOUND))"

section \<open>Requests\<close>

definition strip_prefix :: "string \<Rightarrow> string \<Rightarrow> string option" where
  "strip_prefix p s = (if take (length p) s = p then Some (drop (length p) s) else None)"

text \<open>The loop over the \<open>X-Hub-Signature\<close> values.\<close>

fun select_signature ::
  "features \<Rightarrow> ('u, 'a, 'p, 'g) crates \<Rightarrow> signature option \<Rightarrow> u8 list list \<Rightarrow> signature option" where
  "select_signature F L found [] = found"
| "select_signature F L found (header_value # rest) =
     (case parse F (memchr_of L) (hex_of L) header_value of
        Inl _ \<Rightarrow> select_signature F L found rest
      | Inr sig \<Rightarrow>
          (case found of
             Some prev \<Rightarrow> select_signature F L (Some (if is_preferable_to sig prev then sig else prev)) rest
           | None \<Rightarrow> select_signature F L (Some sig) rest))"

text \<open>\<open>start_send\<close>: an update sent after the receiver is gone is dropped.\<close>

definition start_send ::
  "('b, 'm, headers) update_data \<Rightarrow> ('c \<times> ('g, 'u, 'b, 'm, 'z) world_scheme, 'e, unit) action" where
  "start_send upd = (\<lambda>(c, w). (Inr (), (c, if closed w then w else w\<lparr>sent := sent w @ [upd]\<rparr>)))"

definition service_call ::
  "('c, 'pe) pool \<Rightarrow> ('c, 'e, ('g, 'u, 'b, 'm, 'z) world_scheme) connection \<Rightarrow> ('u, 'a, 'p, 'g) crates \<Rightarrow>
    'm mac_crate \<Rightarrow> features \<Rightarrow> bool \<Rightarrow> 'u service \<Rightarrow> u64 \<Rightarrow> ('u, 'b) server_request \<Rightarrow>
    ('c \<times> ('g, 'u, 'b, 'm, 'z) world_scheme, ('pe, 'e) service_error, response) action" where
  "service_call get D L K F debug svc now req =
     (case strip_prefix (uri_path (uri_of L) (callback svc)) (uri_path (uri_of L) (req_uri req)) of
        None \<Rightarrow> ret (empty_response NOT_FOUND)
      | Some tail \<Rightarrow>
          (case decode (base64_of L) tail of
             None \<Rightarrow>
               ret (empty_response
                 (if CHR ''/'' \<in> set tail \<or> uri_query (uri_of L) (req_uri req) \<noteq> None then NOT_FOUND else GONE))
           | Some i \<Rightarrow>
               and_then (map_err PoolError (on_fst get)) (\<lambda>_.
               case uri_query (uri_of L) (req_uri req) of
                 Some q \<Rightarrow> map_err ConnectionError (verify_intent D L debug svc now i q)
               | None \<Rightarrow>
                   (case select_signature F L None (get_all (req_headers req) HUB_SIGNATURE) of
                      None \<Rightarrow> ret response_default
                    | Some sig \<Rightarrow>
                        and_then (map_err ConnectionError (on_fst (conn_get_topic D i))) (\<lambda>cols.
                        case cols of
                          None \<Rightarrow> ret (empty_response GONE)
                        | Some (topic, secret) \<Rightarrow>
                            and_then (lift (content_new K (req_body req) sig (as_bytes secret))) (\<lambda>content.
                            and_then (start_send \<lparr>update_topic = topic, update_headers = req_headers req,
                              update_content = content\<rparr>) (\<lambda>_.
                            ret response_default)))))))"

section \<open>Actions on the world\<close>

lemma spawn_apply [simp]: "spawn task (c, w) = (Inr (), (c, w\<lparr>spawned := spawned w @ [task]\<rparr>))"
  by (simp add: spawn_def)

lemma map_err_cases:
  "map_err f m s = (r, t) \<Longrightarrow> \<exists>r0. m s = (r0, t) \<and>
     r = (case r0 of Inl (Err e) \<Rightarrow> Inl (Err (f e)) | Inl Panic \<Rightarrow> Inl Panic | Inl Diverge \<Rightarrow> Inl Diverge
          | Inr a \<Rightarrow> Inr a)"
  by (auto simp: map_err_def split: prod.splits sum.splits fault.splits)

section \<open>The requests of a renewal\<close>

text \<open>One new subscription per expiring one: its id, its secret and the request for it.\<close>

definition asks ::
  "('u, 'a, 'p, 'g) crates \<Rightarrow> 'u \<Rightarrow> u64 \<times> string \<times> string \<Rightarrow> u64 \<times> string \<times> 'u response_future \<Rightarrow> bool" where
  "asks L prefix = (\<lambda>(i, hub, topic) (j, secret, fut).
     posts_form L prefix j (\<lambda>cb. SubscribeForm cb topic secret) hub topic fut)"

fun insert_all ::
  "(u64 \<times> string \<times> string) list \<Rightarrow> (u64 \<times> string \<times> 'f) list \<Rightarrow> table \<Rightarrow> table" where
  "insert_all ((i, hub, topic) # xs) ((j, secret, fut) # news) m =
     insert_all xs news (created j hub topic secret m)"
| "insert_all _ _ m = m"

lemma dom_created [simp]: "dom (created i hub topic secret m) = insert i (dom m)"
  by (auto simp: created_def)

lemma insert_all_other: "i \<notin> fst ` set news \<Longrightarrow> insert_all xs news m i = m i"
  by (induction xs news m rule: insert_all.induct) (auto simp: created_def)

lemma insert_all_new:
  "distinct (map fst news) \<Longrightarrow> list_all2 R xs news \<Longrightarrow>
   list_all2 (\<lambda>(i, hub, topic) (j, secret, fut).
     insert_all xs news m j = Some \<lparr>sub_hub = hub, sub_topic = topic, sub_secret = secret,
       sub_expires_at = None\<rparr>) xs news"
proof (induction xs news m rule: insert_all.induct)
  case (1 i hub topic xs j secret fut news m)
  have "insert_all xs news (created j hub topic secret m) j = created j hub topic secret m j"
    using 1(2) by (intro insert_all_other) force
  also have "\<dots> = Some \<lparr>sub_hub = hub, sub_topic = topic, sub_secret = secret, sub_expires_at = None\<rparr>"
    by (simp add: created_def)
  finally show ?case using 1 by simp
qed auto

locale subscriber_service = hub_client L D subs up
  for L :: "('u, 'a, 'p, 'g) crates"
    and D :: "('c, 'e, ('g, 'u, 'b, 'm, 'z) world_scheme) connection"
    and subs :: "'c \<Rightarrow> table" and up :: "'c \<Rightarrow> bool" +
  fixes svc :: "'u service"
  assumes callback_prepared: "prepared (uri_of L) (callback svc)"
begin

text \<open>
  The loop of a renewal, however it ends: the requests spawned so far are those for the new
  rows so far, which have fresh ids.
\<close>

lemma renew_loop:
  assumes "for_each xs (\<lambda>(_, hub, topic). and_then (service_subscribe D L debug svc hub topic) spawn)
      (c, w) = (r, (c', w'))"
  shows "\<exists>g news. w' = w\<lparr>thread_rng := g, spawned := spawned w @ map (\<lambda>(_, _, fut). fut) news\<rparr> \<and>
    list_all2 (asks L (callback svc)) (take (length news) xs) news \<and>
    distinct (map fst news) \<and> fst ` set news \<inter> dom (subs c) = {} \<and>
    (r = Inr () \<longrightarrow> length news = length xs \<and> subs c' = insert_all xs news (subs c) \<and> (up c \<longrightarrow> up c')) \<and>
    (\<forall>e. r = Inl (Err e) \<longrightarrow> \<not> up c) \<and>
    (r = Inl Panic \<longrightarrow> (\<exists>(i, hub, topic) \<in> set xs. uri_parse (uri_of L) hub = None)) \<and>
    (r = Inl Diverge \<longrightarrow> up c \<longrightarrow> 2 ^ 64 \<le> card (dom (subs c)) + length xs)"
  using assms
proof (induction xs arbitrary: c w)
  case Nil
  then show ?case by (intro exI [of _ "thread_rng w"] exI [of _ "[]"]) auto
next
  case (Cons x xs)
  obtain i hub topic where x: "x = (i, hub, topic)" by (metis prod_cases3)
  obtain r1 c1 w1 where sub: "service_subscribe D L debug svc hub topic (c, w) = (r1, (c1, w1))"
    by (metis prod_cases3)
  note res = hub_subscribe_result [OF callback_prepared sub [unfolded service_subscribe_def]]
  obtain g1 where g1: "w1 = w\<lparr>thread_rng := g1\<rparr>" using res by blast
  show ?case
  proof (cases r1)
    case (Inl f)
    then have end_here: "r = Inl f" "w' = w1" using Cons.prems x sub by (simp_all add: and_then_def)
    have "w' = w\<lparr>thread_rng := g1, spawned := spawned w @ map (\<lambda>(_, _, fut). fut) []\<rparr>"
      using end_here(2) g1 by simp
    moreover have "\<forall>e. r = Inl (Err e) \<longrightarrow> \<not> up c" using res Inl end_here(1) by blast
    moreover have "r = Inl Panic \<longrightarrow> uri_parse (uri_of L) hub = None"
      using res Inl end_here(1) by (cases f) simp_all
    moreover have "r = Inl Diverge \<longrightarrow> up c \<longrightarrow> 2 ^ 64 \<le> card (dom (subs c)) + length (x # xs)"
    proof (intro impI)
      assume "r = Inl Diverge" "up c"
      with res Inl end_here(1) have "dom (subs c) = UNIV" by simp
      then show "2 ^ 64 \<le> card (dom (subs c)) + length (x # xs)" by (simp add: card_word)
    qed
    ultimately show ?thesis
      using end_here(1) x by (intro exI [of _ g1] exI [of _ "[]"] conjI) simp_all
  next
    case (Inr fut)
    let ?w1 = "w\<lparr>thread_rng := g1, spawned := spawned w @ [fut]\<rparr>"
    have "\<exists>j secret. j \<notin> dom (subs c) \<and> subs c1 = created j hub topic secret (subs c) \<and>
        posts_form L (callback svc) j (\<lambda>cb. SubscribeForm cb topic secret) hub topic fut"
      and up1: "up c \<Longrightarrow> up c1"
      using res Inr by simp_all
    then obtain j secret where new: "j \<notin> dom (subs c)" "subs c1 = created j hub topic secret (subs c)"
      "posts_form L (callback svc) j (\<lambda>cb. SubscribeForm cb topic secret) hub topic fut" by blast
    have "for_each xs (\<lambda>(_, hub, topic). and_then (service_subscribe D L debug svc hub topic) spawn)
        (c1, ?w1) = (r, (c', w'))"
      using Cons.prems x sub Inr g1 by (simp add: and_then_def)
    from Cons.IH [OF this] obtain g news where
      all: "w' = ?w1\<lparr>thread_rng := g, spawned := spawned ?w1 @ map (\<lambda>(_, _, fut). fut) news\<rparr> \<and>
        list_all2 (asks L (callback svc)) (take (length news) xs) news \<and>
        distinct (map fst news) \<and> fst ` set news \<inter> dom (subs c1) = {} \<and>
        (r = Inr () \<longrightarrow> length news = length xs \<and> subs c' = insert_all xs news (subs c1) \<and> (up c1 \<longrightarrow> up c')) \<and>
        (\<forall>e. r = Inl (Err e) \<longrightarrow> \<not> up c1) \<and>
        (r = Inl Panic \<longrightarrow> (\<exists>(i, hub, topic) \<in> set xs. uri_parse (uri_of L) hub = None)) \<and>
        (r = Inl Diverge \<longrightarrow> up c1 \<longrightarrow> 2 ^ 64 \<le> card (dom (subs c1)) + length xs)"
      by (elim exE) (rule that)
    note IH = all [THEN conjunct1] all [THEN conjunct2, THEN conjunct1]
      all [THEN conjunct2, THEN conjunct2, THEN conjunct1]
      all [THEN conjunct2, THEN conjunct2, THEN conjunct2, THEN conjunct1]
      all [THEN conjunct2, THEN conjunct2, THEN conjunct2, THEN conjunct2, THEN conjunct1]
      all [THEN conjunct2, THEN conjunct2, THEN conjunct2, THEN conjunct2, THEN conjunct2, THEN conjunct1]
      all [THEN conjunct2, THEN conjunct2, THEN conjunct2, THEN conjunct2, THEN conjunct2, THEN conjunct2,
        THEN conjunct1]
      all [THEN conjunct2, THEN conjunct2, THEN conjunct2, THEN conjunct2, THEN conjunct2, THEN conjunct2,
        THEN conjunct2]
    have card: "card (dom (subs c1)) = Suc (card (dom (subs c)))" using new(1,2) by simp
    show ?thesis
    proof (intro exI [of _ g] exI [of _ "(j, secret, fut) # news"] conjI)
      show "w' = w\<lparr>thread_rng := g, spawned := spawned w @ map (\<lambda>(_, _, fut). fut) ((j, secret, fut) # news)\<rparr>"
        using IH(1) by simp
      show "list_all2 (asks L (callback svc)) (take (length ((j, secret, fut) # news)) (x # xs))
          ((j, secret, fut) # news)"
        using IH(2) new(3) x by (simp add: asks_def)
      show "distinct (map fst ((j, secret, fut) # news))"
        using IH(3,4) new(2) by auto
      show "fst ` set ((j, secret, fut) # news) \<inter> dom (subs c) = {}"
        using IH(4) new(1,2) by auto
      show "r = Inr () \<longrightarrow> length ((j, secret, fut) # news) = length (x # xs) \<and>
          subs c' = insert_all (x # xs) ((j, secret, fut) # news) (subs c) \<and> (up c \<longrightarrow> up c')"
        using IH(5) new(2) x up1 by simp
      show "\<forall>e. r = Inl (Err e) \<longrightarrow> \<not> up c" using IH(6) up1 by blast
      show "r = Inl Panic \<longrightarrow> (\<exists>(i, hub, topic) \<in> set (x # xs). uri_parse (uri_of L) hub = None)"
        using IH(7) by auto
      show "r = Inl Diverge \<longrightarrow> up c \<longrightarrow> 2 ^ 64 \<le> card (dom (subs c)) + length (x # xs)"
        using IH(8) card up1 by simp
    qed
  qed
qed

end

section \<open>Renewal\<close>

text \<open>
  What a renewal at the threshold \<open>t\<close> leaves: the expiring subscriptions inactive, and for
  each of them one fresh inactive subscription to the same topic at the same hub.
\<close>

definition renewed ::
  "('u, 'a, 'p, 'g) crates \<Rightarrow> 'u \<Rightarrow> i64 \<Rightarrow> table \<Rightarrow> table \<Rightarrow> 'u response_future list \<Rightarrow> bool" where
  "renewed L prefix t m m' futs \<longleftrightarrow> (\<exists>xs news.
     distinct (map fst xs) \<and> set xs = expiring t m \<and> list_all2 (asks L prefix) xs news \<and>
     distinct (map fst news) \<and> fst ` set news \<inter> dom m = {} \<and>
     m' = deactivated t (insert_all xs news m) \<and> futs = map (\<lambda>(_, _, fut). fut) news)"

lemma deactivated_none: "expiring t m = {} \<Longrightarrow> deactivated t m = m"
proof
  fix i assume "expiring t m = {}"
  then have "\<not> expires_before t s" if "m i = Some s" for s
    using that by (force simp: expiring_def)
  then show "deactivated t m i = m i" by (cases "m i") (simp_all add: deactivated_def)
qed

lemma renewed_old:
  fixes futs :: "'u response_future list"
  assumes "renewed L prefix t m m' futs" "m i = Some s"
  shows "m' i = Some (if expires_before t s then s\<lparr>sub_expires_at := None\<rparr> else s)"
proof -
  from assms(1) obtain xs and news :: "(u64 \<times> string \<times> 'u response_future) list" where r: "fst ` set news \<inter> dom m = {}"
    "m' = deactivated t (insert_all xs news m)"
    unfolding renewed_def by (elim exE conjE) (rule that)
  have "i \<notin> fst ` set news" using r(1) assms(2) by blast
  then have "insert_all xs news m i = Some s" using assms(2) by (simp add: insert_all_other)
  with r(2) show ?thesis by (simp add: deactivated_def)
qed

lemma renewed_no_expiring:
  assumes "renewed L prefix t m m' futs" "m' i = Some s"
  shows "\<not> expires_before t s"
  using assms by (auto simp: renewed_def deactivated_def split: if_splits)

definition renewal_threshold :: "bool \<Rightarrow> 'u service \<Rightarrow> u64 \<Rightarrow> ('e, i64) result" where
  "renewal_threshold debug svc now =
     bind_result (u64_add debug now (renewal_margin svc)) (\<lambda>t.
     bind_result (u64_add debug t 1) (\<lambda>t. unwrap (i64_try_from t)))"

lemma renewal_threshold_cases:
  obtains t where "renewal_threshold debug svc now = (Inr t :: ('e, i64) result)"
  | "renewal_threshold debug svc now = (Inl Panic :: ('e, i64) result)"
proof -
  have add: "u64_add debug a b = Inl Panic \<or> (\<exists>x. u64_add debug a b = (Inr x :: ('e, u64) result))" for a b
    by (simp add: u64_add_def)
  have conv: "unwrap (i64_try_from x) = Inl Panic \<or> (\<exists>t. unwrap (i64_try_from x) = (Inr t :: ('e, i64) result))" for x
    by (cases "i64_try_from x") simp_all
  show thesis
    using that add conv unfolding renewal_threshold_def by (metis bind_result.simps)
qed

lemma renewal_threshold_exact:
  assumes "unat now + unat (renewal_margin svc) + 1 < 2 ^ 63"
  obtains t where "renewal_threshold debug svc now = (Inr t :: ('e, i64) result)"
    "sint t = int (unat now + unat (renewal_margin svc) + 1)"
proof -
  let ?s = "now + renewal_margin svc"
  have s: "u64_add debug now (renewal_margin svc) = (Inr ?s :: ('e, u64) result) \<and>
      unat ?s = unat now + unat (renewal_margin svc)"
    by (rule u64_add_exact) (use assms in simp)
  moreover have t: "u64_add debug ?s 1 = (Inr (?s + 1) :: ('e, u64) result) \<and> unat (?s + 1) = unat ?s + unat (1 :: u64)"
    by (rule u64_add_exact) (use assms s in simp)
  moreover have small: "unat (?s + 1) < 2 ^ 63" using s t assms by simp
  ultimately have "renewal_threshold debug svc now = (Inr (?s + 1) :: ('e, i64) result)"
    by (simp add: renewal_threshold_def i64_try_from_def)
  moreover have "sint (?s + 1) = int (unat (?s + 1))"
    using small by (simp add: sint_nonneg_eq sint_nonneg_iff)
  ultimately show thesis using that s t by simp
qed

text \<open>The hubs of the expiring subscriptions are URIs.\<close>

definition hubs_valid :: "('u, 'a, 'p, 'g) crates \<Rightarrow> i64 \<Rightarrow> table \<Rightarrow> bool" where
  "hubs_valid L t m \<longleftrightarrow> (\<forall>(i, hub, topic) \<in> expiring t m. uri_parse (uri_of L) hub \<noteq> None)"

context subscriber_service
begin

definition renewal_body where
  "renewal_body debug threshold =
       (and_then (on_fst (conn_get_subscriptions_expire_before D threshold)) (\<lambda>expiring.
        if expiring = [] then ret ()
        else
          and_then (for_each expiring (\<lambda>(_, hub, topic).
            and_then (service_subscribe D L debug svc hub topic) spawn)) (\<lambda>_.
          on_fst (conn_deactivate_subscriptions_expire_before D threshold))))"

lemma renew_subscriptions_eq:
  "renew_subscriptions D L debug svc now =
     and_then (lift (renewal_threshold debug svc now)) (\<lambda>t. conn_transaction D (renewal_body debug t))"
  by (simp add: renew_subscriptions_def renewal_threshold_def renewal_body_def)

lemma renewal_body_result:
  assumes "renewal_body debug t (c, w) = (r, (c', w'))"
  shows "\<exists>g futs. w' = w\<lparr>thread_rng := g, spawned := spawned w @ futs\<rparr> \<and>
    (r = Inr () \<longrightarrow> renewed L (callback svc) t (subs c) (subs c') futs \<and> (up c \<longrightarrow> up c')) \<and>
    (\<forall>e. r = Inl (Err e) \<longrightarrow> \<not> up c) \<and>
    (r = Inl Panic \<longrightarrow> \<not> hubs_valid L t (subs c)) \<and>
    (r = Inl Diverge \<longrightarrow> up c \<longrightarrow> 2 ^ 64 \<le> 2 * card (dom (subs c)))"
proof -
  have same: "w = w\<lparr>thread_rng := thread_rng w, spawned := spawned w @ []\<rparr>" by simp
  obtain r1 t1 where q: "on_fst (conn_get_subscriptions_expire_before D t) (c, w) = (r1, t1)"
    by (metis surj_pair)
  show ?thesis
    using get_subscriptions_expire_before q
  proof (cases rule: statement_on_fstE)
    case (err e c1)
    with assms q have "r = Inl (Err e)" "w' = w" by (simp_all add: renewal_body_def and_then_def)
    with err same show ?thesis
      by (intro exI [of _ "thread_rng w"] exI [of _ "[]"]) simp
  next
    case (ok xs c1)
    then have xs: "subs c1 = subs c" "distinct (map fst xs)" "set xs = expiring t (subs c)" by simp_all
    show ?thesis
    proof (cases "xs = []")
      case True
      with assms q ok have "r = Inr ()" "c' = c1" "w' = w" by (simp_all add: renewal_body_def and_then_def)
      moreover have "renewed L (callback svc) t (subs c) (subs c) []"
        unfolding renewed_def using xs True
        by (intro exI [of _ "[]"]) (simp add: deactivated_none)
      ultimately show ?thesis
        using ok xs same by (intro exI [of _ "thread_rng w"] exI [of _ "[]"]) simp
    next
      case False
      obtain r2 c2 w2 where loop: "for_each xs (\<lambda>(_, hub, topic).
          and_then (service_subscribe D L debug svc hub topic) spawn) (c1, w) = (r2, (c2, w2))"
        by (metis prod_cases3)
      from renew_loop [OF loop] obtain g news where
        news: "w2 = w\<lparr>thread_rng := g, spawned := spawned w @ map (\<lambda>(_, _, fut). fut) news\<rparr>"
          "list_all2 (asks L (callback svc)) (take (length news) xs) news"
          "distinct (map fst news)" "fst ` set news \<inter> dom (subs c1) = {}"
        and finished: "r2 = Inr () \<longrightarrow> length news = length xs \<and> subs c2 = insert_all xs news (subs c1) \<and>
            (up c1 \<longrightarrow> up c2)"
        and faults: "\<forall>e. r2 = Inl (Err e) \<longrightarrow> \<not> up c1"
          "r2 = Inl Panic \<longrightarrow> (\<exists>(i, hub, topic) \<in> set xs. uri_parse (uri_of L) hub = None)"
          "r2 = Inl Diverge \<longrightarrow> up c1 \<longrightarrow> 2 ^ 64 \<le> card (dom (subs c1)) + length xs"
        by (elim exE conjE) (rule that)
      have "fst ` set xs \<subseteq> dom (subs c)" using xs(3) by (force simp: expiring_def)
      then have "length xs \<le> card (dom (subs c))"
        using xs(2) by (metis card_mono distinct_card finite length_map list.set_map)
      note bound = this
      show ?thesis
      proof (cases r2)
        case (Inl f)
        with assms q ok(1,2) loop False have "r = Inl f" "w' = w2"
          by (simp_all add: renewal_body_def and_then_def)
        moreover have "r2 = Inl Panic \<longrightarrow> \<not> hubs_valid L t (subs c)"
          using faults(2) xs(3) unfolding hubs_valid_def by fastforce
        ultimately show ?thesis
          using Inl news(1) faults(1,3) ok(4) xs(1) bound
          by (intro exI [of _ g] exI [of _ "map (\<lambda>(_, _, fut). fut) news"]) (cases f; auto)
      next
        case (Inr u)
        obtain r3 t3 where d: "on_fst (conn_deactivate_subscriptions_expire_before D t) (c2, w2) = (r3, t3)"
          by (metis surj_pair)
        with assms q ok(1,2) loop False Inr have r: "(r, (c', w')) = (r3, t3)"
          by (simp add: renewal_body_def and_then_def)
        show ?thesis
          using deactivate_subscriptions_expire_before d
        proof (cases rule: statement_on_fstE)
          case (err e c3)
          with r have "r = Inl (Err e)" "w' = w2" by simp_all
          then show ?thesis using err finished Inr news(1) ok(4)
            by (intro exI [of _ g] exI [of _ "map (\<lambda>(_, _, fut). fut) news"]) auto
        next
          case ok': (ok v c3)
          have "renewed L (callback svc) t (subs c) (subs c3) (map (\<lambda>(_, _, fut). fut) news)"
            unfolding renewed_def using xs news finished Inr ok'(3)
            by (intro exI [of _ xs] exI [of _ news]) simp
          moreover have "r = Inr ()" "w' = w2" "c' = c3" using r ok' by simp_all
          ultimately show ?thesis using finished Inr news(1) ok(4) ok'
            by (intro exI [of _ g] exI [of _ "map (\<lambda>(_, _, fut). fut) news"]) auto
        qed
      qed
    qed
  qed
qed

lemma renew_subscriptions_result:
  assumes "renew_subscriptions D L debug svc now (c, w) = (r, (c', w'))"
  shows "\<exists>g futs. w' = w\<lparr>thread_rng := g, spawned := spawned w @ futs\<rparr> \<and>
    (case r of
       Inr _ \<Rightarrow> \<exists>t. renewal_threshold debug svc now = (Inr t :: ('e, i64) result) \<and>
         renewed L (callback svc) t (subs c) (subs c') futs \<and> (up c \<longrightarrow> up c')
     | Inl (Err e) \<Rightarrow> \<not> up c \<and> subs c' = subs c
     | Inl Panic \<Rightarrow> renewal_threshold debug svc now = (Inl Panic :: ('e, i64) result) \<or>
         (\<exists>t. renewal_threshold debug svc now = (Inr t :: ('e, i64) result) \<and> \<not> hubs_valid L t (subs c))
     | Inl Diverge \<Rightarrow> up c \<longrightarrow> 2 ^ 64 \<le> 2 * card (dom (subs c)))"
proof -
  have same: "w = w\<lparr>thread_rng := thread_rng w, spawned := spawned w @ []\<rparr>" by simp
  consider t where "renewal_threshold debug svc now = (Inr t :: ('e, i64) result)"
    | "renewal_threshold debug svc now = (Inl Panic :: ('e, i64) result)"
    by (rule renewal_threshold_cases)
  then show ?thesis
  proof cases
    case 2
    with assms have "r = Inl Panic" "w' = w" by (simp_all add: renew_subscriptions_eq and_then_def lift_def)
    with 2 same show ?thesis by (intro exI [of _ "thread_rng w"] exI [of _ "[]"]) simp
  next
    case 1
    then have "conn_transaction D (renewal_body debug t) (c, w) = (r, (c', w'))"
      using assms by (simp add: renew_subscriptions_eq and_then_def lift_def)
    with transaction show ?thesis
    proof (cases rule: transactionE)
      case (not_begun e)
      with same show ?thesis by (intro exI [of _ "thread_rng w"] exI [of _ "[]"]) simp
    next
      case (committed c1 a c2)
      from renewal_body_result [OF committed(3)] obtain g futs where
        "w' = w\<lparr>thread_rng := g, spawned := spawned w @ futs\<rparr>"
        "renewed L (callback svc) t (subs c) (subs c2) futs" "up c1 \<longrightarrow> up c2"
        using committed(1) by auto
      with committed 1 show ?thesis by (intro exI [of _ g] exI [of _ futs]) simp
    next
      case (not_committed c1 a c2 e)
      from renewal_body_result [OF not_committed(3)] obtain g futs where
        "w' = w\<lparr>thread_rng := g, spawned := spawned w @ futs\<rparr>" "up c1 \<longrightarrow> up c2" by auto
      with not_committed show ?thesis by (intro exI [of _ g] exI [of _ futs]) auto
    next
      case (rolled_back c1 c2 e)
      from renewal_body_result [OF rolled_back(3)] obtain g futs where
        "w' = w\<lparr>thread_rng := g, spawned := spawned w @ futs\<rparr>" "\<not> up c1" by auto
      with rolled_back show ?thesis by (intro exI [of _ g] exI [of _ futs]) auto
    next
      case (no_return c1 c2)
      from renewal_body_result [OF no_return(3)] obtain g futs where
        "w' = w\<lparr>thread_rng := g, spawned := spawned w @ futs\<rparr>"
        "r = Inl Panic \<longrightarrow> \<not> hubs_valid L t (subs c)"
        "r = Inl Diverge \<longrightarrow> up c1 \<longrightarrow> 2 ^ 64 \<le> 2 * card (dom (subs c))"
        using no_return(1) by auto
      with no_return 1 show ?thesis by (intro exI [of _ g] exI [of _ futs]) auto
    qed
  qed
qed

end

end
