(* ===== verification/Renewal.thy ===== *)
theory Renewal
  imports Service
begin

text \<open>
  What a renewal and the tick of \<open>RenewSubscriptions\<close> achieve: the expiring subscriptions are
  asked for anew under fresh ids, the next tick is the exact time at which the earliest of the
  remaining ones falls within the margin, and an error leaves the table alone.
\<close>

section \<open>The tick\<close>

text \<open>The value of a tick whose first remaining expiry is \<open>e\<close>.\<close>

definition next_tick_of :: "bool \<Rightarrow> 'u service \<Rightarrow> i64 option \<Rightarrow> ('e, u64 option) result" where
  "next_tick_of debug svc e =
     (case e of
        None \<Rightarrow> Inr None
      | Some e \<Rightarrow>
          (case u64_try_from e of
             None \<Rightarrow> Inr (Some 0)
           | Some e \<Rightarrow> bind_result (refresh_time debug svc e) (\<lambda>t. Inr (Some t))))"

text \<open>
  An expiry beyond the threshold of a renewal is a Unix time beyond the margin: the time of
  the next tick does not underflow, in either profile.
\<close>

lemma sint_unat: "0 \<le> sint (e :: i64) \<Longrightarrow> int (unat e) = sint e"
  by (simp add: sint_nonneg_eq sint_nonneg_iff)

lemma refresh_time_late:
  assumes "int (unat (renewal_margin svc)) \<le> sint e"
  shows "refresh_time debug svc e = (Inr (e - renewal_margin svc) :: ('e, u64) result)"
    and "int (unat (e - renewal_margin svc)) = sint e - int (unat (renewal_margin svc))"
proof -
  have "0 \<le> sint e" using assms by linarith
  then have e: "int (unat e) = sint e" by (rule sint_unat)
  have le: "renewal_margin svc \<le> e" using assms e by (simp add: word_le_def)
  then have sub: "u64_sub debug e (renewal_margin svc) = (Inr (e - renewal_margin svc) :: ('e, u64) result) \<and>
      unat (e - renewal_margin svc) = unat e - unat (renewal_margin svc)"
    by (rule u64_sub_exact)
  then show "refresh_time debug svc e = (Inr (e - renewal_margin svc) :: ('e, u64) result)"
    by (simp add: refresh_time_def)
  show "int (unat (e - renewal_margin svc)) = sint e - int (unat (renewal_margin svc))"
    using le unfolding conjunct2 [OF sub] e [symmetric] by (intro of_nat_diff) (simp add: word_le_nat_alt)
qed

lemma next_tick_of_late:
  assumes "int (unat (renewal_margin svc)) \<le> sint e"
  shows "next_tick_of debug svc (Some e) = (Inr (Some (e - renewal_margin svc)) :: ('e, u64 option) result)"
proof -
  have "0 \<le> sint e" using assms by linarith
  then show ?thesis by (simp add: next_tick_of_def u64_try_from_def refresh_time_late(1) [OF assms])
qed

lemma first_expiry_late:
  assumes "renewed L prefix t m m' futs" "first_expiry m' (Some e)"
  shows "sint t < sint e"
  using assms by (auto simp: first_expiry_def not_le dest!: renewed_no_expiring)

lemma renewed_none:
  assumes "expiring t m = {}" "renewed L prefix t m m' futs"
  shows "m' = m \<and> futs = []"
  using assms by (auto simp: renewed_def deactivated_none)

text \<open>The steps that a tick is made of, and where it may end early.\<close>

context subscriber_service
begin

lemma tick_steps:
  assumes "statement subs up get (\<lambda>m _ m'. m' = m)"
    and "tick get D L debug svc now (c, w) = (r, (c', w'))"
  obtains (no_connection) e where "r = Inl (Err (PoolError e))" "subs c' = subs c" "w' = w" "\<not> up c"
  | (not_renewed) c1 f where "subs c1 = subs c" "up c \<Longrightarrow> up c1"
      "renew_subscriptions D L debug svc now (c1, w) = (Inl f, (c', w'))"
      "r = (case f of Err e \<Rightarrow> Inl (Err (ConnectionError e)) | Panic \<Rightarrow> Inl Panic | Diverge \<Rightarrow> Inl Diverge)"
  | (no_expiry) c1 c2 e where "subs c1 = subs c" "up c \<Longrightarrow> up c1"
      "renew_subscriptions D L debug svc now (c1, w) = (Inr (), (c2, w'))"
      "r = Inl (Err (ConnectionError e))" "subs c' = subs c2" "\<not> up c2"
  | (renewed) c1 c2 e where "subs c1 = subs c" "up c \<Longrightarrow> up c1"
      "renew_subscriptions D L debug svc now (c1, w) = (Inr (), (c2, w'))"
      "first_expiry (subs c') e" "subs c' = subs c2" "up c2 \<Longrightarrow> up c'" "r = next_tick_of debug svc e"
proof -
  obtain r1 t1 where get: "on_fst get (c, w) = (r1, t1)" by (metis surj_pair)
  show thesis
    using assms(1) get
  proof (cases rule: statement_on_fstE)
    case (err e c1)
    with assms(2) get have "r = Inl (Err (PoolError e))" "c' = c1" "w' = w"
      by (simp_all add: tick_def and_then_def map_err_def)
    with err show thesis by (intro no_connection) simp_all
  next
    case (ok a c1)
    then have t1: "on_fst get (c, w) = (Inr a, (c1, w))" and c1: "subs c1 = subs c" "up c \<Longrightarrow> up c1"
      using get by simp_all
    obtain r2 c2 w2 where renew: "renew_subscriptions D L debug svc now (c1, w) = (r2, (c2, w2))"
      by (metis prod_cases3)
    show thesis
    proof (cases r2)
      case (Inl f)
      with assms(2) t1 renew have "c' = c2" "w' = w2"
        "r = (case f of Err e \<Rightarrow> Inl (Err (ConnectionError e)) | Panic \<Rightarrow> Inl Panic | Diverge \<Rightarrow> Inl Diverge)"
        by (cases f; simp add: tick_def and_then_def map_err_def)+
      with c1 renew Inl show thesis by (intro not_renewed [of c1 f]) simp_all
    next
      case (Inr u)
      obtain r3 t3 where expiry: "on_fst (conn_get_next_expiry D) (c2, w2) = (r3, t3)" by (metis surj_pair)
      show thesis
        using get_next_expiry expiry
      proof (cases rule: statement_on_fstE)
        case (err e c3)
        with assms(2) t1 renew Inr expiry have "r = Inl (Err (ConnectionError e))" "c' = c3" "w' = w2"
          by (simp_all add: tick_def and_then_def map_err_def)
        with c1 renew Inr err show thesis by (intro no_expiry [of c1 c2 e]) simp_all
      next
        case (ok e c3)
        with assms(2) t1 renew Inr expiry have "r = next_tick_of debug svc e" "c' = c3" "w' = w2"
          by (auto simp: tick_def and_then_def map_err_def next_tick_of_def lift_def split: option.splits)
        with c1 renew Inr ok show thesis by (intro renewed [of c1 c2 e]) simp_all
      qed
    qed
  qed
qed

end

section \<open>The tick under the scheduler\<close>

text \<open>A reference service: the in-memory database, the reference crates, a margin of an hour.\<close>

definition mem_svc :: "(string \<times> string option) service" where
  "mem_svc = \<lparr>callback = (''http://sub'', Some ''/''), renewal_margin = 3600\<rparr>"

text \<open>A world at rest, with the next tick at time 5.\<close>

definition mem_world :: "(u64, string \<times> string option, 'b, 'm) world" where
  "mem_world = \<lparr>thread_rng = 7, next_tick = 5, task_registered = True, task_woken = False,
     spawned = [], sent = [], closed = False\<rparr>"

lemma mem_world_simps [simp]:
  "spawned mem_world = []" "mem_world\<lparr>thread_rng := 7\<rparr> = mem_world"
  by (simp_all add: mem_world_def)

abbreviation quiet_world :: "(u64, string \<times> string option, unit, unit) world" where
  "quiet_world \<equiv> mem_world"

definition mem_sub :: sub where
  "mem_sub = \<lparr>sub_hub = ''h'', sub_topic = ''t'', sub_secret = ''s'', sub_expires_at = Some 10000\<rparr>"

interpretation mem_svc: subscriber_service reference_crates "diesel2_connection mem_diesel counter_rng"
  mem_table mem_up mem_svc
proof (intro subscriber_service.intro subscriber_service_axioms.intro hub_clientI)
  show "crates_spec reference_crates" by (rule reference_crates.crates_spec_axioms)
  show "connection_ref (diesel2_connection mem_diesel counter_rng) (rand_of reference_crates) mem_table mem_up"
    by (rule mem_connection)
  show "prepared (uri_of reference_crates) (callback mem_svc)"
    by (simp add: mem_svc_def prepared_def reference_crates_def text_uri_def)
qed

lemma always_statement: "statement tbl up (ret ()) (\<lambda>m _ m'. m' = m)"
  by (simp add: statement_def)

lemma as_secs_exact: "d < 2 ^ 62 * nanos \<Longrightarrow> unat (as_secs d) < 2 ^ 62"
proof -
  assume d: "d < 2 ^ 62 * nanos"
  have "d div nanos < 2 ^ 62"
    using d less_mult_imp_div_less [of d "2 ^ 62" nanos] by simp
  moreover have "unat (as_secs d) = d div nanos mod 2 ^ 64" by (simp add: as_secs_def unat_of_nat)
  ultimately show ?thesis by simp
qed

lemma steady_now:
  "steady K k \<Longrightarrow> unat margin < 2 ^ 62 \<Longrightarrow> unat (as_secs (now_unix k)) + unat (margin :: u64) + 1 < 2 ^ 63"
  using as_secs_exact [of "now_unix k"] by (simp add: steady_def now_unix_def)

text \<open>The time a tick at \<open>now\<close> asks for when the first expiry it leaves is \<open>e\<close>.\<close>

definition next_tick_after :: "'u service \<Rightarrow> u64 \<Rightarrow> i64 option \<Rightarrow> u64 option \<Rightarrow> bool" where
  "next_tick_after svc now e n \<longleftrightarrow>
     (case e of None \<Rightarrow> n = None
      | Some e \<Rightarrow> \<exists>t. n = Some t \<and> int (unat t) = sint e - int (unat (renewal_margin svc)) \<and>
          unat now + 1 < unat t)"

lemma next_tick_after_some:
  assumes "next_tick_after svc now e (Some t)"
  obtains e' :: i64 where "int (unat t) = sint e' - int (unat (renewal_margin svc))"
proof (cases e)
  case None
  with assms show thesis by (simp add: next_tick_after_def)
next
  case (Some e')
  with assms have "int (unat t) = sint e' - int (unat (renewal_margin svc))" by (simp add: next_tick_after_def)
  then show thesis by (rule that)
qed

context subscriber_service
begin

text \<open>Whatever a tick returns, it draws numbers and spawns requests, and leaves the handle alone.\<close>

lemma tick_world:
  assumes "statement subs up get (\<lambda>m _ m'. m' = m)"
    and "tick get D L debug svc now (c, w) = (r, (c', w'))"
  shows "\<exists>g futs. w' = w\<lparr>thread_rng := g, spawned := spawned w @ futs\<rparr>"
  using assms
proof (cases rule: tick_steps)
  case no_connection
  then show ?thesis by (intro exI [of _ "thread_rng w"] exI [of _ "[]"]) simp
qed (blast dest: renew_subscriptions_result)+

text \<open>A tick that returns a time returns the one of the first expiry it left.\<close>

lemma renewed_next_tick:
  assumes "unat now + unat (renewal_margin svc) + 1 < 2 ^ 63"
    and "renew_subscriptions D L debug svc now (c, w) = (Inr (), (c', w'))" "first_expiry (subs c') e"
  obtains th g futs n where "sint th = int (unat now + unat (renewal_margin svc) + 1)"
    "w' = w\<lparr>thread_rng := g, spawned := spawned w @ futs\<rparr>"
    "renewed L (callback svc) th (subs c) (subs c') futs" "up c \<Longrightarrow> up c'"
    "next_tick_of debug svc e = (Inr n :: ('f, u64 option) result)" "next_tick_after svc now e n"
proof -
  from renewal_threshold_exact [OF assms(1)] obtain th where
    th: "renewal_threshold debug svc now = (Inr th :: ('e, i64) result)"
    "sint th = int (unat now + unat (renewal_margin svc) + 1)" by blast
  from renew_subscriptions_result [OF assms(2)] th(1) obtain g futs where
    w': "w' = w\<lparr>thread_rng := g, spawned := spawned w @ futs\<rparr>"
    and r: "renewed L (callback svc) th (subs c) (subs c') futs" and up: "up c \<longrightarrow> up c'" by auto
  show thesis
  proof (cases e)
    case None
    then have "next_tick_of debug svc e = (Inr None :: ('f, u64 option) result)" "next_tick_after svc now e None"
      by (simp_all add: next_tick_of_def next_tick_after_def)
    with that [OF th(2) w' r] up show thesis by blast
  next
    case (Some e')
    have late: "sint th < sint e'" using first_expiry_late [OF r] assms(3) Some by simp
    then have margin: "int (unat (renewal_margin svc)) \<le> sint e'" using th(2) by linarith
    let ?t = "e' - renewal_margin svc"
    have t: "int (unat ?t) = sint e' - int (unat (renewal_margin svc))"
      by (rule refresh_time_late(2) [OF margin])
    moreover have "unat now + 1 < unat ?t" using late th(2) t by linarith
    ultimately have "next_tick_after svc now e (Some ?t)" using Some by (simp add: next_tick_after_def)
    moreover have "next_tick_of debug svc e = (Inr (Some ?t) :: ('f, u64 option) result)"
      using Some by (simp add: next_tick_of_late [OF margin])
    ultimately show thesis using that [OF th(2) w' r] up by blast
  qed
qed

lemma tick_value:
  assumes "statement subs up get (\<lambda>m _ m'. m' = m)" "unat now + unat (renewal_margin svc) + 1 < 2 ^ 63"
    and "tick get D L debug svc now (c, w) = (Inr n, (c', w'))"
  obtains e where "first_expiry (subs c') e" "next_tick_after svc now e n"
  using assms(1,3)
proof (cases rule: tick_steps)
  case (renewed c1 c2 e)
  have "first_expiry (subs c2) e" using renewed(4,5) by simp
  from renewed_next_tick [OF assms(2) renewed(3) this] renewed(7) obtain n' where
    "Inr n = (Inr n' :: (('d, 'e) service_error, u64 option) result)" "next_tick_after svc now e n'" by metis
  with that renewed(4) show thesis by simp
qed (simp_all split: fault.splits)

lemma service_ticking:
  assumes "times_representable P K" "unat (renewal_margin svc) < 2 ^ 62"
    and get: "statement subs up get (\<lambda>m _ m'. m' = m)"
  shows "ticking P K (\<lambda>k. tick get D L debug svc (as_secs (now_unix k)))"
proof (unfold_locales, goal_cases)
  case 1
  show ?case by (rule assms(1))
next
  case (2 k c h r c' h')
  from tick_world [OF get 2] show ?case by auto
next
  case (3 k c h t c' h')
  have small: "unat (as_secs (now_unix k)) + unat (renewal_margin svc) + 1 < 2 ^ 63"
    by (rule steady_now [OF 3(1) assms(2)])
  obtain e where "next_tick_after svc (as_secs (now_unix k)) e (Some t)"
    by (rule tick_value [OF get small 3(2)])
  then obtain e' :: i64 where "int (unat t) = sint e' - int (unat (renewal_margin svc))"
    by (rule next_tick_after_some)
  then have "int (unat t) \<le> sint e'" by simp
  then have "int (unat t) < int (2 ^ 63)" using sint_lt [of e'] by simp
  then show ?case by (simp only: of_nat_less_iff)
qed

end

interpretation mem_ticking: ticking wide_platform 0
  "\<lambda>k. tick (ret ()) (diesel2_connection mem_diesel counter_rng) reference_crates True mem_svc (as_secs (now_unix k))"
  by (rule mem_svc.service_ticking [OF wide_platform _ always_statement]) (simp add: mem_svc_def)

section \<open>A renewal that goes through\<close>

definition hubs_are_uris :: "('u, 'a, 'p, 'g) crates \<Rightarrow> table \<Rightarrow> bool" where
  "hubs_are_uris L m \<longleftrightarrow> (\<forall>i s. m i = Some s \<longrightarrow> uri_parse (uri_of L) (sub_hub s) \<noteq> None)"

lemma hubs_are_uris_valid: "hubs_are_uris L m \<Longrightarrow> hubs_valid L t m"
  by (auto simp: hubs_are_uris_def hubs_valid_def expiring_def)

context subscriber_service
begin

lemma renewal_total:
  assumes "up c" "unat now + unat (renewal_margin svc) + 1 < 2 ^ 63"
    and "2 * card (dom (subs c)) < 2 ^ 64" "hubs_are_uris L (subs c)"
  obtains t c' g futs where "sint t = int (unat now + unat (renewal_margin svc) + 1)"
    "renew_subscriptions D L debug svc now (c, w) =
      (Inr (), (c', w\<lparr>thread_rng := g, spawned := spawned w @ futs\<rparr>))"
    "renewed L (callback svc) t (subs c) (subs c') futs" "up c'"
proof -
  obtain t where t: "renewal_threshold debug svc now = (Inr t :: ('e, i64) result)"
    "sint t = int (unat now + unat (renewal_margin svc) + 1)"
    by (rule renewal_threshold_exact [OF assms(2)])
  obtain r c' w' where run: "renew_subscriptions D L debug svc now (c, w) = (r, (c', w'))"
    by (metis prod_cases3)
  from renew_subscriptions_result [OF run] obtain g futs where w':
      "w' = w\<lparr>thread_rng := g, spawned := spawned w @ futs\<rparr>"
    and res: "case r of
       Inr _ \<Rightarrow> renewed L (callback svc) t (subs c) (subs c') futs \<and> (up c \<longrightarrow> up c')
     | Inl (Err e) \<Rightarrow> \<not> up c
     | Inl Panic \<Rightarrow> \<not> hubs_valid L t (subs c)
     | Inl Diverge \<Rightarrow> up c \<longrightarrow> 2 ^ 64 \<le> 2 * card (dom (subs c))"
    using t(1) by (cases r rule: sum.exhaust; cases "projl r") (auto split: fault.splits)
  show thesis
  proof (cases r)
    case (Inl f)
    with res assms(1,3,4) hubs_are_uris_valid have False by (cases f) auto
    then show thesis ..
  next
    case (Inr u)
    with run w' res assms(1)
    have "renew_subscriptions D L debug svc now (c, w) =
        (Inr (), (c', w\<lparr>thread_rng := g, spawned := spawned w @ futs\<rparr>))"
      "renewed L (callback svc) t (subs c) (subs c') futs" "up c'" by simp_all
    with t(2) show thesis by (rule that)
  qed
qed

text \<open>A tick in the same situation succeeds as well, and asks for the first expiry that is left.\<close>

lemma tick_total:
  assumes "statement subs up get (\<lambda>m _ m'. m' = m)"
    and "up c" "unat now + unat (renewal_margin svc) + 1 < 2 ^ 63"
    and "2 * card (dom (subs c)) < 2 ^ 64" "hubs_are_uris L (subs c)"
  obtains n c' g futs e th where
    "tick get D L debug svc now (c, w) =
      (Inr n, (c', w\<lparr>thread_rng := g, spawned := spawned w @ futs\<rparr>))"
    "sint th = int (unat now + unat (renewal_margin svc) + 1)"
    "renewed L (callback svc) th (subs c) (subs c') futs" "first_expiry (subs c') e" "up c'"
    "next_tick_after svc now e n"
proof -
  obtain r c' w' where run: "tick get D L debug svc now (c, w) = (r, (c', w'))" by (metis prod_cases3)
  from assms(1) run show thesis
  proof (cases rule: tick_steps)
    case no_connection
    then show thesis using assms(2) by blast
  next
    case (not_renewed c1 f)
    have "\<exists>x. renew_subscriptions D L debug svc now (c1, w) = (Inr (), x)"
      using renewal_total [of c1 now debug w] not_renewed(1,2) assms(2-5) by metis
    with not_renewed(3) show thesis by simp
  next
    case (no_expiry c1 c2 e)
    with renew_subscriptions_result [OF no_expiry(3)] assms(2) show thesis by auto
  next
    case (renewed c1 c2 e)
    have "first_expiry (subs c2) e" using renewed(4,5) by simp
    from renewed_next_tick [OF assms(3) renewed(3) this] obtain th g futs n where
      facts: "sint th = int (unat now + unat (renewal_margin svc) + 1)"
      "w' = w\<lparr>thread_rng := g, spawned := spawned w @ futs\<rparr>"
      "renewed L (callback svc) th (subs c1) (subs c2) futs" "up c1 \<Longrightarrow> up c2"
      "next_tick_of debug svc e = (Inr n :: (('d, 'e) service_error, u64 option) result)"
      "next_tick_after svc now e n" by metis
    show thesis
      by (rule that [where n = n and c' = c' and g = g and futs = futs and th = th and e = e])
        (use facts renewed run assms(2) in simp_all)
  qed
qed

end

section \<open>A renewal that fails half-way\<close>

text \<open>
  On the in-memory connection: one subscription expires, it is asked for anew, and the statement
  that would deactivate it fails.
\<close>

lemma mem_create:
  "thread_rng w \<notin> fst ` set rows \<Longrightarrow>
   conn_create_subscription (diesel2_connection mem_diesel counter_rng) hub topic secret
     (\<lparr>mem_rows = rows, mem_faults = False # False # False # fs\<rparr>, w) =
   (Inr (thread_rng w), (\<lparr>mem_rows = (thread_rng w, \<lparr>sub_hub = hub, sub_topic = topic, sub_secret = secret, sub_expires_at = None\<rparr>) # rows,
     mem_faults = fs\<rparr>, w\<lparr>thread_rng := thread_rng w + 1\<rparr>))"
  by (simp add: diesel2_connection_def mem_diesel_def diesel2_create_subscription_def mem_transaction_def or_diverge_def insert_loop.simps counter_rng_def)

lemma collect_map_Inr: "collect (map (\<lambda>x. Inr (f x)) xs) = Inr (map f xs)"
  by (induction xs) simp_all

lemma mem_connection_simps:
  "conn_transaction (diesel2_connection mem_diesel counter_rng) = mem_transaction"
  "conn_get_subscriptions_expire_before (diesel2_connection mem_diesel counter_rng) t
     \<lparr>mem_rows = rows, mem_faults = False # fs\<rparr> =
   (Inr (map (\<lambda>(i, s). (i, sub_hub s, sub_topic s)) (filter (selected [ExpiresLe t]) (AList.clearjunk rows))),
    \<lparr>mem_rows = rows, mem_faults = fs\<rparr>)"
  "conn_deactivate_subscriptions_expire_before (diesel2_connection mem_diesel counter_rng) t
     \<lparr>mem_rows = rows, mem_faults = True # fs\<rparr> =
   (Inl (Err (OtherError ())), \<lparr>mem_rows = rows, mem_faults = fs\<rparr>)"
  by (simp_all add: diesel2_connection_def mem_diesel_def diesel2_transaction_def [abs_def] mem_query_def
      mem_select_def and_then_def diesel2_get_subscriptions_expire_before_def
      diesel2_deactivate_subscriptions_expire_before_def map_action_def comp_def collect_map_Inr)

lemma mem_subscribe:
  assumes "8 \<notin> fst ` set rows"
  obtains secret fut where
    "service_subscribe (diesel2_connection mem_diesel counter_rng) reference_crates True mem_svc ''h'' ''t''
       (\<lparr>mem_rows = rows, mem_faults = False # False # False # fs\<rparr>, w\<lparr>thread_rng := 7\<rparr>) =
     (Inr fut, (\<lparr>mem_rows = (8, \<lparr>sub_hub = ''h'', sub_topic = ''t'', sub_secret = secret,
        sub_expires_at = None\<rparr>) # rows, mem_faults = fs\<rparr>, w\<lparr>thread_rng := 9\<rparr>))"
proof -
  let ?L = "reference_crates" and ?i = "8 :: u64" and ?hub = "''h''" and ?topic = "''t''"
  obtain secret where s: "gen_secret ?L True 7 = (Inr secret :: (unit sql_error, string) result, 8)"
    using reference_crates.gen_secret_ok [of True 7] by (simp add: reference_crates_def counter_rng_def)
  have valid: "uri_parse (uri_of ?L) ?hub \<noteq> None" by (simp add: reference_crates_def text_uri_def)
  obtain fut where fut: "bind_result (make_callback ?L (callback mem_svc) ?i) (\<lambda>cb.
             bind_result (unwrap (form_to_string (form_of ?L)
               (form_fields (uri_of ?L) (SubscribeForm cb ?topic secret)))) (\<lambda>body.
             send_request ?L ?hub ?topic body)) = (Inr fut :: (unit sql_error, _) result)"
    using mem_hub.request_result [OF mem_svc.callback_prepared, of ?i "\<lambda>cb. SubscribeForm cb ?topic secret"
        ?hub ?topic] valid
    by auto
  show thesis
    by (rule that [of fut secret]) (use assms fut in \<open>simp del: form_fields.simps add: service_subscribe_def
        hub_subscribe_def and_then_def hub_create_subscription_def s mem_create\<close>)
qed

lemma renewal_stops:
  "\<exists>c' g fut. renew_subscriptions (diesel2_connection mem_diesel counter_rng) reference_crates True mem_svc 1000
     (\<lparr>mem_rows = [(1, \<lparr>sub_hub = ''h'', sub_topic = ''t'', sub_secret = ''s'', sub_expires_at = Some 1000\<rparr>)],
        mem_faults = [False, False, False, False, False, True]\<rparr>, w\<lparr>thread_rng := 7\<rparr>) =
     (Inl (Err (OtherError ())), (c', w\<lparr>thread_rng := g, spawned := spawned w @ [fut]\<rparr>))"
proof -
  let ?row = "(1 :: u64, \<lparr>sub_hub = ''h'', sub_topic = ''t'', sub_secret = ''s'', sub_expires_at = Some 1000\<rparr>)"
  obtain secret fut where sub:
    "service_subscribe (diesel2_connection mem_diesel counter_rng) reference_crates True mem_svc ''h'' ''t''
       (\<lparr>mem_rows = [?row], mem_faults = [False, False, False, True]\<rparr>, w\<lparr>thread_rng := 7\<rparr>) =
     (Inr fut, (\<lparr>mem_rows = [(8, \<lparr>sub_hub = ''h'', sub_topic = ''t'', sub_secret = secret,
        sub_expires_at = None\<rparr>), ?row], mem_faults = [True]\<rparr>, w\<lparr>thread_rng := 9\<rparr>))"
    by (rule mem_subscribe [where rows = "[?row]" and fs = "[True]"]) simp_all
  have th: "renewal_threshold True mem_svc 1000 = (Inr 4601 :: (unit sql_error, i64) result)"
    by (simp add: renewal_threshold_def mem_svc_def u64_add_def i64_try_from_def)
  show ?thesis
    by (simp add: mem_svc.renew_subscriptions_eq and_then_def th mem_svc.renewal_body_def mem_transaction_def
        on_fst_def sub mem_connection_simps) blast
qed

section \<open>The requests of a renewal that fails\<close>

text \<open>
  The requests for the subscriptions \<open>xs\<close> among the expiring ones: one each, directed at the same
  hub for the same topic, under ids that are not in the table.
\<close>

definition asked_anew ::
  "('u, 'a, 'p, 'g) crates \<Rightarrow> 'u \<Rightarrow> table \<Rightarrow> (u64 \<times> string \<times> string) list \<Rightarrow> 'u response_future list \<Rightarrow> bool" where
  "asked_anew L prefix m xs futs \<longleftrightarrow> (\<exists>news.
     distinct (map fst xs) \<and> list_all2 (asks L prefix) xs news \<and>
     distinct (map fst news) \<and> fst ` set news \<inter> dom m = {} \<and> futs = map (\<lambda>(_, _, fut). fut) news)"

text \<open>A connection whose statement that deactivates the expiring subscriptions is replaced.\<close>

abbreviation deactivating_by where
  "deactivating_by D f \<equiv> D\<lparr>conn_deactivate_subscriptions_expire_before := f\<rparr>"

context subscriber_service
begin

lemma renewal_spawns:
  assumes "up c" "2 * card (dom (subs c)) < 2 ^ 64" "hubs_are_uris L (subs c)" "expiring t (subs c) \<noteq> {}"
  obtains xs c1 c2 g futs where
    "on_fst (conn_get_subscriptions_expire_before D t) (c, w) = (Inr xs, (c1, w))" "xs \<noteq> []"
    "for_each xs (\<lambda>(_, hub, topic). and_then (service_subscribe D L debug svc hub topic) spawn) (c1, w) =
      (Inr (), (c2, w\<lparr>thread_rng := g, spawned := spawned w @ futs\<rparr>))"
    "set xs = expiring t (subs c)" "asked_anew L (callback svc) (subs c) xs futs"
proof -
  obtain r1 t1 where q: "on_fst (conn_get_subscriptions_expire_before D t) (c, w) = (r1, t1)"
    by (metis surj_pair)
  show thesis
    using get_subscriptions_expire_before q
  proof (cases rule: statement_on_fstE)
    case (ok xs c1)
    then have xs: "subs c1 = subs c" "distinct (map fst xs)" "set xs = expiring t (subs c)" "up c1"
      using assms(1) by simp_all
    obtain r2 c2 w2 where loop: "for_each xs (\<lambda>(_, hub, topic).
        and_then (service_subscribe D L debug svc hub topic) spawn) (c1, w) = (r2, (c2, w2))"
      by (metis prod_cases3)
    from renew_loop [OF loop] obtain g news where
      news: "w2 = w\<lparr>thread_rng := g, spawned := spawned w @ map (\<lambda>(_, _, fut). fut) news\<rparr>"
        "list_all2 (asks L (callback svc)) (take (length news) xs) news"
        "distinct (map fst news)" "fst ` set news \<inter> dom (subs c1) = {}"
      and finished: "r2 = Inr () \<longrightarrow> length news = length xs \<and> subs c2 = insert_all xs news (subs c1) \<and>
          (up c1 \<longrightarrow> up c2)"
      and faults: "\<forall>e. r2 = Inl (Err e) \<longrightarrow> \<not> up c1"
        "r2 = Inl Panic \<longrightarrow> (\<exists>(i, hub, topic) \<in> set xs. uri_parse (uri_of L) hub = None)"
        "r2 = Inl Diverge \<longrightarrow> up c1 \<longrightarrow> 2 ^ 64 \<le> card (dom (subs c1)) + length xs"
      by (elim exE conjE) (rule that)
    have "fst ` set xs \<subseteq> dom (subs c)" using xs(3) by (force simp: expiring_def)
    then have "length xs \<le> card (dom (subs c))"
      using xs(2) by (metis card_mono distinct_card finite length_map list.set_map)
    then have "r2 \<noteq> Inl Diverge" using faults(3) xs(1,4) assms(2) by fastforce
    moreover have "r2 \<noteq> Inl Panic"
      using faults(2) hubs_are_uris_valid [OF assms(3), of t] xs(3) unfolding hubs_valid_def by fastforce
    moreover have "r2 \<noteq> Inl (Err e)" for e using faults(1) xs(4) by blast
    ultimately have r2: "r2 = Inr ()" by (cases r2; cases "projl r2") auto
    then have "asked_anew L (callback svc) (subs c) xs (map (\<lambda>(_, _, fut). fut) news)"
      unfolding asked_anew_def using news finished xs(1,2) by (intro exI [of _ news]) simp
    moreover have "xs \<noteq> []" using xs(3) assms(4) by auto
    ultimately show thesis using that q ok(1,2) loop r2 news(1) xs(3) by blast
  qed (use assms(1) in blast)
qed

lemma deactivating_by_subscribe:
  "service_subscribe (deactivating_by D f) L debug svc hub topic = service_subscribe D L debug svc hub topic"
proof -
  have create: "conn_create_subscription (deactivating_by D f) = conn_create_subscription D" by simp
  show ?thesis
    unfolding service_subscribe_def hub_subscribe_def hub_create_subscription_def create by (rule refl)
qed

lemma renewal_kept:
  assumes "up c" "unat now + unat (renewal_margin svc) + 1 < 2 ^ 63"
    and "2 * card (dom (subs c)) < 2 ^ 64" "hubs_are_uris L (subs c)"
    and "sint t = int (unat now + unat (renewal_margin svc) + 1)" "expiring t (subs c) \<noteq> {}"
    and fails: "\<And>t c. fst (f t c) = Inl (Err e)"
  shows "\<exists>c' g futs xs. renew_subscriptions (deactivating_by D f) L debug svc now (c, w) =
      (Inl (Err e), (c', w\<lparr>thread_rng := g, spawned := spawned w @ futs\<rparr>)) \<and>
    subs c' = subs c \<and> set xs = expiring t (subs c) \<and> asked_anew L (callback svc) (subs c) xs futs"
proof -
  let ?D = "deactivating_by D f"
  define body where "body t = and_then (on_fst (conn_get_subscriptions_expire_before D t)) (\<lambda>expiring.
    if expiring = [] then ret () else
      and_then (for_each expiring (\<lambda>(_, hub, topic). and_then (service_subscribe D L debug svc hub topic) spawn))
        (\<lambda>_. on_fst (f t)))" for t
  obtain t' where t': "renewal_threshold debug svc now = (Inr t' :: ('e, i64) result)"
    "sint t' = int (unat now + unat (renewal_margin svc) + 1)"
    by (rule renewal_threshold_exact [OF assms(2)])
  then have "t' = t" using assms(5) by (metis signed_word_eqI)
  have "renew_subscriptions ?D L debug svc now =
      and_then (lift (renewal_threshold debug svc now)) (\<lambda>t. conn_transaction D (body t))"
    by (simp add: renew_subscriptions_def renewal_threshold_def deactivating_by_subscribe body_def cong: if_cong)
  with t'(1) \<open>t' = t\<close> have eq: "renew_subscriptions ?D L debug svc now (c, w) = conn_transaction D (body t) (c, w)"
    by (simp add: and_then_def lift_def)
  obtain r c' w' where run: "conn_transaction D (body t) (c, w) = (r, (c', w'))" by (metis prod_cases3)
  have ends: "\<exists>c2 g futs xs. body t (c1, w) = (Inl (Err e), (c2, w\<lparr>thread_rng := g, spawned := spawned w @ futs\<rparr>)) \<and>
      set xs = expiring t (subs c) \<and> asked_anew L (callback svc) (subs c) xs futs"
    if c1: "subs c1 = subs c" "up c1" for c1
  proof -
    obtain xs c2 c3 g futs where
      s: "on_fst (conn_get_subscriptions_expire_before D t) (c1, w) = (Inr xs, (c2, w))" "xs \<noteq> []"
      "for_each xs (\<lambda>(_, hub, topic). and_then (service_subscribe D L debug svc hub topic) spawn) (c2, w) =
        (Inr (), (c3, w\<lparr>thread_rng := g, spawned := spawned w @ futs\<rparr>))"
      "set xs = expiring t (subs c1)" "asked_anew L (callback svc) (subs c1) xs futs"
      by (rule renewal_spawns [of c1 t w debug]) (use assms(3,4,6) c1 in simp_all)
    obtain c4 where "f t c3 = (Inl (Err e), c4)" using fails by (metis prod.collapse)
    with s(1-3) have "body t (c1, w) = (Inl (Err e), (c4, w\<lparr>thread_rng := g, spawned := spawned w @ futs\<rparr>))"
      by (simp add: body_def and_then_def on_fst_def)
    with s(4,5) c1 show ?thesis by auto
  qed
  show ?thesis
    using transaction run
  proof (cases rule: transactionE)
    case (rolled_back c1 c2 e')
    with ends [of c1] assms(1) obtain g futs xs where "e' = e"
      "w' = w\<lparr>thread_rng := g, spawned := spawned w @ futs\<rparr>"
      "set xs = expiring t (subs c)" "asked_anew L (callback svc) (subs c) xs futs" by fastforce
    with rolled_back run eq show ?thesis by auto
  qed (use assms(1) ends in \<open>fastforce+\<close>)
qed

end

section \<open>Properties\<close>

text \<open>
  C13: with the database up and not half full, and all hubs URIs, a renewal succeeds: every
  subscription that expires within the margin is deactivated, and for each of them exactly one
  request is spawned that asks the same hub for the same topic under a fresh id with the
  secret that was stored for it.
\<close>

theorem renewal_renews:
  assumes "subscriber_service L D subs up svc" "up c"
    and "unat now + unat (renewal_margin svc) + 1 < 2 ^ 63"
    and "2 * card (dom (subs c)) < 2 ^ 64" "hubs_are_uris L (subs c)"
  shows "\<exists>t c' g futs. sint t = int (unat now + unat (renewal_margin svc) + 1) \<and>
    renew_subscriptions D L debug svc now (c, w) =
      (Inr (), (c', w\<lparr>thread_rng := g, spawned := spawned w @ futs\<rparr>)) \<and>
    renewed L (callback svc) t (subs c) (subs c') futs \<and> up c'"
  using subscriber_service.renewal_total [OF assms, of debug w] by metis

theorem renewal_renews_witness:
  "\<exists>t c' g futs. sint t = (4601 :: int) \<and>
     renew_subscriptions (diesel2_connection mem_diesel counter_rng) reference_crates True mem_svc 1000
       (\<lparr>mem_rows = [(1, mem_sub\<lparr>sub_expires_at := Some 4000\<rparr>)], mem_faults = []\<rparr>, quiet_world) =
       (Inr (), (c', quiet_world\<lparr>thread_rng := g, spawned := futs\<rparr>)) \<and>
     renewed reference_crates (callback mem_svc) t [1 \<mapsto> mem_sub\<lparr>sub_expires_at := Some 4000\<rparr>] (mem_table c') futs"
proof -
  let ?s = "mem_sub\<lparr>sub_expires_at := Some 4000\<rparr>"
  let ?c = "\<lparr>mem_rows = [(1, ?s)], mem_faults = []\<rparr>"
  have c: "mem_table ?c = [1 \<mapsto> ?s]" "mem_up ?c" by (auto simp: mem_up_def mem_table_def)
  then have few: "2 * card (dom (mem_table ?c)) < 2 ^ 64" by simp
  have uris: "hubs_are_uris reference_crates (mem_table ?c)"
    unfolding c(1) by (simp add: hubs_are_uris_def reference_crates_def text_uri_def mem_sub_def)
  have now: "unat (1000 :: u64) + unat (renewal_margin mem_svc) + 1 = 4601" by (simp add: mem_svc_def)
  then have small: "unat (1000 :: u64) + unat (renewal_margin mem_svc) + 1 < 2 ^ 63" by simp
  from renewal_renews [OF mem_svc.subscriber_service_axioms, OF c(2), OF small, OF few, OF uris, of True quiet_world]
  show ?thesis unfolding c(1) now by fastforce
qed

text \<open>
  C33: an error in the middle of a renewal rolls the table back, so no subscription is lost or
  marked; but the requests that were spawned before it stay spawned. When the last statement
  of the transaction fails, the one that deactivates what expires, the requests for all of the
  expiring subscriptions are kept, and every one asks under an id that is not in the table.
\<close>

theorem renewal_rolls_back:
  assumes "subscriber_service L D subs up svc"
  shows "(renew_subscriptions D L debug svc now (c, w) = (Inl (Err e), (c', w')) \<longrightarrow>
      subs c' = subs c \<and> (\<exists>g futs. w' = w\<lparr>thread_rng := g, spawned := spawned w @ futs\<rparr>)) \<and>
    (up c \<and> unat now + unat (renewal_margin svc) + 1 < 2 ^ 63 \<and> 2 * card (dom (subs c)) < 2 ^ 64 \<and>
      hubs_are_uris L (subs c) \<and> sint t = int (unat now + unat (renewal_margin svc) + 1) \<and>
      expiring t (subs c) \<noteq> {} \<and> (\<forall>t c. fst (f t c) = Inl (Err e)) \<longrightarrow>
      (\<exists>c' g futs xs. renew_subscriptions (deactivating_by D f) L debug svc now (c, w) =
          (Inl (Err e), (c', w\<lparr>thread_rng := g, spawned := spawned w @ futs\<rparr>)) \<and>
        subs c' = subs c \<and> set xs = expiring t (subs c) \<and> asked_anew L (callback svc) (subs c) xs futs))"
  using subscriber_service.renew_subscriptions_result [OF assms, of debug now c w "Inl (Err e)" c' w']
    subscriber_service.renewal_kept [OF assms, of c now t f e debug w]
  by auto

theorem renewal_rolls_back_witness:
  "(\<exists>c' g fut. renew_subscriptions (diesel2_connection mem_diesel counter_rng) reference_crates True mem_svc 1000
     (\<lparr>mem_rows = [(1, mem_sub\<lparr>sub_expires_at := Some 1000\<rparr>)],
       mem_faults = [False, False, False, False, False, True]\<rparr>, quiet_world) =
     (Inl (Err (OtherError ())), (c', quiet_world\<lparr>thread_rng := g, spawned := [fut]\<rparr>)) \<and>
     mem_table c' 1 = Some (mem_sub\<lparr>sub_expires_at := Some 1000\<rparr>)) \<and>
   (\<exists>c' g fut j secret. renew_subscriptions
       (deactivating_by (diesel2_connection mem_diesel counter_rng) (\<lambda>t c. (Inl (Err (OtherError ())), c)))
       reference_crates True mem_svc 1000
       (\<lparr>mem_rows = [(1, mem_sub\<lparr>sub_expires_at := Some 1000\<rparr>)], mem_faults = []\<rparr>, quiet_world) =
     (Inl (Err (OtherError ())), (c', quiet_world\<lparr>thread_rng := g, spawned := [fut]\<rparr>)) \<and>
     mem_table c' = [1 \<mapsto> mem_sub\<lparr>sub_expires_at := Some 1000\<rparr>] \<and> mem_table c' j = None \<and>
     posts_form reference_crates (callback mem_svc) j (\<lambda>cb. SubscribeForm cb ''t'' secret) ''h'' ''t'' fut)"
proof
  let ?c = "\<lparr>mem_rows = [(1, mem_sub\<lparr>sub_expires_at := Some 1000\<rparr>)],
       mem_faults = [False, False, False, False, False, True]\<rparr>"
  from renewal_stops [of quiet_world] obtain c' g fut where
    run: "renew_subscriptions (diesel2_connection mem_diesel counter_rng) reference_crates True mem_svc 1000
       (?c, quiet_world) = (Inl (Err (OtherError ())), (c', quiet_world\<lparr>thread_rng := g, spawned := [fut]\<rparr>))"
    by (auto simp: mem_sub_def)
  from renewal_rolls_back [OF mem_svc.subscriber_service_axioms, THEN conjunct1, THEN mp, OF run]
  have "mem_table c' = mem_table ?c" by blast
  with run show "\<exists>c' g fut. renew_subscriptions (diesel2_connection mem_diesel counter_rng) reference_crates True
      mem_svc 1000 (?c, quiet_world) =
      (Inl (Err (OtherError ())), (c', quiet_world\<lparr>thread_rng := g, spawned := [fut]\<rparr>)) \<and>
      mem_table c' 1 = Some (mem_sub\<lparr>sub_expires_at := Some 1000\<rparr>)"
    by (auto simp: mem_table_def)
next
  let ?s = "mem_sub\<lparr>sub_expires_at := Some 1000\<rparr>"
  let ?c = "\<lparr>mem_rows = [(1, ?s)], mem_faults = []\<rparr>" and ?f = "\<lambda>(t :: i64) c. (Inl (Err (OtherError ())), c)"
  have c: "mem_table ?c = [1 \<mapsto> ?s]" "mem_up ?c" by (auto simp: mem_up_def mem_table_def)
  have exp: "expiring 4601 (mem_table ?c) = {(1, ''h'', ''t'')}"
    unfolding c(1) by (auto simp: expiring_def expires_before_def mem_sub_def split: if_splits)
  have "mem_up ?c \<and> unat (1000 :: u64) + unat (renewal_margin mem_svc) + 1 < 2 ^ 63 \<and>
      2 * card (dom (mem_table ?c)) < 2 ^ 64 \<and> hubs_are_uris reference_crates (mem_table ?c) \<and>
      sint (4601 :: i64) = int (unat (1000 :: u64) + unat (renewal_margin mem_svc) + 1) \<and>
      expiring 4601 (mem_table ?c) \<noteq> {} \<and> (\<forall>t c. fst (?f t c) = Inl (Err (OtherError ())))"
    using c exp unfolding c(1)
    by (simp add: hubs_are_uris_def reference_crates_def text_uri_def mem_sub_def mem_svc_def)
  from renewal_rolls_back [OF mem_svc.subscriber_service_axioms, THEN conjunct2, THEN mp, OF this,
      of True quiet_world] obtain c' g futs xs where
    run: "renew_subscriptions (deactivating_by (diesel2_connection mem_diesel counter_rng) ?f)
      reference_crates True mem_svc 1000 (?c, quiet_world) =
      (Inl (Err (OtherError ())), (c', quiet_world\<lparr>thread_rng := g, spawned := futs\<rparr>))"
    and t: "mem_table c' = mem_table ?c" and xs: "set xs = expiring 4601 (mem_table ?c)"
    and futs: "asked_anew reference_crates (callback mem_svc) (mem_table ?c) xs futs" by auto
  from futs have "distinct (map fst xs)" by (simp add: asked_anew_def)
  with xs exp have "xs = [(1, ''h'', ''t'')]"
    by (cases xs; cases "tl xs") (auto simp: subset_singleton_iff)
  with futs c(1) obtain j secret fut where "futs = [fut]" "j \<noteq> 1"
    "posts_form reference_crates (callback mem_svc) j (\<lambda>cb. SubscribeForm cb ''t'' secret) ''h'' ''t'' fut"
    by (auto simp: asked_anew_def asks_def list_all2_Cons1)
  with run t c(1) show "\<exists>c' g fut j secret. renew_subscriptions
      (deactivating_by (diesel2_connection mem_diesel counter_rng) ?f) reference_crates True mem_svc 1000
      (?c, quiet_world) = (Inl (Err (OtherError ())), (c', quiet_world\<lparr>thread_rng := g, spawned := [fut]\<rparr>)) \<and>
      mem_table c' = [1 \<mapsto> ?s] \<and> mem_table c' j = None \<and>
      posts_form reference_crates (callback mem_svc) j (\<lambda>cb. SubscribeForm cb ''t'' secret) ''h'' ''t'' fut"
    by (intro exI [of _ c'] exI [of _ g] exI [of _ fut] exI [of _ j] exI [of _ secret]) simp
qed

text \<open>
  C15: a tick never loses track of a subscription: it renews what expires within the margin and
  returns exactly the first remaining expiry less the margin, a time after now and
  computed without underflow, or nothing when no subscription is active.
\<close>

theorem tick_asks_for_next:
  assumes "subscriber_service L D subs up svc" "statement subs up get (\<lambda>m _ m'. m' = m)"
    and "up c" "unat now + unat (renewal_margin svc) + 1 < 2 ^ 63"
    and "2 * card (dom (subs c)) < 2 ^ 64" "hubs_are_uris L (subs c)"
  shows "\<exists>n c' g futs e th.
    tick get D L debug svc now (c, w) = (Inr n, (c', w\<lparr>thread_rng := g, spawned := spawned w @ futs\<rparr>)) \<and>
    sint th = int (unat now + unat (renewal_margin svc) + 1) \<and>
    renewed L (callback svc) th (subs c) (subs c') futs \<and> first_expiry (subs c') e \<and>
    (case e of None \<Rightarrow> n = None
     | Some e \<Rightarrow> \<exists>t. n = Some t \<and> int (unat t) = sint e - int (unat (renewal_margin svc)) \<and>
         unat now + 1 < unat t)"
  by (rule subscriber_service.tick_total [OF assms, of debug w, unfolded next_tick_after_def])
    (intro exI conjI, assumption+)

theorem tick_asks_for_next_witness:
  "\<exists>c' g. tick (ret ()) (diesel2_connection mem_diesel counter_rng) reference_crates True mem_svc 1000
     (\<lparr>mem_rows = [(1, mem_sub)], mem_faults = []\<rparr>, quiet_world) =
     (Inr (Some 6400) :: ((unit, unit sql_error) service_error, u64 option) result,
      (c', quiet_world\<lparr>thread_rng := g\<rparr>))"
proof -
  let ?c = "\<lparr>mem_rows = [(1, mem_sub)], mem_faults = []\<rparr>"
  have c: "mem_table ?c = [1 \<mapsto> mem_sub]" "mem_up ?c" by (auto simp: mem_up_def mem_table_def)
  then have few: "2 * card (dom (mem_table ?c)) < 2 ^ 64" by simp
  have uris: "hubs_are_uris reference_crates (mem_table ?c)"
    unfolding c(1) by (simp add: hubs_are_uris_def reference_crates_def text_uri_def mem_sub_def)
  have now: "unat (1000 :: u64) + unat (renewal_margin mem_svc) + 1 = 4601" by (simp add: mem_svc_def)
  then have small: "unat (1000 :: u64) + unat (renewal_margin mem_svc) + 1 < 2 ^ 63" by simp
  note run = tick_asks_for_next [OF mem_svc.subscriber_service_axioms, OF always_statement, OF c(2),
      OF small, OF few, OF uris, of True quiet_world]
  obtain n c' g futs e th where
    run: "tick (ret ()) (diesel2_connection mem_diesel counter_rng) reference_crates True mem_svc 1000 (?c, quiet_world) =
      (Inr n :: ((unit, unit sql_error) service_error, u64 option) result,
       (c', quiet_world\<lparr>thread_rng := g, spawned := spawned quiet_world @ futs\<rparr>))"
    and r: "sint th = int (unat (1000 :: u64) + unat (renewal_margin mem_svc) + 1)"
      "renewed reference_crates (callback mem_svc) th (mem_table ?c) (mem_table c') futs"
    and e: "first_expiry (mem_table c') e"
    and n: "case e of None \<Rightarrow> n = None
     | Some e \<Rightarrow> \<exists>t. n = Some t \<and> int (unat t) = sint e - int (unat (renewal_margin mem_svc)) \<and>
         unat (1000 :: u64) + 1 < unat t"
    using run by (elim exE conjE) (rule that)
  have "expiring th (mem_table ?c) = {}"
    using r(1) unfolding c(1) now by (auto simp: expiring_def mem_sub_def split: if_splits)
  from renewed_none [OF this r(2)] have m: "mem_table c' = [1 \<mapsto> mem_sub]" "futs = []" using c(1) by simp_all
  have "e = Some 10000"
    using e unfolding m(1) by (auto simp: first_expiry_def mem_sub_def split: option.splits if_splits)
  with n obtain t where "n = Some t" "uint t = uint (6400 :: u64)" by (auto simp: mem_svc_def)
  moreover from this have "t = 6400" by (simp only: word_uint_eq_iff)
  ultimately show ?thesis using run m(2) by (auto simp: mem_world_def)
qed

end
