(* ===== verification/Intent.thy ===== *)
theory Intent
  imports Renewal
begin

text \<open>
  What \<open>Service::verify_intent\<close> achieves: a hub's confirmation is granted exactly for the
  intents the subscriber has, an activated subscription is the only one left for its topic and
  hub, and the scheduler is hastened before the subscription can expire.
\<close>

section \<open>Hastening and the rest of the world\<close>

lemma hasten_world [simp]:
  "spawned (hasten t w) = spawned w" "sent (hasten t w) = sent w" "closed (hasten t w) = closed w"
  "thread_rng (hasten t w) = thread_rng w"
  by (simp_all add: hasten_def wake_def Let_def)

section \<open>The expiry\<close>

text \<open>The expiry a hub's lease gives, as \<open>verify_intent\<close> stores it.\<close>

definition lease_expiry :: "u64 \<Rightarrow> u64 \<Rightarrow> i64" where
  "lease_expiry now lease =
     (case i64_try_from (saturating_add now lease) of None \<Rightarrow> i64_MAX | Some e \<Rightarrow> e)"

lemma sint_lease_expiry: "sint (lease_expiry now lease) = min (2 ^ 63 - 1) (int (unat now + unat lease))"
proof -
  let ?x = "saturating_add now lease" and ?n = "unat now + unat lease"
  note x = unat_saturating_add [of now lease]
  show ?thesis
  proof (cases "?n < 2 ^ 63")
    case True
    with x have "unat ?x = ?n" "unat ?x < 2 ^ 63" by (simp_all add: min_def)
    then have "sint (lease_expiry now lease) = int ?n"
      by (simp add: lease_expiry_def i64_try_from_def sint_nonneg_eq sint_nonneg_iff)
    moreover have "int ?n < int (2 ^ 63)" using True by (simp only: of_nat_less_iff)
    then have "int ?n \<le> 2 ^ 63 - 1" by simp
    ultimately show ?thesis by (simp only: min_absorb2)
  next
    case False
    with x have "\<not> unat ?x < 2 ^ 63" by (simp add: min_def)
    then have "sint (lease_expiry now lease) = 2 ^ 63 - 1"
      by (simp add: lease_expiry_def i64_try_from_def)
    moreover have "int (2 ^ 63) \<le> int ?n" using False by (simp only: of_nat_le_iff not_less)
    then have "2 ^ 63 - 1 \<le> int ?n" by simp
    ultimately show ?thesis by (simp only: min_absorb1)
  qed
qed

section \<open>Removing the old subscriptions\<close>

text \<open>\<open>verified i e hub topic m\<close>: the other subscriptions to the topic at the hub are gone.\<close>

definition verified :: "u64 \<Rightarrow> i64 \<Rightarrow> string \<Rightarrow> string \<Rightarrow> table \<Rightarrow> table" where
  "verified i e hub topic m = activated i e (m |` (- duplicates i hub topic m))"

definition drops ::
  "('u, 'a, 'p, 'g) crates \<Rightarrow> 'u \<Rightarrow> string \<Rightarrow> string \<Rightarrow> u64 \<Rightarrow> 'u response_future \<Rightarrow> bool" where
  "drops L prefix hub topic j fut \<longleftrightarrow> posts_form L prefix j (\<lambda>cb. UnsubscribeForm cb topic) hub topic fut"

context subscriber_service
begin

lemma remove_loop:
  assumes "for_each old (\<lambda>j. and_then (on_fst (service_unsubscribe D L svc j hub topic)) spawn) (c, w) =
      (r, (c', w'))"
  shows "\<exists>futs. w' = w\<lparr>spawned := spawned w @ futs\<rparr> \<and>
    (r = Inr () \<longrightarrow> list_all2 (drops L (callback svc) hub topic) old futs \<and>
       subs c' = subs c |` (- set old) \<and> (up c \<longrightarrow> up c')) \<and>
    (\<forall>e. r = Inl (Err e) \<longrightarrow> \<not> up c) \<and>
    (r = Inl Panic \<longrightarrow> uri_parse (uri_of L) hub = None) \<and> r \<noteq> Inl Diverge"
  using assms
proof (induction old arbitrary: c w)
  case Nil
  then show ?case by (intro exI [of _ "[]"]) auto
next
  case (Cons j old)
  obtain r1 c1 where unsub: "service_unsubscribe D L svc j hub topic c = (r1, c1)" by (metis surj_pair)
  note res = hub_unsubscribe_result [OF callback_prepared unsub [unfolded service_unsubscribe_def]]
  show ?case
  proof (cases r1)
    case (Inl f)
    with Cons.prems unsub have "r = Inl f" "w' = w" by (simp_all add: and_then_def on_fst_def)
    with res Inl show ?thesis by (intro exI [of _ "[]"]) (cases f; auto)
  next
    case (Inr fut)
    let ?w1 = "w\<lparr>spawned := spawned w @ [fut]\<rparr>"
    have "for_each old (\<lambda>j. and_then (on_fst (service_unsubscribe D L svc j hub topic)) spawn) (c1, ?w1) =
        (r, (c', w'))"
      using Cons.prems unsub Inr by (simp add: and_then_def on_fst_def)
    from Cons.IH [OF this] obtain futs where
      "w' = ?w1\<lparr>spawned := spawned ?w1 @ futs\<rparr>"
      "r = Inr () \<longrightarrow> list_all2 (drops L (callback svc) hub topic) old futs \<and>
         subs c' = subs c1 |` (- set old) \<and> (up c1 \<longrightarrow> up c')"
      "\<forall>e. r = Inl (Err e) \<longrightarrow> \<not> up c1" "r = Inl Panic \<longrightarrow> uri_parse (uri_of L) hub = None" "r \<noteq> Inl Diverge"
      by (elim exE conjE) (rule that)
    moreover from res Inr have "subs c1 = (subs c)(j := None)" "drops L (callback svc) hub topic j fut"
      "up c \<Longrightarrow> up c1"
      by (simp_all add: drops_def)
    moreover have "(subs c)(j := None) |` (- set old) = subs c |` (- set (j # old))"
      by (auto simp: restrict_map_def)
    ultimately show ?thesis by (intro exI [of _ "fut # futs"]) auto
  qed
qed

end

section \<open>The answer to a verification\<close>

text \<open>The transaction in which a subscription is activated.\<close>

definition accept_body ::
  "('c, 'e, ('g, 'u, 'b, 'm, 'z) world_scheme) connection \<Rightarrow> ('u, 'a, 'p, 'g) crates \<Rightarrow> 'u service \<Rightarrow>
    u64 \<Rightarrow> string \<Rightarrow> string \<Rightarrow> i64 \<Rightarrow> ('c \<times> ('g, 'u, 'b, 'm, 'z) world_scheme, 'e, unit) action" where
  "accept_body D L svc i hub topic e =
     and_then (on_fst (conn_get_old_subscriptions D i hub topic)) (\<lambda>old.
     and_then (for_each old (\<lambda>j. and_then (on_fst (service_unsubscribe D L svc j hub topic)) spawn)) (\<lambda>_.
     and_then (on_fst (conn_activate_subscription D i e)) (\<lambda>_. ret ())))"

text \<open>An inactive subscription of the id to the topic, which is what a hub may confirm.\<close>

definition pending :: "u64 \<Rightarrow> string \<Rightarrow> table \<Rightarrow> string option" where
  "pending i topic m =
     (case m i of
        Some s \<Rightarrow> if sub_topic s = topic \<and> sub_expires_at s = None then Some (sub_hub s) else None
      | None \<Rightarrow> None)"

context subscriber_service
begin

lemma accept_body_result:
  assumes "accept_body D L svc i hub topic e (c, w) = (r, (c', w'))"
  shows "\<exists>futs. w' = w\<lparr>spawned := spawned w @ futs\<rparr> \<and>
    (r = Inr () \<longrightarrow> subs c' = verified i e hub topic (subs c) \<and> (up c \<longrightarrow> up c') \<and>
       (\<exists>old. distinct old \<and> set old = duplicates i hub topic (subs c) \<and>
          list_all2 (drops L (callback svc) hub topic) old futs)) \<and>
    (\<forall>e. r = Inl (Err e) \<longrightarrow> \<not> up c) \<and>
    (r = Inl Panic \<longrightarrow> uri_parse (uri_of L) hub = None) \<and> r \<noteq> Inl Diverge"
proof -
  obtain r1 t1 where q: "on_fst (conn_get_old_subscriptions D i hub topic) (c, w) = (r1, t1)"
    by (metis surj_pair)
  show ?thesis
    using get_old_subscriptions q
  proof (cases rule: statement_on_fstE)
    case (err e c1)
    with assms q have "r = Inl (Err e)" "w' = w" by (simp_all add: accept_body_def and_then_def)
    with err show ?thesis by (intro exI [of _ "[]"]) simp
  next
    case (ok old c1)
    then have old: "subs c1 = subs c" "distinct old" "set old = duplicates i hub topic (subs c)" by simp_all
    obtain r2 c2 w2 where loop:
      "for_each old (\<lambda>j. and_then (on_fst (service_unsubscribe D L svc j hub topic)) spawn) (c1, w) =
        (r2, (c2, w2))" by (metis prod_cases3)
    from remove_loop [OF loop] obtain futs where w2: "w2 = w\<lparr>spawned := spawned w @ futs\<rparr>"
      and finished: "r2 = Inr () \<longrightarrow> list_all2 (drops L (callback svc) hub topic) old futs \<and>
         subs c2 = subs c1 |` (- set old) \<and> (up c1 \<longrightarrow> up c2)"
      and faults: "\<forall>e. r2 = Inl (Err e) \<longrightarrow> \<not> up c1"
        "r2 = Inl Panic \<longrightarrow> uri_parse (uri_of L) hub = None" "r2 \<noteq> Inl Diverge"
      by (elim exE conjE) (rule that)
    show ?thesis
    proof (cases r2)
      case (Inl f)
      with assms q ok(1,2) loop have "r = Inl f" "w' = w2" by (simp_all add: accept_body_def and_then_def)
      with Inl w2 faults ok(4) show ?thesis by (intro exI [of _ futs]) auto
    next
      case (Inr u)
      obtain r3 t3 where a: "on_fst (conn_activate_subscription D i e) (c2, w2) = (r3, t3)"
        by (metis surj_pair)
      show ?thesis
        using activate_subscription a
      proof (cases rule: statement_on_fstE)
        case (err e' c3)
        with assms q ok(1,2) loop Inr a have "r = Inl (Err e')" "w' = w2"
          by (simp_all add: accept_body_def and_then_def)
        with err w2 finished Inr ok(4) show ?thesis by (intro exI [of _ futs]) auto
      next
        case ok': (ok b c3)
        with assms q ok(1,2) loop Inr a have "r = Inr ()" "c' = c3" "w' = w2"
          by (simp_all add: accept_body_def and_then_def)
        with ok' w2 finished Inr ok(4) old show ?thesis
          by (intro exI [of _ futs]) (auto simp: verified_def)
      qed
    qed
  qed
qed

lemma verify_intent_accept:
  assumes "verify_of_fields (form_parse (form_of L) query) = Some (VerifySubscribe topic challenge lease)"
  shows "verify_intent D L debug svc now i query =
    and_then (on_fst (conn_get_hub_of_inactive_subscription D i topic)) (\<lambda>found.
      case found of
        None \<Rightarrow> ret (empty_response NOT_FOUND)
      | Some hub \<Rightarrow>
          and_then (lift (refresh_time debug svc (lease_expiry now lease))) (\<lambda>t.
          and_then (\<lambda>(c, w). (Inr (), (c, hasten t w))) (\<lambda>_.
          and_then (conn_transaction D (accept_body D L svc i hub topic (lease_expiry now lease)))
            (\<lambda>_. ret (response_new challenge)))))"
  unfolding verify_intent_def assms accept_body_def lease_expiry_def Let_def
  by (simp cong: option.case_cong)

end

context subscriber_service
begin

lemma verify_subscribe_cases:
  assumes "verify_of_fields (form_parse (form_of L) query) = Some (VerifySubscribe topic challenge lease)"
    and "verify_intent D L debug svc now i query (c, w) = (r, (c', w'))"
  obtains (unanswered) e where "r = Inl (Err e)" "subs c' = subs c" "w' = w" "\<not> up c"
  | (unknown) "pending i topic (subs c) = None" "r = Inr (empty_response NOT_FOUND)"
      "subs c' = subs c" "w' = w" "up c \<Longrightarrow> up c'"
  | (too_early) hub f where "pending i topic (subs c) = Some hub"
      "refresh_time debug svc (lease_expiry now lease) = (Inl f :: ('e, u64) result)" "r = Inl f"
      "subs c' = subs c" "w' = w"
  | (accepted) hub t old futs where "pending i topic (subs c) = Some hub"
      "refresh_time debug svc (lease_expiry now lease) = (Inr t :: ('e, u64) result)"
      "r = Inr (response_new challenge)"
      "subs c' = verified i (lease_expiry now lease) hub topic (subs c)"
      "w' = (hasten t w)\<lparr>spawned := spawned w @ futs\<rparr>" "distinct old"
      "set old = duplicates i hub topic (subs c)"
      "list_all2 (drops L (callback svc) hub topic) old futs" "up c \<Longrightarrow> up c'"
  | (undone) hub t futs e where "pending i topic (subs c) = Some hub"
      "refresh_time debug svc (lease_expiry now lease) = (Inr t :: ('e, u64) result)"
      "r = Inl (Err e)" "subs c' = subs c" "w' = (hasten t w)\<lparr>spawned := spawned w @ futs\<rparr>" "\<not> up c"
  | (panics) hub t futs where "pending i topic (subs c) = Some hub"
      "refresh_time debug svc (lease_expiry now lease) = (Inr t :: ('e, u64) result)"
      "r = Inl Panic" "uri_parse (uri_of L) hub = None" "w' = (hasten t w)\<lparr>spawned := spawned w @ futs\<rparr>"
proof -
  obtain r1 t1 where q: "on_fst (conn_get_hub_of_inactive_subscription D i topic) (c, w) = (r1, t1)"
    by (metis surj_pair)
  note run = assms(2) [unfolded verify_intent_accept [OF assms(1)]]
  show thesis
    using get_hub_of_inactive_subscription q
  proof (cases rule: statement_on_fstE)
    case (err e c1)
    with run q have "r = Inl (Err e)" "c' = c1" "w' = w" by (simp_all add: and_then_def)
    with err show thesis by (intro unanswered) simp_all
  next
    case (ok found c1)
    then have c1: "subs c1 = subs c" "found = pending i topic (subs c)" "up c \<Longrightarrow> up c1"
      by (simp_all add: pending_def split: option.splits)
    show thesis
    proof (cases found)
      case None
      with run q ok(1,2) have "r = Inr (empty_response NOT_FOUND)" "c' = c1" "w' = w"
        by (simp_all add: and_then_def)
      with None c1 show thesis by (intro unknown) simp_all
    next
      case (Some hub)
      let ?e = "lease_expiry now lease"
      show thesis
      proof (cases "refresh_time debug svc ?e :: ('e, u64) result")
        case (Inl f)
        with run q ok(1,2) Some have "r = Inl f" "c' = c1" "w' = w" by (simp_all add: and_then_def)
        with Some c1 Inl show thesis by (intro too_early) simp_all
      next
        case (Inr t)
        obtain r2 c2 w2 where tr:
          "conn_transaction D (accept_body D L svc i hub topic ?e) (c1, hasten t w) = (r2, (c2, w2))"
          by (metis prod_cases3)
        with run q ok(1,2) Some Inr have r: "c' = c2" "w' = w2"
          "r = (case r2 of Inl f \<Rightarrow> Inl f | Inr _ \<Rightarrow> Inr (response_new challenge))"
          by (cases r2; simp add: and_then_def)+
        show thesis
          using transaction tr
        proof (cases rule: transactionE)
          case (not_begun e)
          with c1 r Some Inr show thesis by (intro undone [of hub t e "[]"]) auto
        next
          case (committed c3 a c4)
          from accept_body_result [OF committed(3)] committed(1) obtain futs old where
            "w2 = (hasten t w)\<lparr>spawned := spawned w @ futs\<rparr>" "subs c4 = verified i ?e hub topic (subs c1)"
            "up c3 \<longrightarrow> up c4" "distinct old" "set old = duplicates i hub topic (subs c1)"
            "list_all2 (drops L (callback svc) hub topic) old futs"
            by auto
          with c1 r Some Inr committed show thesis by (intro accepted [of hub t futs old]) simp_all
        next
          case (not_committed c3 a c4 e)
          from accept_body_result [OF not_committed(3)] obtain futs where
            "w2 = (hasten t w)\<lparr>spawned := spawned w @ futs\<rparr>" "up c3 \<longrightarrow> up c4" by auto
          with c1 r Some Inr not_committed show thesis by (intro undone [of hub t e futs]) auto
        next
          case (rolled_back c3 c4 e)
          from accept_body_result [OF rolled_back(3)] obtain futs where
            "w2 = (hasten t w)\<lparr>spawned := spawned w @ futs\<rparr>" "\<not> up c3" by auto
          with c1 r Some Inr rolled_back show thesis by (intro undone [of hub t e futs]) auto
        next
          case (no_return c3 c4)
          from accept_body_result [OF no_return(3)] no_return(4) obtain futs where
            "w2 = (hasten t w)\<lparr>spawned := spawned w @ futs\<rparr>" "r2 = Inl Panic"
            "uri_parse (uri_of L) hub = None" by auto
          with c1 r Some Inr show thesis by (intro panics [of hub t futs]) simp_all
        qed
      qed
    qed
  qed
qed

end

section \<open>What a verification leaves\<close>

lemma pending_Some:
  "pending i topic m = Some hub \<longleftrightarrow>
     (\<exists>s. m i = Some s \<and> sub_topic s = topic \<and> sub_hub s = hub \<and> sub_expires_at s = None)"
  by (auto simp: pending_def split: option.splits)

text \<open>The verified subscription is active, and the only one to its topic at its hub.\<close>

lemma verified_alone:
  assumes "pending i topic m = Some hub"
  shows "verified i e hub topic m j = Some s \<and> sub_hub s = hub \<and> sub_topic s = topic \<longleftrightarrow>
    j = i \<and> m i = Some (s\<lparr>sub_expires_at := None\<rparr>) \<and> sub_expires_at s = Some e"
proof -
  obtain s0 where s0: "m i = Some s0" "sub_topic s0 = topic" "sub_hub s0 = hub" "sub_expires_at s0 = None"
    using assms by (auto simp: pending_Some)
  have "i \<notin> duplicates i hub topic m" by (simp add: duplicates_def)
  then have i: "verified i e hub topic m i = Some (s0\<lparr>sub_expires_at := Some e\<rparr>)"
    using s0(1) by (simp add: verified_def activated_def)
  have "\<not> (sub_hub s = hub \<and> sub_topic s = topic)" if "verified i e hub topic m j = Some s" "j \<noteq> i" for s
    using that by (auto simp: verified_def activated_def duplicates_def restrict_map_def split: if_splits)
  then show ?thesis
  proof (cases "j = i")
    case True
    have "s0\<lparr>sub_expires_at := Some e\<rparr> = s \<longleftrightarrow> s0 = s\<lparr>sub_expires_at := None\<rparr> \<and> sub_expires_at s = Some e"
      using s0(4) by (cases s; cases s0) auto
    with True i s0 show ?thesis by auto
  qed blast
qed

lemma verified_other:
  "j \<noteq> i \<Longrightarrow> verified i e hub topic m j = (if j \<in> duplicates i hub topic m then None else m j)"
  by (simp add: verified_def activated_def)

context subscriber_service
begin

lemma verify_pending:
  assumes "up c"
    and "verify_of_fields (form_parse (form_of L) query) = Some (VerifySubscribe topic challenge lease)"
    and "pending i topic (subs c) = Some hub" "uri_parse (uri_of L) hub \<noteq> None"
    and "int (unat (renewal_margin svc)) \<le> sint (lease_expiry now lease)"
  obtains c' old futs where
    "verify_intent D L debug svc now i query (c, w) = (Inr (response_new challenge),
       (c', (hasten (lease_expiry now lease - renewal_margin svc) w)\<lparr>spawned := spawned w @ futs\<rparr>))"
    "subs c' = verified i (lease_expiry now lease) hub topic (subs c)" "up c'" "distinct old"
    "set old = duplicates i hub topic (subs c)" "list_all2 (drops L (callback svc) hub topic) old futs"
proof -
  note refresh = refresh_time_late [OF assms(5)]
  obtain r c' w' where run: "verify_intent D L debug svc now i query (c, w) = (r, (c', w'))"
    by (metis prod_cases3)
  from assms(2) run show thesis
  proof (cases rule: verify_subscribe_cases)
    case (accepted hub' t old futs)
    then have "hub' = hub" "t = lease_expiry now lease - renewal_margin svc"
      using assms(3) by (simp_all add: refresh)
    with accepted run assms(1) show thesis by (intro that [of c' futs old]) simp_all
  qed (use assms in \<open>simp_all add: refresh\<close>)
qed

lemma verify_unsubscribe_cases:
  assumes "verify_of_fields (form_parse (form_of L) query) = Some (VerifyUnsubscribe topic challenge)"
    and "verify_intent D L debug svc now i query (c, w) = (r, (c', w'))"
  shows "subs c' = subs c \<and> w' = w \<and> (up c \<longrightarrow> up c') \<and>
    ((\<exists>e. r = Inl (Err e) \<and> \<not> up c) \<or>
     r = Inr (if \<exists>s. subs c i = Some s \<and> sub_topic s = topic then empty_response NOT_FOUND
              else response_new challenge))"
proof -
  obtain r1 t1 where q: "on_fst (conn_subscription_exists D i topic) (c, w) = (r1, t1)"
    by (metis surj_pair)
  note run = assms(2) [unfolded verify_intent_def assms(1)]
  show ?thesis
    using subscription_exists q
  proof (cases rule: statement_on_fstE)
    case (ok found c1)
    with run q show ?thesis by (auto simp: and_then_def)
  next
    case (err e c1)
    with run q show ?thesis by (auto simp: and_then_def)
  qed
qed

lemma verify_malformed:
  "verify_of_fields (form_parse (form_of L) query) = None \<Longrightarrow>
     verify_intent D L debug svc now i query s = (Inr (empty_response NOT_FOUND), s)"
  by (simp add: verify_intent_def)

end

section \<open>Properties\<close>

text \<open>
  C7: when a hub confirms a subscription that is waiting for it, the challenge is echoed, the
  subscription becomes active until its lease ends, every other one to the same topic at the
  same hub is deleted and its hub asked to drop it, and the scheduler is hastened to the expiry
  less the margin.
\<close>

theorem verify_activates:
  assumes "subscriber_service L D subs up svc" "up c"
    and "verify_of_fields (form_parse (form_of L) query) = Some (VerifySubscribe topic challenge lease)"
    and "subs c i = Some s" "sub_topic s = topic" "sub_expires_at s = None"
    and "uri_parse (uri_of L) (sub_hub s) \<noteq> None"
    and "int (unat (renewal_margin svc)) \<le> sint (lease_expiry now lease)"
  shows "\<exists>t c' w' old futs.
    verify_intent D L debug svc now i query (c, w) = (Inr (response_new challenge), (c', w')) \<and>
    (\<forall>j s'. subs c' j = Some s' \<and> sub_hub s' = sub_hub s \<and> sub_topic s' = topic \<longleftrightarrow>
       j = i \<and> s' = s\<lparr>sub_expires_at := Some (lease_expiry now lease)\<rparr>) \<and>
    (\<forall>j. j \<noteq> i \<longrightarrow> subs c' j = (if j \<in> set old then None else subs c j)) \<and>
    set old = duplicates i (sub_hub s) topic (subs c) \<and> distinct old \<and>
    int (unat t) = sint (lease_expiry now lease) - int (unat (renewal_margin svc)) \<and>
    w' = (hasten t w)\<lparr>spawned := spawned w @ futs\<rparr> \<and>
    list_all2 (drops L (callback svc) (sub_hub s) topic) old futs"
proof -
  let ?e = "lease_expiry now lease"
  have p: "pending i topic (subs c) = Some (sub_hub s)" using assms(4-6) by (simp add: pending_Some)
  obtain c' old futs where facts: "verify_intent D L debug svc now i query (c, w) = (Inr (response_new challenge),
       (c', (hasten (?e - renewal_margin svc) w)\<lparr>spawned := spawned w @ futs\<rparr>))"
    "subs c' = verified i ?e (sub_hub s) topic (subs c)" "distinct old"
    "set old = duplicates i (sub_hub s) topic (subs c)"
    "list_all2 (drops L (callback svc) (sub_hub s) topic) old futs"
    by (rule subscriber_service.verify_pending [OF assms(1-3) p assms(7,8)])
  have "\<forall>j s'. subs c' j = Some s' \<and> sub_hub s' = sub_hub s \<and> sub_topic s' = topic \<longleftrightarrow>
     j = i \<and> s' = s\<lparr>sub_expires_at := Some ?e\<rparr>"
  proof (intro allI)
    fix j s'
    have "s = s'\<lparr>sub_expires_at := None\<rparr> \<and> sub_expires_at s' = Some ?e \<longleftrightarrow>
        s' = s\<lparr>sub_expires_at := Some ?e\<rparr>"
      using assms(6) by (cases s; cases s') auto
    then show "subs c' j = Some s' \<and> sub_hub s' = sub_hub s \<and> sub_topic s' = topic \<longleftrightarrow>
       j = i \<and> s' = s\<lparr>sub_expires_at := Some ?e\<rparr>"
      using verified_alone [OF p, of ?e j s'] assms(4) unfolding facts(2) by auto
  qed
  moreover have "\<forall>j. j \<noteq> i \<longrightarrow> subs c' j = (if j \<in> set old then None else subs c j)"
    using verified_other unfolding facts(2,4) by metis
  ultimately show ?thesis
    using facts refresh_time_late(2) [OF assms(8)] by (intro exI conjI) (assumption | rule refl)+
qed

text \<open>A query that asks for what it says, and a table with an old and a new subscription.\<close>

lemma mem_query_string:
  obtains q where "verify_of_fields (form_parse (form_of reference_crates) q) = Some v"
  using form_spec.form_roundtrip [OF reference_crates.form_laws, of "verify_fields v"] verify_roundtrip by metis

definition mem_renewing :: mem where
  "mem_renewing = \<lparr>mem_rows = [(1, mem_sub), (3, mem_sub\<lparr>sub_expires_at := None\<rparr>)], mem_faults = []\<rparr>"

lemma mem_renewing:
  "mem_table mem_renewing = [1 \<mapsto> mem_sub, 3 \<mapsto> mem_sub\<lparr>sub_expires_at := None\<rparr>]" "mem_up mem_renewing"
  by (auto simp: mem_renewing_def mem_table_def mem_up_def)

lemma mem_sub_uri: "uri_parse (uri_of reference_crates) (sub_hub mem_sub) \<noteq> None"
  by (simp add: mem_sub_def reference_crates_def text_uri_def)

theorem verify_activates_witness:
  "\<exists>q c' w' fut. verify_intent (diesel2_connection mem_diesel counter_rng) reference_crates True mem_svc 1000 3 q
     (mem_renewing, quiet_world) = (Inr (response_new ''c''), (c', w')) \<and>
   mem_table c' 1 = None \<and> mem_table c' 3 = Some (mem_sub\<lparr>sub_expires_at := Some 865000\<rparr>) \<and>
   spawned w' = [fut]"
proof -
  let ?s = "mem_sub\<lparr>sub_expires_at := None\<rparr>" and ?e = "lease_expiry 1000 864000"
  obtain q where q: "verify_of_fields (form_parse (form_of reference_crates) q) =
      Some (VerifySubscribe ''t'' ''c'' 864000)" by (rule mem_query_string)
  have row: "mem_table mem_renewing 3 = Some ?s" by (simp add: mem_renewing)
  have s: "sub_topic ?s = ''t''" "sub_expires_at ?s = None" "sub_hub ?s = ''h''" by (simp_all add: mem_sub_def)
  have uri: "uri_parse (uri_of reference_crates) (sub_hub ?s) \<noteq> None" using mem_sub_uri by simp
  have e: "?e = 865000" by (simp add: lease_expiry_def saturating_add_def i64_try_from_def)
  have margin: "int (unat (renewal_margin mem_svc)) \<le> sint ?e"
    unfolding e by (simp add: mem_svc_def)
  have old: "duplicates 3 ''h'' ''t'' (mem_table mem_renewing) = {1}"
    unfolding mem_renewing(1) by (auto simp: duplicates_def mem_sub_def split: if_splits)
  from verify_activates [OF mem_svc.subscriber_service_axioms, OF mem_renewing(2), OF q, OF row, OF s(1,2),
      OF uri margin, of True quiet_world]
  obtain t c' w' os futs where
    run: "verify_intent (diesel2_connection mem_diesel counter_rng) reference_crates True mem_svc 1000 3 q
      (mem_renewing, quiet_world) = (Inr (response_new ''c''), (c', w'))"
    and only: "\<forall>j s'. mem_table c' j = Some s' \<and> sub_hub s' = sub_hub ?s \<and> sub_topic s' = ''t'' \<longleftrightarrow>
      j = 3 \<and> s' = ?s\<lparr>sub_expires_at := Some ?e\<rparr>"
    and rest: "\<forall>j. j \<noteq> 3 \<longrightarrow> mem_table c' j = (if j \<in> set os then None else mem_table mem_renewing j)"
    and os: "set os = duplicates 3 (sub_hub ?s) ''t'' (mem_table mem_renewing)" "distinct os"
    and w': "w' = (hasten t quiet_world)\<lparr>spawned := spawned quiet_world @ futs\<rparr>"
    and futs: "list_all2 (drops reference_crates (callback mem_svc) (sub_hub ?s) ''t'') os futs"
    by (elim exE conjE) (rule that)
  have "length os = 1" using os s(3) old distinct_card [of os] by simp
  then have "length futs = 1" using list_all2_lengthD [OF futs] by simp
  then obtain fut where "futs = [fut]" by (auto simp: length_Suc_conv)
  moreover have "mem_table c' 1 = None" using rest os(1) s(3) old by simp
  moreover have "mem_table c' 3 = Some (mem_sub\<lparr>sub_expires_at := Some 865000\<rparr>)"
    using only [THEN spec, THEN spec, of 3 "mem_sub\<lparr>sub_expires_at := Some 865000\<rparr>"] e by simp
  ultimately show ?thesis using run w' by (intro exI [of _ q] exI [of _ c'] exI [of _ w'] exI [of _ fut]) simp
qed

text \<open>
  C8: a confirmation is answered with the challenge exactly when the subscriber has that intent:
  an inactive subscription of this id to this topic, or no subscription of this id to the topic
  that is to be dropped; everything else is answered with 404 and changes nothing.
\<close>

theorem verify_grants_intents:
  assumes "subscriber_service L D subs up svc"
    and "verify_intent D L debug svc now i query (c, w) = (Inr resp, (c', w'))"
  shows "case verify_of_fields (form_parse (form_of L) query) of
      Some (VerifySubscribe topic challenge lease) \<Rightarrow>
        if \<exists>s. subs c i = Some s \<and> sub_topic s = topic \<and> sub_expires_at s = None
        then resp = response_new challenge
        else resp = empty_response NOT_FOUND \<and> subs c' = subs c \<and> w' = w
    | Some (VerifyUnsubscribe topic challenge) \<Rightarrow>
        resp = (if \<exists>s. subs c i = Some s \<and> sub_topic s = topic then empty_response NOT_FOUND
                else response_new challenge) \<and> subs c' = subs c \<and> w' = w
    | None \<Rightarrow> resp = empty_response NOT_FOUND \<and> subs c' = subs c \<and> w' = w"
proof (cases "verify_of_fields (form_parse (form_of L) query)")
  case None
  with subscriber_service.verify_malformed [OF assms(1) None] assms(2) show ?thesis by simp
next
  case (Some v)
  show ?thesis
  proof (cases v)
    case (VerifyUnsubscribe topic challenge)
    with Some subscriber_service.verify_unsubscribe_cases [OF assms(1) _ assms(2)] show ?thesis by simp
  next
    case (VerifySubscribe topic challenge lease)
    with Some have parsed: "verify_of_fields (form_parse (form_of L) query) =
        Some (VerifySubscribe topic challenge lease)" by simp
    show ?thesis
    proof (cases rule: subscriber_service.verify_subscribe_cases [OF assms(1) parsed assms(2),
          case_names unanswered unknown too_early accepted undone panics])
      case unknown
      then have "\<not> (\<exists>s. subs c i = Some s \<and> sub_topic s = topic \<and> sub_expires_at s = None)"
        by (auto simp: pending_def split: if_splits)
      with unknown parsed show ?thesis by auto
    next
      case (accepted hub t old futs)
      then have "\<exists>s. subs c i = Some s \<and> sub_topic s = topic \<and> sub_expires_at s = None"
        by (auto simp: pending_Some)
      with accepted(3) parsed show ?thesis by simp
    qed simp_all
  qed
qed

theorem verify_grants_intents_witness:
  "\<exists>q c'. verify_intent (diesel2_connection mem_diesel counter_rng) reference_crates True mem_svc 1000 2 q
     (mem_renewing, quiet_world) = (Inr (response_new ''c''), (c', quiet_world)) \<and>
   mem_table c' = mem_table mem_renewing"
proof -
  obtain q where q: "verify_of_fields (form_parse (form_of reference_crates) q) =
      Some (VerifyUnsubscribe ''t'' ''c'')" by (rule mem_query_string)
  obtain r c' w' where run: "verify_intent (diesel2_connection mem_diesel counter_rng) reference_crates True
      mem_svc 1000 2 q (mem_renewing, quiet_world) = (r, (c', w'))" by (metis prod_cases3)
  have none: "mem_table mem_renewing 2 = None" by (simp add: mem_renewing)
  have "\<exists>resp. r = Inr resp"
    using mem_svc.verify_unsubscribe_cases [OF q run] mem_renewing(2) by auto
  then obtain resp where r: "r = Inr resp" by blast
  from verify_grants_intents [OF mem_svc.subscriber_service_axioms run [unfolded r]]
  have "resp = response_new ''c''" "mem_table c' = mem_table mem_renewing" "w' = quiet_world"
    unfolding q none by simp_all
  with run r show ?thesis by blast
qed

text \<open>
  C36: when the lease would end less than the margin after the Unix epoch, which takes a margin
  of decades, the time of renewal underflows: with overflow checks the request panics before
  anything is stored, hastened or spawned; without them the subscription is activated all the
  same, and the scheduler is hastened to a time of the far future.
\<close>

theorem verify_refresh_underflow:
  assumes "subscriber_service L D subs up svc" "up c"
    and "verify_of_fields (form_parse (form_of L) query) = Some (VerifySubscribe topic challenge lease)"
    and "subs c i = Some s" "sub_topic s = topic" "sub_expires_at s = None"
    and "uri_parse (uri_of L) (sub_hub s) \<noteq> None"
    and "sint (lease_expiry now lease) < int (unat (renewal_margin svc))"
  shows "(\<exists>c'. verify_intent D L True svc now i query (c, w) = (Inl Panic, (c', w)) \<and> subs c' = subs c) \<and>
    (\<exists>c' w' futs. verify_intent D L False svc now i query (c, w) = (Inr (response_new challenge), (c', w')) \<and>
      subs c' = verified i (lease_expiry now lease) (sub_hub s) topic (subs c) \<and>
      w' = (hasten (lease_expiry now lease - renewal_margin svc) w)\<lparr>spawned := spawned w @ futs\<rparr>)"
proof
  let ?e = "lease_expiry now lease"
  have p: "pending i topic (subs c) = Some (sub_hub s)" using assms(4-6) by (simp add: pending_Some)
  have pos: "0 \<le> sint ?e" by (simp add: sint_lease_expiry)
  then have less: "?e < renewal_margin svc"
    using assms(8) sint_unat [OF pos] by (simp add: word_less_def)
  note refresh = refresh_time_def u64_sub_def less
  obtain r c' w' where run: "verify_intent D L True svc now i query (c, w) = (r, (c', w'))"
    by (metis prod_cases3)
  show "\<exists>c'. verify_intent D L True svc now i query (c, w) = (Inl Panic, (c', w)) \<and> subs c' = subs c"
    by (cases rule: subscriber_service.verify_subscribe_cases [OF assms(1,3) run])
      (use assms(2,7) p run in \<open>simp_all add: refresh\<close>)
  obtain r c' w' where run: "verify_intent D L False svc now i query (c, w) = (r, (c', w'))"
    by (metis prod_cases3)
  show "\<exists>c' w' futs. verify_intent D L False svc now i query (c, w) = (Inr (response_new challenge), (c', w')) \<and>
      subs c' = verified i ?e (sub_hub s) topic (subs c) \<and> w' = (hasten (?e - renewal_margin svc) w)\<lparr>spawned := spawned w @ futs\<rparr>"
    by (cases rule: subscriber_service.verify_subscribe_cases [OF assms(1,3) run])
      (use assms(2,7) p run in \<open>auto simp: refresh\<close>)
qed

text \<open>A service whose margin is longer than the time since the epoch.\<close>

definition patient_svc :: "(string \<times> string option) service" where
  "patient_svc = mem_svc\<lparr>renewal_margin := 1000000\<rparr>"

interpretation patient_svc: subscriber_service reference_crates "diesel2_connection mem_diesel counter_rng"
  mem_table mem_up patient_svc
  by (intro subscriber_service.intro subscriber_service_axioms.intro mem_hub.hub_client_axioms)
    (use mem_svc.callback_prepared in \<open>simp add: patient_svc_def\<close>)

theorem verify_refresh_underflow_witness:
  "\<exists>q c1 c' w'. verify_intent (diesel2_connection mem_diesel counter_rng) reference_crates True patient_svc 1000 3 q
     (mem_renewing, quiet_world) = (Inl Panic, (c1, quiet_world)) \<and> mem_table c1 = mem_table mem_renewing \<and>
   verify_intent (diesel2_connection mem_diesel counter_rng) reference_crates False patient_svc 1000 3 q
     (mem_renewing, quiet_world) = (Inr (response_new ''c''), (c', w'))"
proof -
  let ?s = "mem_sub\<lparr>sub_expires_at := None\<rparr>"
  obtain q where q: "verify_of_fields (form_parse (form_of reference_crates) q) =
      Some (VerifySubscribe ''t'' ''c'' 864000)" by (rule mem_query_string)
  have row: "mem_table mem_renewing 3 = Some ?s" by (simp add: mem_renewing)
  have s: "sub_topic ?s = ''t''" "sub_expires_at ?s = None" by (simp_all add: mem_sub_def)
  have uri: "uri_parse (uri_of reference_crates) (sub_hub ?s) \<noteq> None" using mem_sub_uri by simp
  have margin: "sint (lease_expiry 1000 864000) < int (unat (renewal_margin patient_svc))"
    by (simp add: lease_expiry_def saturating_add_def i64_try_from_def patient_svc_def)
  show ?thesis
    using verify_refresh_underflow [OF patient_svc.subscriber_service_axioms, OF mem_renewing(2), OF q, OF row,
        OF s, OF uri margin, of quiet_world]
    by blast
qed

end
