(* ===== verification/Requests.thy ===== *)
theory Requests
  imports Intent
begin

text \<open>
  What \<open>Service::call\<close> does with a request: which ones it refuses, which signature of a
  distribution it takes, and the way of a subscription from the request to its hub, over the
  verification, to the delivery of an update.
\<close>

section \<open>The signature of a distribution\<close>

text \<open>The signatures among the header values, and the last of those with the strongest algorithm.\<close>

definition parsed ::
  "features \<Rightarrow> ('u, 'a, 'p, 'g) crates \<Rightarrow> u8 list list \<Rightarrow> signature list" where
  "parsed F L vs = List.map_filter
     (\<lambda>v. case parse F (memchr_of L) (hex_of L) v of Inl _ \<Rightarrow> None | Inr sig \<Rightarrow> Some sig) vs"

definition best :: "signature list \<Rightarrow> signature option" where
  "best sigs = (if sigs = [] then None
     else Some (last (filter (\<lambda>s. sig_alg s = Max (sig_alg ` set sigs)) sigs)))"

lemma best_snoc:
  "best (sigs @ [s]) =
     Some (case best sigs of None \<Rightarrow> s | Some prev \<Rightarrow> if is_preferable_to s prev then s else prev)"
proof (cases "sigs = []")
  case True
  then show ?thesis by (simp add: best_def)
next
  case False
  let ?M = "Max (sig_alg ` set sigs)"
  let ?top = "\<lambda>m. filter (\<lambda>s. sig_alg s = m) sigs"
  have "?M \<in> sig_alg ` set sigs" using False by (intro Max_in) auto
  then have "?top ?M \<noteq> []" by (auto simp: filter_empty_conv)
  then have prev: "sig_alg (last (?top ?M)) = ?M"
    using last_in_set [of "?top ?M"] by auto
  have max: "Max (sig_alg ` set (sigs @ [s])) = max (sig_alg s) ?M"
    using False by (simp add: Max_insert)
  show ?thesis
  proof (cases "?M \<le> sig_alg s")
    case True
    with False prev max show ?thesis by (simp add: best_def is_preferable_to_iff max_absorb1)
  next
    case lower: False
    then have "max (sig_alg s) ?M = ?M" "sig_alg s \<noteq> ?M" by (auto simp: max_absorb2 not_le)
    with False prev max lower show ?thesis by (auto simp: best_def is_preferable_to_iff)
  qed
qed

lemma select_best: "select_signature F L (best sigs) vs = best (sigs @ parsed F L vs)"
proof (induction vs arbitrary: sigs)
  case Nil
  show ?case by (simp add: parsed_def List.map_filter_def)
next
  case (Cons v vs)
  show ?case
  proof (cases "parse F (memchr_of L) (hex_of L) v")
    case (Inl e)
    with Cons show ?thesis by (simp add: parsed_def List.map_filter_simps)
  next
    case (Inr sig)
    have "parsed F L (v # vs) = sig # parsed F L vs"
      using Inr by (simp add: parsed_def List.map_filter_simps)
    moreover have "select_signature F L (best sigs) (v # vs) =
        select_signature F L (best (sigs @ [sig])) vs"
      using Inr by (simp add: best_snoc split: option.splits)
    ultimately show ?thesis using Cons [of "sigs @ [sig]"] by simp
  qed
qed

section \<open>The callback of a request\<close>

lemma strip_prefix_Some: "strip_prefix p s = Some t \<longleftrightarrow> s = p @ t"
proof -
  have "s = p @ t \<longleftrightarrow> take (length p) s = p \<and> drop (length p) s = t"
    by (metis append_eq_conv_conj)
  then show ?thesis by (simp add: strip_prefix_def)
qed

lemma strip_prefix_None: "strip_prefix p s = None \<longleftrightarrow> (\<nexists>t. s = p @ t)"
  by (metis option.exhaust option.distinct(1) strip_prefix_Some)

text \<open>The id a request is about, if its path is that of a callback.\<close>

definition resolves :: "('u, 'a, 'p, 'g) crates \<Rightarrow> 'u service \<Rightarrow> ('u, 'b) server_request \<Rightarrow> u64 \<Rightarrow> bool" where
  "resolves L svc req i \<longleftrightarrow> (\<exists>tail.
     uri_path (uri_of L) (req_uri req) = uri_path (uri_of L) (callback svc) @ tail \<and>
     decode (base64_of L) tail = Some i)"

text \<open>What a request about a known id leads to, once there is a connection.\<close>

definition handle_id ::
  "('c, 'e, ('g, 'u, 'b, 'm, 'z) world_scheme) connection \<Rightarrow> ('u, 'a, 'p, 'g) crates \<Rightarrow>
    'm mac_crate \<Rightarrow> features \<Rightarrow> bool \<Rightarrow> 'u service \<Rightarrow> u64 \<Rightarrow> u64 \<Rightarrow> ('u, 'b) server_request \<Rightarrow>
    ('c \<times> ('g, 'u, 'b, 'm, 'z) world_scheme, ('pe, 'e) service_error, response) action" where
  "handle_id D L K F debug svc now i req =
     (case uri_query (uri_of L) (req_uri req) of
        Some q \<Rightarrow> map_err ConnectionError (verify_intent D L debug svc now i q)
      | None \<Rightarrow>
          (case best (parsed F L (get_all (req_headers req) HUB_SIGNATURE)) of
             None \<Rightarrow> ret response_default
           | Some sig \<Rightarrow>
               and_then (map_err ConnectionError (on_fst (conn_get_topic D i))) (\<lambda>cols.
               case cols of
                 None \<Rightarrow> ret (empty_response GONE)
               | Some (topic, secret) \<Rightarrow>
                   and_then (lift (content_new K (req_body req) sig (as_bytes secret))) (\<lambda>content.
                   and_then (start_send \<lparr>update_topic = topic, update_headers = req_headers req,
                     update_content = content\<rparr>) (\<lambda>_.
                   ret response_default)))))"

lemma service_call_resolves:
  assumes "resolves L svc req i"
  shows "service_call get D L K F debug svc now req =
    and_then (map_err PoolError (on_fst get)) (\<lambda>_. handle_id D L K F debug svc now i req)"
proof -
  obtain tail where tail: "strip_prefix (uri_path (uri_of L) (callback svc))
      (uri_path (uri_of L) (req_uri req)) = Some tail" "decode (base64_of L) tail = Some i"
    using assms by (auto simp: resolves_def strip_prefix_Some)
  have "select_signature F L None vs = best (parsed F L vs)" for vs
    using select_best [of F L "[]" vs] by (simp add: best_def)
  then show ?thesis
    unfolding service_call_def handle_id_def tail option.case by (simp only:)
qed

text \<open>The pool yields a connection or fails.\<close>

lemma with_connection:
  assumes "statement subs up get (\<lambda>m _ m'. m' = m)"
    and "and_then (map_err PoolError (on_fst get)) (\<lambda>_. k) (c, w) = (r, (c', w'))"
  obtains (no_connection) e where "r = Inl (Err (PoolError e))" "subs c' = subs c" "w' = w" "\<not> up c"
  | (connection) c1 where "subs c1 = subs c" "up c \<Longrightarrow> up c1" "k (c1, w) = (r, (c', w'))"
proof -
  obtain r1 t1 where get: "on_fst get (c, w) = (r1, t1)" by (metis surj_pair)
  show thesis
    using assms(1) get
  proof (cases rule: statement_on_fstE)
    case (err e c1)
    with assms(2) get have "r = Inl (Err (PoolError e))" "c' = c1" "w' = w"
      by (simp_all add: and_then_def map_err_def)
    with err show thesis by (intro no_connection) simp_all
  next
    case (ok a c1)
    with assms(2) get have "k (c1, w) = (r, (c', w'))" by (simp add: and_then_def map_err_def)
    with ok show thesis by (intro connection [of c1]) simp_all
  qed
qed

lemma with_connection_up:
  assumes "statement subs up get (\<lambda>m _ m'. m' = m)" "up c"
  obtains c1 where "subs c1 = subs c" "up c1"
    "and_then (map_err PoolError (on_fst get)) (\<lambda>_. k) (c, w) = k (c1, w)"
proof -
  obtain r c' w' where run: "and_then (map_err PoolError (on_fst get)) (\<lambda>_. k) (c, w) = (r, (c', w'))"
    by (metis prod_cases3)
  from assms(1) run show thesis
    by (cases rule: with_connection) (use assms(2) that run in auto)
qed

lemma content_new_any:
  "(content_new K b sig secret :: ('e, ('b, 'm) content) result) = Inr c \<Longrightarrow>
   (content_new K b sig secret :: ('f, ('b, 'm) content) result) = Inr c"
  by (cases sig; cases "new_from_slice K (sig_alg sig) secret")
    (simp_all add: content_new_def generic_verifier_new_def)

section \<open>Requests of the reference service\<close>

definition all_features :: features where
  "all_features = \<lparr>sha_1 = True, sha_2 = True\<rparr>"

definition mem_request :: "string \<Rightarrow> headers \<Rightarrow> 'b \<Rightarrow> (string \<times> string option, 'b) server_request" where
  "mem_request p hs b = \<lparr>req_uri = (''http://sub'', Some p), req_headers = hs, req_body = b\<rparr>"

text \<open>The header of a signature whose digest is all \<open>0xAB\<close>, which \<open>constant_mac\<close> computes.\<close>

definition constant_digest :: "digest_alg \<Rightarrow> u8 list \<Rightarrow> u8 list \<Rightarrow> u8 list" where
  "constant_digest a k m = replicate (output_size a) 171"

definition sha1_header :: headers where
  "sha1_header = [(HUB_SIGNATURE, as_bytes (method_name SHA1) @ eq_sign # hex_encode (constant_digest SHA1 [] []))]"

lemma sha1_header_parsed:
  "parsed all_features reference_crates (get_all sha1_header HUB_SIGNATURE) = [Sha1 (replicate 20 171)]"
  using parse_known [OF list_memchr.memchr_spec_axioms, of all_features SHA1 list_hex
      "hex_encode (constant_digest SHA1 [] [])"]
  by (simp add: parsed_def get_all_def sha1_header_def List.map_filter_simps reference_crates_def all_features_def
      decode_hex_eq [OF list_hex.hex_spec_axioms] constant_digest_def)

text \<open>Where the callback of an id is, and a request to it, with or without a query.\<close>

definition mem_tail :: "u64 \<Rightarrow> string" where
  "mem_tail i = encode list_memchr rfc4648_engine (to_le_bytes i)"

lemma mem_tail_no_query: "CHR ''?'' \<notin> set (mem_tail i)"
  using rfc4648.display_alphabet by (fastforce simp: mem_tail_def encode_def Let_def url_safe_alphabet_def)

lemma mem_request_reads:
  "uri_path (uri_of reference_crates) (req_uri (mem_request (''/'' @ mem_tail i) hs b)) = ''/'' @ mem_tail i"
  "uri_query (uri_of reference_crates) (req_uri (mem_request (''/'' @ mem_tail i) hs b)) = None"
  "uri_path (uri_of reference_crates) (req_uri (mem_request (''/'' @ mem_tail i @ ''?'' @ q) hs b)) = ''/'' @ mem_tail i"
  "uri_query (uri_of reference_crates) (req_uri (mem_request (''/'' @ mem_tail i @ ''?'' @ q) hs b)) = Some q"
  "uri_path (uri_of reference_crates) (callback mem_svc) = ''/''"
proof -
  have no: "CHR ''?'' \<notin> set (''/'' @ mem_tail i)" using mem_tail_no_query by simp
  have "takeWhile (\<lambda>c. c \<noteq> CHR ''?'') (mem_tail i @ CHR ''?'' # q) = mem_tail i"
    "dropWhile (\<lambda>c. c \<noteq> CHR ''?'') (mem_tail i @ CHR ''?'' # q) = CHR ''?'' # q"
    using mem_tail_no_query [of i]
    by (subst takeWhile_append2 dropWhile_append2; force)+
  then show "uri_path (uri_of reference_crates) (req_uri (mem_request (''/'' @ mem_tail i @ ''?'' @ q) hs b)) = ''/'' @ mem_tail i"
    "uri_query (uri_of reference_crates) (req_uri (mem_request (''/'' @ mem_tail i @ ''?'' @ q) hs b)) = Some q"
    by (simp_all add: mem_request_def reference_crates_def text_uri_def path_of_def query_of_def)
  show "uri_path (uri_of reference_crates) (req_uri (mem_request (''/'' @ mem_tail i) hs b)) = ''/'' @ mem_tail i"
    "uri_query (uri_of reference_crates) (req_uri (mem_request (''/'' @ mem_tail i) hs b)) = None"
    using path_of_no_query [OF no] by (simp_all add: mem_request_def reference_crates_def text_uri_def)
  show "uri_path (uri_of reference_crates) (callback mem_svc) = ''/''"
    by (simp add: reference_crates_def text_uri_def mem_svc_def path_of_def)
qed

lemma mem_resolves:
  assumes "unat i < 2 ^ 56" "p = ''/'' @ mem_tail i \<or> p = ''/'' @ mem_tail i @ ''?'' @ q"
  shows "resolves reference_crates mem_svc (mem_request p hs b) i"
proof -
  have "decode (base64_of reference_crates) (mem_tail i) = Some i"
    using decode_encode_iff [OF list_memchr.memchr_spec_axioms rfc4648.url_safe_no_pad_axioms, of i] assms(1)
    by (simp add: mem_tail_def reference_crates_def)
  with assms(2) show ?thesis by (auto simp: resolves_def mem_request_reads [simplified])
qed

context subscriber_service
begin

text \<open>A distribution that carries a signature reaches the channel of updates.\<close>

lemma update_delivered:
  assumes "statement subs up get (\<lambda>m _ m'. m' = m)" "mac_spec K tag keyed" "up c"
    and "resolves L svc req i" "uri_query (uri_of L) (req_uri req) = None"
    and "best (parsed F L (get_all (req_headers req) HUB_SIGNATURE)) = Some sig" "subs c i = Some s"
  obtains c' content where "service_call get D L K F debug svc now req (c, w) =
      (Inr response_default :: (('pe, 'e) service_error, response) result,
       (c', if closed w then w else w\<lparr>sent := sent w @ [\<lparr>update_topic = sub_topic s,
          update_headers = req_headers req, update_content = content\<rparr>]\<rparr>))"
    "subs c' = subs c" "up c'"
    "content_new K (req_body req) sig (as_bytes (sub_secret s)) = (Inr content :: (unit, _) result)"
proof -
  obtain c1 where c1: "subs c1 = subs c" "up c1"
    "service_call get D L K F debug svc now req (c, w) = handle_id D L K F debug svc now i req (c1, w)"
    using with_connection_up [OF assms(1,3)] unfolding service_call_resolves [OF assms(4)] by metis
  obtain v where v: "(verify_with K sig (as_bytes (sub_secret s)) :: (unit, _) result) = Inr v"
    using mac_spec.verify_with_verifying [OF assms(2)] by blast
  define content where "content = \<lparr>body = req_body req, verifier = v\<rparr>"
  have unit: "(content_new K (req_body req) sig (as_bytes (sub_secret s)) :: (unit, _) result) = Inr content"
    using v by (simp add: content_new_def content_def)
  have new: "(content_new K (req_body req) sig (as_bytes (sub_secret s)) ::
      (('pe, 'e) service_error, _) result) = Inr content"
    by (rule content_new_any [OF unit])
  obtain r1 t1 where topic: "on_fst (conn_get_topic D i) (c1, w) = (r1, t1)" by (metis surj_pair)
  show thesis
    using get_topic topic
  proof (cases rule: statement_on_fstE)
    case (err e c2)
    with c1(2) show thesis by blast
  next
    case (ok cols c2)
    have "handle_id D L K F debug svc now i req (c1, w) =
      (Inr response_default :: (('pe, 'e) service_error, response) result,
       (c2, if closed w then w else w\<lparr>sent := sent w @ [\<lparr>update_topic = sub_topic s,
          update_headers = req_headers req, update_content = content\<rparr>]\<rparr>))"
      using assms(5-7) topic ok c1(1) new
      by (simp add: handle_id_def and_then_def map_err_def start_send_def)
    with c1 ok unit show thesis by (intro that [of c2 content]) simp_all
  qed
qed

end

section \<open>Properties\<close>

text \<open>
  Of the signatures of a distribution the last one with the strongest algorithm is taken,
  whatever the order of the headers; a header that is no signature is skipped.
\<close>

theorem select_signature_best: "select_signature F L None vs = best (parsed F L vs)"
  using select_best [of F L "[]" vs] by (simp add: best_def)

text \<open>
  A request that is about no subscription changes nothing and is answered with 410 exactly
  when its path is one segment under the callback prefix and it has no query, as
  if the subscription had existed, and with 404 otherwise.
\<close>

theorem call_elsewhere:
  assumes "\<nexists>i. resolves L svc req i"
  shows "\<exists>st. service_call get D L K F debug svc now req s = (Inr (empty_response st), s) \<and>
    st \<in> {GONE, NOT_FOUND} \<and>
    (st = GONE \<longleftrightarrow> uri_query (uri_of L) (req_uri req) = None \<and>
       (\<exists>tail. uri_path (uri_of L) (req_uri req) = uri_path (uri_of L) (callback svc) @ tail \<and>
          CHR ''/'' \<notin> set tail))"
proof (cases "strip_prefix (uri_path (uri_of L) (callback svc)) (uri_path (uri_of L) (req_uri req))")
  case None
  then show ?thesis
    unfolding service_call_def None option.case using None [unfolded strip_prefix_None] by auto
next
  case (Some tail)
  then have path: "uri_path (uri_of L) (req_uri req) = uri_path (uri_of L) (callback svc) @ tail"
    by (simp add: strip_prefix_Some)
  with assms have "decode (base64_of L) tail = None" by (auto simp: resolves_def)
  with Some path show ?thesis unfolding service_call_def by auto
qed

theorem call_elsewhere_witness:
  "\<exists>st. service_call (ret ()) (diesel2_connection mem_diesel counter_rng) reference_crates
     (buffered_mac constant_digest) all_features True mem_svc 1000
     (mem_request ''/no/such/callback'' [] ()) (mem_renewing, mem_world) =
   (Inr (empty_response st) :: ((unit, unit sql_error) service_error, response) result,
    (mem_renewing, mem_world)) \<and> st = NOT_FOUND"
proof -
  let ?req = "mem_request ''/no/such/callback'' [] ()"
  have path: "uri_path (uri_of reference_crates) (req_uri ?req) = ''/no/such/callback''"
    by (simp add: mem_request_def reference_crates_def text_uri_def path_of_def)
  have none: "\<nexists>i. resolves reference_crates mem_svc ?req i"
    unfolding resolves_def path mem_request_reads(5) by (auto simp: decode_def)
  have "\<not> (\<exists>tail. ''/no/such/callback'' = ''/'' @ tail \<and> CHR ''/'' \<notin> set tail)" by auto
  with call_elsewhere [OF none, of "ret ()" "diesel2_connection mem_diesel counter_rng"
      "buffered_mac constant_digest" all_features True 1000 "(mem_renewing, mem_world)"]
  show ?thesis unfolding path mem_request_reads(5) by blast
qed

text \<open>
  C6: a distribution with a signature for an existing subscription is answered with 200 and
  handed to the user under the topic of the subscription with its headers: reading the body
  passes its bytes on and ends without an error exactly when the chosen signature is
  the HMAC of the bytes under the secret of the subscription. Nothing is stored.
\<close>

theorem call_delivers:
  assumes "subscriber_service L D subs up svc" "statement subs up get (\<lambda>m _ m'. m' = m)"
    and "mac_spec K tag keyed" "buf_spec U contents good" "up c"
    and "resolves L svc req i" "uri_query (uri_of L) (req_uri req) = None"
    and "best (parsed F L (get_all (req_headers req) HUB_SIGNATURE)) = Some sig"
    and "subs c i = Some s"
  shows "\<exists>c' content. service_call get D L K F debug svc now req (c, w) =
      (Inr response_default :: (('pe, 'e) service_error, response) result,
       (c', if closed w then w else w\<lparr>sent := sent w @ [\<lparr>update_topic = sub_topic s,
          update_headers = req_headers req, update_content = content\<rparr>]\<rparr>)) \<and>
    subs c' = subs c \<and>
    (\<forall>B n rs b'. body_answers B (Suc n) (req_body req) = (rs @ [Ready None], b') \<longrightarrow>
       list_all (transfers good) rs \<longrightarrow>
       (\<exists>content'. poll_times (Suc n) (poll_data K U B) content =
          (Inr (map passed_on rs @ [verdict tag sig (as_bytes (sub_secret s)) (data_bytes contents rs)]),
           content')))"
proof -
  obtain c' content where run: "service_call get D L K F debug svc now req (c, w) =
      (Inr response_default :: (('pe, 'e) service_error, response) result,
       (c', if closed w then w else w\<lparr>sent := sent w @ [\<lparr>update_topic = sub_topic s,
          update_headers = req_headers req, update_content = content\<rparr>]\<rparr>))" "subs c' = subs c"
    and content: "content_new K (req_body req) sig (as_bytes (sub_secret s)) = (Inr content :: (unit, _) result)"
    by (rule subscriber_service.update_delivered [OF assms(1-3,5-9)])
  have "\<exists>content'. poll_times (Suc n) (poll_data K U B) content =
        (Inr (map passed_on rs @ [verdict tag sig (as_bytes (sub_secret s)) (data_bytes contents rs)]),
         content')"
    if "body_answers B (Suc n) (req_body req) = (rs @ [Ready None], b')" "list_all (transfers good) rs"
    for B n rs b'
    using reading_verifies [OF assms(3,4) that, of sig "as_bytes (sub_secret s)"] content by auto
  note reads = this
  show ?thesis
    by (rule exI [of _ c'], rule exI [of _ content], intro conjI allI impI) (use run reads in blast)+
qed

theorem call_delivers_witness:
  "\<exists>c' content content'. service_call (ret ()) (diesel2_connection mem_diesel counter_rng) reference_crates
     (buffered_mac constant_digest) all_features True mem_svc 1000
     (mem_request (''/'' @ mem_tail 1) sha1_header [Ready (Some (Inr [[1], [2, 3]]))]) (mem_renewing, mem_world) =
   (Inr response_default :: ((unit, unit sql_error) service_error, response) result,
    (c', mem_world\<lparr>sent := [\<lparr>update_topic = ''t'', update_headers = sha1_header, update_content = content\<rparr>]\<rparr>)) \<and>
   poll_times 2 (poll_data (buffered_mac constant_digest) rope_buf
        (scripted_body :: ((unit + u8 list list) option poll list, _, _, _) body_ops)) content =
     (Inr [Ready (Some (Inr [[1], [2, 3]])), Ready None], content')"
proof -
  let ?body = "[Ready (Some (Inr [[1], [2, 3]]))] :: (unit + u8 list list) option poll list"
  let ?w = "mem_world :: (u64, string \<times> string option, (unit + u8 list list) option poll list, u8 list \<times> u8 list) world"
  let ?req = "mem_request (''/'' @ mem_tail 1) sha1_header ?body"
  let ?sig = "Sha1 (replicate 20 171)"
  have res: "resolves reference_crates mem_svc ?req 1" by (rule mem_resolves) simp_all
  have query: "uri_query (uri_of reference_crates) (req_uri ?req) = None" by (rule mem_request_reads)
  have sig: "best (parsed all_features reference_crates (get_all (req_headers ?req) HUB_SIGNATURE)) = Some ?sig"
    using sha1_header_parsed by (simp add: mem_request_def best_def)
  have row: "mem_table mem_renewing 1 = Some mem_sub" by (simp add: mem_renewing)
  have body: "body_answers scripted_body (Suc 1) (req_body ?req) =
      ([Ready (Some (Inr [[1], [2, 3]]))] @ [Ready None], [])"
    by (simp add: scripted_body_def mem_request_def)
  have good: "list_all (transfers rope_good) [Ready (Some (Inr [[1 :: u8], [2, 3]])) :: (unit + _) option poll]"
    by (simp add: rope_good_def)
  have verdict: "verdict constant_digest ?sig (as_bytes (sub_secret mem_sub)) bytes = (Ready None :: (unit update_error + u8 list list) option poll)"
    for bytes by (simp add: verdict_def constant_digest_def)
  have "\<exists>c' content. service_call (ret ()) (diesel2_connection mem_diesel counter_rng) reference_crates
       (buffered_mac constant_digest) all_features True mem_svc 1000 ?req (mem_renewing, ?w) =
       (Inr response_default :: ((unit, unit sql_error) service_error, response) result,
        (c', if closed ?w then ?w else ?w\<lparr>sent := sent ?w @ [\<lparr>update_topic = sub_topic mem_sub,
          update_headers = req_headers ?req, update_content = content\<rparr>]\<rparr>)) \<and>
     mem_table c' = mem_table mem_renewing \<and>
     (\<forall>(B :: ((unit + u8 list list) option poll list, u8 list list, unit, unit) body_ops) n rs b'.
       body_answers B (Suc n) (req_body ?req) = (rs @ [Ready None], b') \<longrightarrow> list_all (transfers rope_good) rs \<longrightarrow>
       (\<exists>content'. poll_times (Suc n) (poll_data (buffered_mac constant_digest) rope_buf B) content =
          (Inr (map passed_on rs @ [verdict constant_digest ?sig (as_bytes (sub_secret mem_sub)) (data_bytes concat rs)]),
           content')))"
    by (rule call_delivers [OF mem_svc.subscriber_service_axioms always_statement
          buffered_mac.mac_spec_axioms rope.buf_spec_axioms mem_renewing(2) res query sig row])
  then obtain c' content where run: "service_call (ret ()) (diesel2_connection mem_diesel counter_rng) reference_crates
     (buffered_mac constant_digest) all_features True mem_svc 1000 ?req (mem_renewing, ?w) =
     (Inr response_default :: ((unit, unit sql_error) service_error, response) result,
      (c', if closed ?w then ?w else ?w\<lparr>sent := sent ?w @ [\<lparr>update_topic = sub_topic mem_sub,
          update_headers = req_headers ?req, update_content = content\<rparr>]\<rparr>))"
    and all: "\<forall>(B :: ((unit + u8 list list) option poll list, u8 list list, unit, unit) body_ops) n rs b'.
       body_answers B (Suc n) (req_body ?req) = (rs @ [Ready None], b') \<longrightarrow> list_all (transfers rope_good) rs \<longrightarrow>
       (\<exists>content'. poll_times (Suc n) (poll_data (buffered_mac constant_digest) rope_buf B) content =
          (Inr (map passed_on rs @ [verdict constant_digest ?sig (as_bytes (sub_secret mem_sub)) (data_bytes concat rs)]),
           content'))"
    by blast
  have reads: "\<exists>content'. poll_times (Suc 1) (poll_data (buffered_mac constant_digest) rope_buf scripted_body) content =
      (Inr (map passed_on [Ready (Some (Inr [[1], [2, 3]])) :: (unit + _) option poll] @
         [verdict constant_digest ?sig (as_bytes (sub_secret mem_sub))
           (data_bytes concat [Ready (Some (Inr [[1], [2, 3]])) :: (unit + _) option poll])]), content')"
    by (rule all [rule_format, OF body good])
  have "\<not> closed ?w" "sent ?w = []" "sub_topic mem_sub = ''t''" "req_headers ?req = sha1_header"
    by (simp_all add: mem_world_def mem_sub_def mem_request_def)
  with run reads show ?thesis unfolding verdict by (simp add: numeral_2_eq_2) blast
qed

text \<open>
  C32: a distribution for an id that has no subscription is answered with 410 only if it carries
  a signature; without one it is answered with 200 whether or not the subscription exists.
\<close>

theorem call_unknown_id:
  assumes "subscriber_service L D subs up svc" "statement subs up get (\<lambda>m _ m'. m' = m)" "up c"
    and "resolves L svc req i" "uri_query (uri_of L) (req_uri req) = None"
    and "parsed F L (get_all (req_headers req) HUB_SIGNATURE) = [] \<or> subs c i = None"
  shows "\<exists>c'. service_call get D L K F debug svc now req (c, w) =
      (Inr (if parsed F L (get_all (req_headers req) HUB_SIGNATURE) = [] then response_default
            else empty_response GONE) :: (('pe, 'e) service_error, response) result, (c', w)) \<and>
    subs c' = subs c"
proof -
  obtain c1 where c1: "subs c1 = subs c" "up c1"
    "service_call get D L K F debug svc now req (c, w) = handle_id D L K F debug svc now i req (c1, w)"
    using with_connection_up [OF assms(2,3)] unfolding service_call_resolves [OF assms(4)] by metis
  show ?thesis
  proof (cases "parsed F L (get_all (req_headers req) HUB_SIGNATURE) = []")
    case True
    with c1 assms(5) show ?thesis by (simp add: handle_id_def best_def)
  next
    case False
    then obtain sig where sig: "best (parsed F L (get_all (req_headers req) HUB_SIGNATURE)) = Some sig"
      by (simp add: best_def)
    obtain r1 t1 where topic: "on_fst (conn_get_topic D i) (c1, w) = (r1, t1)" by (metis surj_pair)
    have "connection_ref D (rand_of L) subs up"
      using assms(1) by (simp add: subscriber_service_def hub_client_def)
    from connection_ref.get_topic [OF this] topic show ?thesis
    proof (cases rule: statement_on_fstE)
      case (err e c2)
      with c1(2) show ?thesis by blast
    next
      case (ok cols c2)
      with c1 sig topic assms(5,6) False show ?thesis
        by (simp add: handle_id_def and_then_def map_err_def)
    qed
  qed
qed

theorem call_unknown_id_witness:
  "\<exists>c'. service_call (ret ()) (diesel2_connection mem_diesel counter_rng) reference_crates
     (buffered_mac constant_digest) all_features True mem_svc 1000
     (mem_request (''/'' @ mem_tail 2) sha1_header ()) (mem_renewing, mem_world) =
   (Inr (empty_response GONE) :: ((unit, unit sql_error) service_error, response) result, (c', mem_world))"
proof -
  let ?req = "mem_request (''/'' @ mem_tail 2) sha1_header ()"
  have res: "resolves reference_crates mem_svc ?req 2" by (rule mem_resolves) simp_all
  have query: "uri_query (uri_of reference_crates) (req_uri ?req) = None" by (rule mem_request_reads)
  have sig: "parsed all_features reference_crates (get_all (req_headers ?req) HUB_SIGNATURE) \<noteq> []"
    using sha1_header_parsed by (simp add: mem_request_def)
  have none: "mem_table mem_renewing 2 = None" by (simp add: mem_renewing)
  from call_unknown_id [OF mem_svc.subscriber_service_axioms, OF always_statement, OF mem_renewing(2), OF res,
      OF query, of all_features "buffered_mac constant_digest" True 1000 mem_world] none sig
  show ?thesis by auto
qed

text \<open>
  C5: the way of a subscription. A subscription at a valid hub stores an inactive row and yields
  a request that names its callback; if the id has a reversible callback, the hub's
  verification of the topic at that callback is answered with its challenge, and then the row is
  active until the lease ends, with the secret that was sent.
\<close>

theorem subscription_flow:
  assumes "subscriber_service L D subs up svc" "statement subs up get (\<lambda>m _ m'. m' = m)"
    and "up c" "dom (subs c) \<noteq> UNIV" "uri_parse (uri_of L) hub = Some u"
  shows "\<exists>i secret fut cb c1 g.
    service_subscribe D L debug svc hub topic (c, w) = (Inr fut, (c1, w\<lparr>thread_rng := g\<rparr>)) \<and>
    i \<notin> dom (subs c) \<and> subs c1 = created i hub topic secret (subs c) \<and>
    posts_form L (callback svc) i (\<lambda>cb. SubscribeForm cb topic secret) hub topic fut \<and>
    (make_callback L (callback svc) i :: (unit, 'u) result) = Inr cb \<and>
    (\<forall>req q challenge lease now.
       uri_path (uri_of L) (req_uri req) = uri_path (uri_of L) cb \<longrightarrow> uri_query (uri_of L) (req_uri req) = Some q \<longrightarrow>
       verify_of_fields (form_parse (form_of L) q) = Some (VerifySubscribe topic challenge lease) \<longrightarrow>
       int (unat (renewal_margin svc)) \<le> sint (lease_expiry now lease) \<longrightarrow>
       (unat i < 2 ^ 56 \<or> 0 \<notin> set (to_le_bytes i)) \<longrightarrow>
       (\<exists>c2 w2. service_call get D L K F debug svc now req (c1, w\<lparr>thread_rng := g\<rparr>) =
            (Inr (response_new challenge) :: (('pe, 'e) service_error, response) result, (c2, w2)) \<and>
          subs c2 i = Some \<lparr>sub_hub = hub, sub_topic = topic, sub_secret = secret,
            sub_expires_at = Some (lease_expiry now lease)\<rparr>))"
proof -
  have hc: "hub_client L D subs up" and crates: "crates_spec L"
    and prep: "prepared (uri_of L) (callback svc)"
    using assms(1) by (simp_all add: subscriber_service_def subscriber_service_axioms_def hub_client_def)
  obtain fut c1 g i secret where run:
      "hub_subscribe D L debug (callback svc) hub topic (c, w) = (Inr fut, (c1, w\<lparr>thread_rng := g\<rparr>))"
    and new: "i \<notin> dom (subs c)" "subs c1 = created i hub topic secret (subs c)" "up c1"
    and posts: "posts_form L (callback svc) i (\<lambda>cb. SubscribeForm cb topic secret) hub topic fut"
    using hub_client.hub_subscribe_total [OF hc prep assms(3-5), of debug topic w] by (elim exE conjE) (rule that)
  let ?s = "\<lparr>sub_hub = hub, sub_topic = topic, sub_secret = secret, sub_expires_at = None\<rparr>"
  have row: "subs c1 i = Some ?s" using new(2) by (simp add: created_def)
  obtain cb where cb: "(make_callback L (callback svc) i :: (unit, 'u) result) = Inr cb"
    "uri_path (uri_of L) cb = uri_path (uri_of L) (callback svc) @ encode (memchr_of L) (base64_of L) (to_le_bytes i)"
    by (rule crates_spec.make_callback_prepared [OF crates prep])
  have m: "memchr_spec (memchr_of L)" and b: "url_safe_no_pad (base64_of L)"
    using crates by (simp_all add: crates_spec_def)
  let ?w1 = "w\<lparr>thread_rng := g\<rparr>"
  have flow: "\<exists>c2 w2. service_call get D L K F debug svc now req (c1, ?w1) =
            (Inr (response_new challenge) :: (('pe, 'e) service_error, response) result, (c2, w2)) \<and>
          subs c2 i = Some \<lparr>sub_hub = hub, sub_topic = topic, sub_secret = secret,
            sub_expires_at = Some (lease_expiry now lease)\<rparr>"
    if "uri_path (uri_of L) (req_uri req) = uri_path (uri_of L) cb" "uri_query (uri_of L) (req_uri req) = Some q"
      "verify_of_fields (form_parse (form_of L) q) = Some (VerifySubscribe topic challenge lease)"
      "int (unat (renewal_margin svc)) \<le> sint (lease_expiry now lease)"
      "unat i < 2 ^ 56 \<or> 0 \<notin> set (to_le_bytes i)"
    for req q challenge lease now
  proof -
    have res: "resolves L svc req i"
      using that(1) cb(2) decode_encode_iff [OF m b, of i] that(5) by (auto simp: resolves_def)
    obtain c3 where c3: "subs c3 = subs c1" "up c3"
      "service_call get D L K F debug svc now req (c1, ?w1) =
        (handle_id D L K F debug svc now i req (c3, ?w1) :: (('pe, 'e) service_error, response) result \<times> _)"
      using with_connection_up [OF assms(2) new(3)] unfolding service_call_resolves [OF res] by metis
    have p: "pending i topic (subs c3) = Some hub" using row c3(1) by (simp add: pending_def)
    have "uri_parse (uri_of L) hub \<noteq> None" using assms(5) by simp
    from subscriber_service.verify_pending [OF assms(1) c3(2) that(3) p this that(4)] obtain c4 w4 where
      "verify_intent D L debug svc now i q (c3, ?w1) = (Inr (response_new challenge), (c4, w4))"
      "subs c4 = verified i (lease_expiry now lease) hub topic (subs c3)" by metis
    moreover from this(2) have "subs c4 i = Some (?s\<lparr>sub_expires_at := Some (lease_expiry now lease)\<rparr>)"
      using row c3(1) by (simp add: verified_def activated_def duplicates_def)
    ultimately show ?thesis using c3(3) that(2) by (simp add: handle_id_def map_err_def)
  qed
  show ?thesis
    unfolding service_subscribe_def
    by (rule exI [of _ i], rule exI [of _ secret], rule exI [of _ fut], rule exI [of _ cb],
        rule exI [of _ c1], rule exI [of _ g], intro conjI allI impI)
      (rule run new posts cb(1) flow; assumption)+
qed

theorem subscription_flow_witness:
  "\<exists>fut c1 g q c2 w2 secret.
     service_subscribe (diesel2_connection mem_diesel counter_rng) reference_crates True mem_svc ''h'' ''t''
       (\<lparr>mem_rows = [], mem_faults = [False, False, False]\<rparr>,
        mem_world :: (u64, string \<times> string option, unit, u8 list \<times> u8 list) world) =
       (Inr fut, (c1, mem_world\<lparr>thread_rng := g\<rparr>)) \<and>
     service_call (ret ()) (diesel2_connection mem_diesel counter_rng) reference_crates
       (buffered_mac constant_digest) all_features True mem_svc 1000
       (mem_request (''/'' @ mem_tail 8 @ ''?'' @ q) [] ()) (c1, mem_world\<lparr>thread_rng := g\<rparr>) =
     (Inr (response_new ''c'') :: ((unit, unit sql_error) service_error, response) result, (c2, w2)) \<and>
     mem_table c2 8 = Some \<lparr>sub_hub = ''h'', sub_topic = ''t'', sub_secret = secret, sub_expires_at = Some 865000\<rparr>"
proof -
  let ?c = "\<lparr>mem_rows = [], mem_faults = [False, False, False]\<rparr>"
  let ?w = "mem_world :: (u64, string \<times> string option, unit, u8 list \<times> u8 list) world"
  obtain q where q: "verify_of_fields (form_parse (form_of reference_crates) q) =
      Some (VerifySubscribe ''t'' ''c'' 864000)" by (rule mem_query_string)
  have up: "mem_up ?c" "dom (mem_table ?c) \<noteq> UNIV" by (simp_all add: mem_up_def mem_table_def)
  have uri: "uri_parse (uri_of reference_crates) ''h'' = Some (''h'', None)"
    by (simp add: reference_crates_def text_uri_def)
  obtain secret' fut' where sub:
    "service_subscribe (diesel2_connection mem_diesel counter_rng) reference_crates True mem_svc ''h'' ''t'' (?c, ?w) =
     (Inr fut', (\<lparr>mem_rows = [(8, \<lparr>sub_hub = ''h'', sub_topic = ''t'', sub_secret = secret',
        sub_expires_at = None\<rparr>)], mem_faults = []\<rparr>, ?w\<lparr>thread_rng := 9\<rparr>))"
    by (rule mem_subscribe [where rows = "[]" and fs = "[]" and w = ?w]) (simp, rule that, simp)
  let ?flow = "\<lambda>i secret fut cb c1 g.
    service_subscribe (diesel2_connection mem_diesel counter_rng) reference_crates True mem_svc ''h'' ''t'' (?c, ?w) =
      (Inr fut, (c1, ?w\<lparr>thread_rng := g\<rparr>)) \<and>
    i \<notin> dom (mem_table ?c) \<and> mem_table c1 = created i ''h'' ''t'' secret (mem_table ?c) \<and>
    posts_form reference_crates (callback mem_svc) i (\<lambda>cb. SubscribeForm cb ''t'' secret) ''h'' ''t'' fut \<and>
    (make_callback reference_crates (callback mem_svc) i :: (unit, _) result) = Inr cb \<and>
    (\<forall>(req :: (_, unit) server_request) q challenge lease now.
       uri_path (uri_of reference_crates) (req_uri req) = uri_path (uri_of reference_crates) cb \<longrightarrow>
       uri_query (uri_of reference_crates) (req_uri req) = Some q \<longrightarrow>
       verify_of_fields (form_parse (form_of reference_crates) q) = Some (VerifySubscribe ''t'' challenge lease) \<longrightarrow>
       int (unat (renewal_margin mem_svc)) \<le> sint (lease_expiry now lease) \<longrightarrow>
       (unat i < 2 ^ 56 \<or> 0 \<notin> set (to_le_bytes i)) \<longrightarrow>
       (\<exists>c2 w2. service_call (ret ()) (diesel2_connection mem_diesel counter_rng) reference_crates
            (buffered_mac constant_digest) all_features True mem_svc now req (c1, ?w\<lparr>thread_rng := g\<rparr>) =
            (Inr (response_new challenge) :: ((unit, unit sql_error) service_error, response) result, (c2, w2)) \<and>
          mem_table c2 i = Some \<lparr>sub_hub = ''h'', sub_topic = ''t'', sub_secret = secret,
            sub_expires_at = Some (lease_expiry now lease)\<rparr>))"
  have "\<exists>i secret fut cb c1 g. ?flow i secret fut cb c1 g"
    by (rule subscription_flow [OF mem_svc.subscriber_service_axioms always_statement up uri])
  then obtain i secret fut cb c1 g where flow: "?flow i secret fut cb c1 g" by blast
  then have run: "fut = fut'" "g = 9" "c1 = \<lparr>mem_rows = [(8, \<lparr>sub_hub = ''h'', sub_topic = ''t'', sub_secret = secret',
      sub_expires_at = None\<rparr>)], mem_faults = []\<rparr>"
    using sub by (simp_all add: mem_world_def)
  have "dom (mem_table c1) = {8}" using run(3) by (simp add: mem_table_def)
  moreover have "dom (mem_table c1) = {i}" using flow by (auto simp: mem_table_def)
  ultimately have i: "i = 8" by simp
  obtain cb' where "(make_callback reference_crates (callback mem_svc) i :: (unit, _) result) = Inr cb'"
    "uri_path (uri_of reference_crates) cb' = uri_path (uri_of reference_crates) (callback mem_svc) @
       encode (memchr_of reference_crates) (base64_of reference_crates) (to_le_bytes i)"
    by (rule reference_crates.make_callback_prepared [OF mem_svc.callback_prepared])
  then have path: "uri_path (uri_of reference_crates) cb = ''/'' @ mem_tail 8"
    using flow i mem_request_reads(5) by (simp add: mem_tail_def reference_crates_def)
  have e: "lease_expiry 1000 864000 = 865000"
    by (simp add: lease_expiry_def saturating_add_def i64_try_from_def)
  let ?req = "mem_request (''/'' @ mem_tail 8 @ ''?'' @ q) [] ()"
  have "uri_path (uri_of reference_crates) (req_uri ?req) = uri_path (uri_of reference_crates) cb"
    unfolding path by (rule mem_request_reads)
  moreover have "uri_query (uri_of reference_crates) (req_uri ?req) = Some q" by (rule mem_request_reads)
  moreover have "int (unat (renewal_margin mem_svc)) \<le> sint (lease_expiry 1000 864000)"
    unfolding e by (simp add: mem_svc_def)
  moreover have "unat i < 2 ^ 56" using i by simp
  ultimately have "\<exists>c2 w2. service_call (ret ()) (diesel2_connection mem_diesel counter_rng) reference_crates
            (buffered_mac constant_digest) all_features True mem_svc 1000 ?req (c1, ?w\<lparr>thread_rng := g\<rparr>) =
            (Inr (response_new ''c'') :: ((unit, unit sql_error) service_error, response) result, (c2, w2)) \<and>
          mem_table c2 i = Some \<lparr>sub_hub = ''h'', sub_topic = ''t'', sub_secret = secret,
            sub_expires_at = Some (lease_expiry 1000 864000)\<rparr>"
    using flow q by blast
  with flow show ?thesis unfolding i e by blast
qed

end
