(* ===== verification/Subscriber.thy ===== *)
theory Subscriber
  imports Requests
begin

text \<open>
  \<open>src/subscriber.rs\<close> and the rest of \<open>src/subscriber/renew_subscriptions.rs\<close>: the builder,
  the callback prefix, the loop that accepts connections with its backoff, and the stream of
  updates.
\<close>

section \<open>The builder\<close>

text \<open>A \<open>Duration\<close>, in nanoseconds.\<close>

record builder =
  builder_renewal_margin :: nat

definition builder_new :: builder where
  "builder_new = \<lparr>builder_renewal_margin = from_secs 3600\<rparr>"

definition set_renewal_margin :: "nat \<Rightarrow> builder \<Rightarrow> builder" where
  "set_renewal_margin d b = b\<lparr>builder_renewal_margin := d\<rparr>"

definition prepare_callback_prefix :: "('u, 'a, 'p) uri_crate \<Rightarrow> 'u \<Rightarrow> ('e, 'u) result" where
  "prepare_callback_prefix U prefix =
     bind_result (unwrap (path_and_query U prefix)) (\<lambda>p.
       let path = pq_as_str U p
       in if path \<noteq> [] \<and> last path = CHR ''/'' then Inr prefix
          else bind_result (unwrap (pq_try_from U (path @ ''/''))) (\<lambda>pq.
               case into_parts U prefix of (a, _) \<Rightarrow> unwrap (from_parts U (a, Some pq))))"

text \<open>\<open>RenewSubscriptions\<close> is a scheduler of the service's handle with the tick of \<open>Service\<close>.\<close>

definition renew_subscriptions_new ::
  "platform \<Rightarrow> clock \<Rightarrow> ('g, 'z) handle_scheme \<Rightarrow> ('e, sleep option) result" where
  "renew_subscriptions_new P k w = scheduler_new P k w"

definition renew_subscriptions_poll ::
  "platform \<Rightarrow> (sleep \<Rightarrow> int \<Rightarrow> bool) \<Rightarrow> ('c, 'pe) pool \<Rightarrow>
    ('c, 'e, ('g, 'u, 'b, 'm, 'z) world_scheme) connection \<Rightarrow> ('u, 'a, 'p, 'g) crates \<Rightarrow>
    bool \<Rightarrow> 'u service \<Rightarrow> clock \<Rightarrow> bool \<Rightarrow>
    (sleep option \<times> 'c \<times> ('g, 'u, 'b, 'm, 'z) world_scheme, ('pe, 'e) service_error, polled) action" where
  "renew_subscriptions_poll P elapsed get D L debug svc k alive =
     scheduler_poll P elapsed k alive (tick get D L debug svc (as_secs (now_unix k)))"

text \<open>
  Building yields the service, a fresh world (the channel and the handle) and the sleep of the
  renewal future. The result of \<open>build\<close> adds the acceptor below.
\<close>

definition build_service ::
  "('c, 'pe) pool \<Rightarrow> ('c, 'e, 'w) connection \<Rightarrow> ('u, 'a, 'p, 'g) crates \<Rightarrow> platform \<Rightarrow> clock \<Rightarrow>
    builder \<Rightarrow> 'u \<Rightarrow> 'g \<Rightarrow>
    ('c, ('pe, 'e) service_error, 'u service \<times> ('g, 'u, 'b, 'm) world \<times> sleep option) action" where
  "build_service get D L P k b prefix g =
     (let margin = as_secs (builder_renewal_margin b)
      in and_then (map_err PoolError get) (\<lambda>_.
         and_then (map_err ConnectionError (conn_get_next_expiry D)) (\<lambda>expiry.
           let first_tick = map_option (\<lambda>expires_at.
                 saturating_sub (case u64_try_from expires_at of None \<Rightarrow> 0 | Some e \<Rightarrow> e) margin) expiry
           in lift (bind_result (prepare_callback_prefix (uri_of L) prefix) (\<lambda>cb.
                let svc = \<lparr>callback = cb, renewal_margin = margin\<rparr>;
                    w = \<lparr>thread_rng = g, next_tick = handle_next_tick first_tick, task_registered = False,
                         task_woken = False, spawned = [], sent = [], closed = False\<rparr>
                in bind_result (renew_subscriptions_new P k w) (\<lambda>sleep. Inr (svc, w, sleep)))))))"

section \<open>Accepting connections\<close>

text \<open>
  The acceptor of a \<open>Subscriber\<close>: the stream of incoming connections, the backoff and the
  connections handed to the HTTP server so far. \<open>'i\<close> is the stream, polled by \<open>accept\<close>.
\<close>

record ('i, 's) acceptor =
  incoming :: 'i
  acc_backoff :: backoff
  served :: "'s list"

type_synonym ('i, 's, 'x) incoming_poll = "'i \<Rightarrow> ('x + 's) option poll \<times> 'i"

definition MAX_BACKOFF :: u64 where
  "MAX_BACKOFF = push_bit 6 2"

partial_function (option) accept_loop ::
  "('i, 's, 'x) incoming_poll \<Rightarrow> platform \<Rightarrow> bool \<Rightarrow> clock \<Rightarrow> ('i, 's) acceptor \<Rightarrow>
    ((unit, ('x + unit) poll) result \<times> ('i, 's) acceptor) option" where
  "accept_loop accept P debug k this =
     (case accept (incoming this) of
        (Pending, i) \<Rightarrow> Some (Inr Pending, this\<lparr>incoming := i\<rparr>)
      | (Ready None, i) \<Rightarrow> Some (Inr (Ready (Inr ())), this\<lparr>incoming := i\<rparr>)
      | (Ready (Some (Inl e)), i) \<Rightarrow>
          if MAX_BACKOFF \<le> wait_secs (acc_backoff this)
          then Some (Inr (Ready (Inl e)), this\<lparr>incoming := i\<rparr>)
          else (case increase P debug k (acc_backoff this) of
                  Inl f \<Rightarrow> Some (Inl f, this\<lparr>incoming := i\<rparr>)
                | Inr b \<Rightarrow> Some (Inr Pending, this\<lparr>incoming := i, acc_backoff := b\<rparr>))
      | (Ready (Some (Inr sock)), i) \<Rightarrow>
          accept_loop accept P debug k
            (this\<lparr>incoming := i, acc_backoff := backoff_reset (acc_backoff this), served := served this @ [sock]\<rparr>))"

definition accept_all ::
  "('i, 's, 'x) incoming_poll \<Rightarrow> (sleep \<Rightarrow> int \<Rightarrow> bool) \<Rightarrow> platform \<Rightarrow> bool \<Rightarrow> clock \<Rightarrow>
    (('i, 's) acceptor, unit, ('x + unit) poll) action" where
  "accept_all accept elapsed P debug k this =
     (if \<not> backoff_poll elapsed k (acc_backoff this) then (Inr Pending, this)
      else or_diverge (accept_loop accept P debug k) this)"

text \<open>
  \<open>Builder::build\<close>, and \<open>Subscriber::new\<close> with the default builder, which spawns the
  renewal future: its task is woken for the first poll.
\<close>

definition build ::
  "('c, 'pe) pool \<Rightarrow> ('c, 'e, 'w) connection \<Rightarrow> ('u, 'a, 'p, 'g) crates \<Rightarrow> platform \<Rightarrow> clock \<Rightarrow>
    builder \<Rightarrow> 'i \<Rightarrow> 'u \<Rightarrow> 'g \<Rightarrow> ('c, ('pe, 'e) service_error,
      ('i, 's) acceptor \<times> 'u service \<times> ('g, 'u, 'b, 'm) world \<times> sleep option) action" where
  "build get D L P k b inc prefix g =
     and_then (build_service get D L P k b prefix g) (\<lambda>(svc, w, sleep).
     ret (\<lparr>incoming = inc, acc_backoff = backoff_new, served = []\<rparr>, svc, w, sleep))"

definition subscriber_new ::
  "('c, 'pe) pool \<Rightarrow> ('c, 'e, 'w) connection \<Rightarrow> ('u, 'a, 'p, 'g) crates \<Rightarrow> platform \<Rightarrow> clock \<Rightarrow>
    'i \<Rightarrow> 'u \<Rightarrow> 'g \<Rightarrow> ('c, ('pe, 'e) service_error,
      ('i, 's) acceptor \<times> 'u service \<times> ('g, 'u, 'b, 'm) world \<times> sleep option) action" where
  "subscriber_new get D L P k inc prefix g =
     and_then (build get D L P k builder_new inc prefix g) (\<lambda>(this, svc, w, sleep).
     ret (this, svc, w\<lparr>task_woken := True\<rparr>, sleep))"

text \<open>What a connection answers to a request; an error of the service is logged.\<close>

definition serve ::
  "('c, 'pe) pool \<Rightarrow> ('c, 'e, ('g, 'u, 'b, 'm, 'z) world_scheme) connection \<Rightarrow> ('u, 'a, 'p, 'g) crates \<Rightarrow>
    'm mac_crate \<Rightarrow> features \<Rightarrow> bool \<Rightarrow> 'u service \<Rightarrow> u64 \<Rightarrow> ('u, 'b) server_request \<Rightarrow>
    ('c \<times> ('g, 'u, 'b, 'm, 'z) world_scheme, unit, response) action" where
  "serve get D L K F debug svc now req = (\<lambda>s. case service_call get D L K F debug svc now req s of
     (Inr resp, s) \<Rightarrow> (Inr resp, s)
   | (Inl (Err e), s) \<Rightarrow> (Inr (empty_response INTERNAL_SERVER_ERROR), s)
   | (Inl Panic, s) \<Rightarrow> (Inl Panic, s)
   | (Inl Diverge, s) \<Rightarrow> (Inl Diverge, s))"

section \<open>The stream of updates\<close>

text \<open>
  \<open>strong_count\<close> is how many own the service; the subscriber is one of them, so the channel
  always has a sender and its receiver is never at its end.
\<close>

definition subscriber_poll_next ::
  "('i, 's, 'x) incoming_poll \<Rightarrow> (sleep \<Rightarrow> int \<Rightarrow> bool) \<Rightarrow> platform \<Rightarrow> bool \<Rightarrow> clock \<Rightarrow> nat \<Rightarrow>
    (('i, 's) acceptor \<times> ('g, 'u, 'b, 'm, 'z) world_scheme, unit,
      ('x + ('b, 'm, headers) update_data) option poll) action" where
  "subscriber_poll_next accept elapsed P debug k strong_count = (\<lambda>(this, w).
     case accept_all accept elapsed P debug k this of
       (Inl f, this) \<Rightarrow> (Inl f, (this, w))
     | (Inr (Ready (Inl e)), this) \<Rightarrow> (Inr (Ready (Some (Inl e))), (this, w))
     | (Inr accepted, this) \<Rightarrow>
         (case sent w of
            upd # rest \<Rightarrow> (Inr (Ready (Some (Inr upd))), (this, w\<lparr>sent := rest\<rparr>))
          | [] \<Rightarrow>
              if accepted = Ready (Inr ()) \<and> strong_count = 1 then (Inr (Ready None), (this, w))
              else (Inr Pending, (this, w))))"

section \<open>The callback prefix\<close>

lemma path_of_append_query: "CHR ''?'' \<in> set s \<Longrightarrow> path_of (s @ t) = path_of s"
  by (simp add: path_of_def)

lemma decode_empty: "url_safe_no_pad B \<Longrightarrow> decode B '''' = Some 0"
proof -
  assume B: "url_safe_no_pad B"
  have empty: "b64_display B [] = ''''" using url_safe_no_pad.display_length [OF B, of "[]"] by simp
  have "decode_slice B '''' (replicate 9 0) = Some (0, replicate 9 0)"
    using url_safe_no_pad.decode_slice_display [OF B, of "[]" "replicate 9 0"] by (simp add: empty)
  then show ?thesis by (simp add: decode_def from_le_bytes_value)
qed

text \<open>Replacing the path and query of an origin-form URI by its text with a slash.\<close>

lemma with_slash:
  assumes "uri_spec U" "path_and_query U u = Some p" "pq_as_str U p = CHR ''/'' # s"
  obtains a p' u' where "into_parts U u = (a, Some p)" "pq_try_from U (pq_as_str U p @ ''/'') = Some p'"
    "pq_as_str U p' = pq_as_str U p @ ''/''" "from_parts U (a, Some p') = Some u'"
    "into_parts U u' = (a, Some p')" "path_and_query U u' = Some p'"
proof -
  obtain a where a: "into_parts U u = (a, Some p)"
    using uri_spec.path_and_query [OF assms(1), of u] assms(2) by (metis prod.collapse)
  have "set ''/'' \<subseteq> insert CHR ''/'' (set url_safe_alphabet)" by simp
  from uri_spec.pq_append [OF assms(1,3) this] obtain p' where
    p': "pq_try_from U (pq_as_str U p @ ''/'') = Some p'" "pq_as_str U p' = pq_as_str U p @ ''/''" by blast
  from uri_spec.replace_path_and_query [OF assms(1) a, of p'] obtain u' where
    u': "from_parts U (a, Some p') = Some u'" "into_parts U u' = (a, Some p')" by blast
  have "path_and_query U u' = Some p'" using uri_spec.path_and_query [OF assms(1), of u'] u'(2) by simp
  with a p' u' show thesis by (rule that)
qed

lemma prepare_origin_form:
  assumes "uri_spec U" "path_and_query U u = Some p" "pq_as_str U p = CHR ''/'' # s"
  obtains u' p' where "prepare_callback_prefix U u = (Inr u' :: ('e, 'u) result)"
    "path_and_query U u' = Some p'" "fst (into_parts U u') = fst (into_parts U u)"
    "pq_as_str U p' = (if last (pq_as_str U p) = CHR ''/'' then pq_as_str U p else pq_as_str U p @ ''/'')"
proof (cases "last (pq_as_str U p) = CHR ''/''")
  case True
  with assms that [of u p] show thesis by (simp add: prepare_callback_prefix_def)
next
  case False
  obtain a p' u' where "into_parts U u = (a, Some p)" "pq_try_from U (pq_as_str U p @ ''/'') = Some p'"
    "pq_as_str U p' = pq_as_str U p @ ''/''" "from_parts U (a, Some p') = Some u'"
    "into_parts U u' = (a, Some p')" "path_and_query U u' = Some p'"
    by (rule with_slash [OF assms])
  with False assms that [of u' p'] show thesis by (simp add: prepare_callback_prefix_def)
qed

section \<open>The accept loop\<close>

text \<open>A stream that yields some connections and then waits, ends or fails.\<close>

inductive feeds :: "('i, 's, 'x) incoming_poll \<Rightarrow> 'i \<Rightarrow> 's list \<Rightarrow> 'i \<Rightarrow> bool" for accept where
  feeds_none: "feeds accept i [] i"
| feeds_one: "accept i = (Ready (Some (Inr sock)), i1) \<Longrightarrow> feeds accept i1 socks i2 \<Longrightarrow>
    feeds accept i (sock # socks) i2"

inductive_cases feedsE: "feeds accept i socks i'"

lemma accept_loop_feeds:
  assumes "feeds accept i socks i'" "incoming this = i"
  shows "accept_loop accept P debug k this = accept_loop accept P debug k (this\<lparr>incoming := i',
    acc_backoff := if socks = [] then acc_backoff this else backoff_reset (acc_backoff this),
    served := served this @ socks\<rparr>)"
  using assms
proof (induction arbitrary: this rule: feeds.induct)
  case (feeds_none i)
  then have "this\<lparr>incoming := i\<rparr> = this" by (cases this) simp
  then show ?case by simp
next
  case (feeds_one i sock i1 socks i2)
  have reset: "backoff_reset (backoff_reset b) = backoff_reset b" for b
    by (cases b) (simp_all add: backoff_reset_def)
  have "accept_loop accept P debug k this = accept_loop accept P debug k (this\<lparr>incoming := i1,
      acc_backoff := backoff_reset (acc_backoff this), served := served this @ [sock]\<rparr>)"
    using feeds_one by (subst accept_loop.simps) simp
  then show ?case by (simp add: feeds_one.IH reset)
qed

text \<open>The waits of a backoff are 0 or a power of two up to the maximum.\<close>

definition backoff_ok :: "backoff \<Rightarrow> bool" where
  "backoff_ok b \<longleftrightarrow> wait_secs b \<in> {0, 1, 2, 4, 8, 16, 32, 64, 128}"

lemma MAX_BACKOFF_128: "MAX_BACKOFF = 128"
  by (simp add: MAX_BACKOFF_def push_bit_eq_mult)

lemma increase_ok:
  assumes "backoff_ok b" "wait_secs b < MAX_BACKOFF" "increase P debug k b = (Inr b' :: ('e, backoff) result)"
  shows "wait_secs b' = (if wait_secs b = 0 then 1 else 2 * wait_secs b) \<and> backoff_ok b'"
proof (cases b)
  case None
  with assms(3) show ?thesis by (auto simp: increase_def wait_secs_def INITIAL_WAIT_def backoff_ok_def)
next
  case (Some inner)
  then have w: "bo_wait inner \<in> {0, 1, 2, 4, 8, 16, 32, 64}"
    using assms(1,2) by (auto simp: backoff_ok_def wait_secs_def MAX_BACKOFF_128)
  have small: "unat (bo_wait inner) * unat (2 :: u64) < 2 ^ 64" using w by auto
  show ?thesis
  proof (cases "bo_wait inner = 0")
    case True
    with Some assms(3) show ?thesis
      by (cases "instant_checked P (instant_now k + int (from_secs INITIAL_WAIT))")
        (auto simp: increase_def wait_secs_def INITIAL_WAIT_def backoff_ok_def)
  next
    case False
    then have "increase P debug k b = bind_result
        (unwrap (instant_checked P (bo_sleep inner + int (from_secs (bo_wait inner * 2)))))
        (\<lambda>d. (Inr (Some \<lparr>bo_sleep = d, bo_wait = bo_wait inner * 2\<rparr>) :: ('e, backoff) result))"
      by (simp add: increase_def Some u64_mul_exact [OF small])
    with assms(3) obtain d where "b' = Some \<lparr>bo_sleep = d, bo_wait = bo_wait inner * 2\<rparr>"
      by (cases "instant_checked P (bo_sleep inner + int (from_secs (bo_wait inner * 2)))") auto
    then have "wait_secs b' = 2 * bo_wait inner" by (simp add: wait_secs_def)
    moreover have "2 * bo_wait inner \<in> {0, 1, 2, 4, 8, 16, 32, 64, 128}" using w by auto
    ultimately show ?thesis using False Some by (simp add: wait_secs_def backoff_ok_def)
  qed
qed

lemma accept_loop_ok:
  assumes "accept_loop accept P debug k this = Some (r, this')" "backoff_ok (acc_backoff this)"
  shows "backoff_ok (acc_backoff this')"
proof -
  have "backoff_ok (acc_backoff this) \<longrightarrow> backoff_ok (acc_backoff (snd y))"
    if "accept_loop accept P debug k this = Some y" for y
  proof (rule accept_loop.raw_induct [where Pa = "\<lambda>x y.
        backoff_ok (acc_backoff (snd x)) \<longrightarrow> backoff_ok (acc_backoff (snd y))", OF _ that, simplified snd_conv],
      goal_cases)
    case (1 loop accept P debug k this y)
    have reset: "backoff_ok b \<Longrightarrow> backoff_ok (backoff_reset b)" for b
      by (cases b) (simp_all add: backoff_ok_def backoff_reset_def wait_secs_def)
    obtain a i where n: "accept (incoming this) = (a, i)" by (metis surj_pair)
    show ?case
    proof
      assume ok: "backoff_ok (acc_backoff this)"
      show "backoff_ok (acc_backoff (snd y))"
      proof (cases a)
        case Pending
        with 1(2) n ok show ?thesis by auto
      next
        case (Ready o1)
        show ?thesis
        proof (cases o1)
          case None
          with 1(2) n Ready ok show ?thesis by auto
        next
          case (Some x)
          show ?thesis
          proof (cases x)
            case (Inl e)
            with 1(2) n Ready Some ok show ?thesis
              by (auto simp: not_le dest: increase_ok [OF ok] split: if_splits sum.splits)
          next
            case (Inr sock)
            with 1(2) n Ready Some have "loop accept P debug k (this\<lparr>incoming := i,
                acc_backoff := backoff_reset (acc_backoff this), served := served this @ [sock]\<rparr>) = Some y"
              by simp
            from 1(1) [OF this] reset [OF ok] show ?thesis by simp
          qed
        qed
      qed
    qed
  qed
  with assms show ?thesis by fastforce
qed

lemma accept_all_ok:
  assumes "accept_all accept elapsed P debug k this = (r, this')" "backoff_ok (acc_backoff this)"
  shows "backoff_ok (acc_backoff this')"
  using assms accept_loop_ok by (auto simp: accept_all_def or_diverge_def split: if_splits option.splits)

text \<open>The acceptor between polls; a poll that panics or never returns is no step.\<close>

inductive accept_step ::
  "('i, 's, 'x) incoming_poll \<Rightarrow> (sleep \<Rightarrow> int \<Rightarrow> bool) \<Rightarrow> platform \<Rightarrow> bool \<Rightarrow>
    ('i, 's) acceptor \<Rightarrow> ('i, 's) acceptor \<Rightarrow> bool" for accept elapsed P debug where
  accept_polls: "accept_all accept elapsed P debug k this = (Inr r, this') \<Longrightarrow>
    accept_step accept elapsed P debug this this'"

lemma accept_steps_ok:
  "(accept_step accept elapsed P debug)\<^sup>*\<^sup>* x y \<Longrightarrow> backoff_ok (acc_backoff x) \<Longrightarrow> backoff_ok (acc_backoff y)"
  by (induction rule: rtranclp_induct) (auto elim!: accept_step.cases intro: accept_all_ok)

text \<open>Polls in a row, each with its reading of the clocks.\<close>

fun accept_polls_at ::
  "('i, 's, 'x) incoming_poll \<Rightarrow> (sleep \<Rightarrow> int \<Rightarrow> bool) \<Rightarrow> platform \<Rightarrow> bool \<Rightarrow> clock list \<Rightarrow>
    ('i, 's) acceptor \<Rightarrow> (unit, ('x + unit) poll) result list \<times> ('i, 's) acceptor" where
  "accept_polls_at accept elapsed P debug [] this = ([], this)"
| "accept_polls_at accept elapsed P debug (k # ks) this =
     (let (r, this) = accept_all accept elapsed P debug k this;
          (rs, this) = accept_polls_at accept elapsed P debug ks this
      in (r # rs, this))"

lemma from_secs_pow2: "m < 64 \<Longrightarrow> int (from_secs (2 ^ m)) = 2 ^ m * 10 ^ 9"
proof -
  assume "m < 64"
  then have "(2 :: nat) ^ m < 2 ^ 64" by (intro power_strict_increasing) simp_all
  moreover have "unat ((2 :: u64) ^ m) = 2 ^ m mod 2 ^ 64"
    using unat_of_nat [of "2 ^ m", where ?'a = 64] by simp
  ultimately have "unat ((2 :: u64) ^ m) = 2 ^ m" by simp
  then show ?thesis by (simp add: from_secs_def)
qed

text \<open>After \<open>Suc m\<close> failures since \<open>t\<close> the backoff waits \<open>2 ^ m\<close> seconds more.\<close>

definition backoff_at :: "int \<Rightarrow> nat \<Rightarrow> backoff" where
  "backoff_at t m = Some \<lparr>bo_sleep = t + (2 ^ Suc m - 1) * 10 ^ 9, bo_wait = 2 ^ m\<rparr>"

lemma increase_first:
  assumes "wait_secs b = 0" "min_instant P \<le> instant_now k" "instant_now k + 10 ^ 9 \<le> max_instant P"
  shows "increase P debug k b = Inr (backoff_at (instant_now k) 0)"
  using assms
  by (cases b) (auto simp: increase_def wait_secs_def backoff_at_def INITIAL_WAIT_def from_secs_def
      instant_checked_def)

lemma increase_again:
  assumes "m < 7" "min_instant P \<le> t" "t + 255 * 10 ^ 9 \<le> max_instant P"
  shows "increase P debug k (backoff_at t m) = (Inr (backoff_at t (Suc m)) :: ('e, backoff) result)"
proof -
  have "(2 :: nat) ^ m \<le> 2 ^ 6" using assms(1) by (intro power_increasing) simp_all
  moreover have "unat ((2 :: u64) ^ m) = 2 ^ m mod 2 ^ 64"
    using unat_of_nat [of "2 ^ m", where ?'a = 64] by simp
  ultimately have small: "unat ((2 :: u64) ^ m) = 2 ^ m" "(2 :: nat) ^ m \<le> 64" by simp_all
  then have "unat ((2 :: u64) ^ m) * unat (2 :: u64) < 2 ^ 64" by simp
  then have mul: "u64_mul debug (2 ^ m) 2 = (Inr (2 ^ Suc m) :: ('e, u64) result)" for debug
    by (simp add: u64_mul_exact mult.commute)
  have pos: "(2 :: u64) ^ m \<noteq> 0" using small(1) by (metis power_not_zero unat_0 zero_neq_numeral)
  let ?d = "t + (2 ^ Suc (Suc m) - 1) * 10 ^ 9"
  have "(2 :: int) ^ m \<le> 2 ^ 6" using assms(1) by (intro power_increasing) simp_all
  moreover have "(1 :: int) \<le> 2 ^ m" by simp
  moreover have "1 * 10 ^ 9 \<le> (2 * (2 * x) - 1) * 10 ^ 9 \<and> (2 * (2 * x) - 1) * 10 ^ 9 \<le> (255 :: int) * 10 ^ 9"
    if "1 \<le> x" "x \<le> 2 ^ 6" for x :: int
    using that by simp
  ultimately have "1 * 10 ^ 9 \<le> ((2 :: int) ^ Suc (Suc m) - 1) * 10 ^ 9"
    "((2 :: int) ^ Suc (Suc m) - 1) * 10 ^ 9 \<le> 255 * 10 ^ 9"
    unfolding power_Suc by blast+
  then have checked: "instant_checked P ?d = Some ?d"
    using assms(2,3) by (simp add: instant_checked_def)
  have deadline: "t + (2 ^ Suc m - 1) * 10 ^ 9 + int (from_secs (2 ^ Suc m)) = ?d"
    using from_secs_pow2 [of "Suc m"] assms(1) by (simp add: algebra_simps)
  have "increase P debug k (backoff_at t m) = bind_result
      (unwrap (instant_checked P (t + (2 ^ Suc m - 1) * 10 ^ 9 + int (from_secs (2 ^ Suc m)))))
      (\<lambda>d. (Inr (Some \<lparr>bo_sleep = d, bo_wait = 2 ^ Suc m\<rparr>) :: ('e, backoff) result))"
    using pos by (simp add: increase_def backoff_at_def mul del: power_Suc)
  then show ?thesis unfolding deadline checked by (simp add: backoff_at_def)
qed

text \<open>Clock readings at which the backoff of each failure has elapsed.\<close>

fun on_time :: "(sleep \<Rightarrow> int \<Rightarrow> bool) \<Rightarrow> int \<Rightarrow> nat \<Rightarrow> clock list \<Rightarrow> bool" where
  "on_time elapsed t m [] \<longleftrightarrow> True"
| "on_time elapsed t m (k # ks) \<longleftrightarrow>
     elapsed (t + (2 ^ Suc m - 1) * 10 ^ 9) (instant_now k) \<and> on_time elapsed t (Suc m) ks"

lemma backoff_at_wait: "m < 8 \<Longrightarrow> unat (wait_secs (backoff_at t m)) = 2 ^ m"
proof -
  assume "m < 8"
  then have "(2 :: nat) ^ m \<le> 2 ^ 7" by (intro power_increasing) simp_all
  moreover have "unat ((2 :: u64) ^ m) = 2 ^ m mod 2 ^ 64"
    using unat_of_nat [of "2 ^ m", where ?'a = 64] by simp
  ultimately show ?thesis by (simp add: wait_secs_def backoff_at_def)
qed

lemma backoff_at_poll:
  assumes "m < 8"
  shows "backoff_poll elapsed k (backoff_at t m) \<longleftrightarrow> elapsed (t + (2 ^ Suc m - 1) * 10 ^ 9) (instant_now k)"
proof -
  have "(2 :: u64) ^ m > 0" using assms by (simp add: word_greater_zero_iff)
  then show ?thesis by (simp add: backoff_poll_def backoff_at_def)
qed

lemma accept_all_fails:
  assumes "accept i = (Ready (Some (Inl e)), i)" "incoming this = i"
    and "backoff_poll elapsed k (acc_backoff this)"
  shows "accept_all accept elapsed P debug k this =
    (if MAX_BACKOFF \<le> wait_secs (acc_backoff this) then (Inr (Ready (Inl e)), this)
     else case increase P debug k (acc_backoff this) of
            Inl f \<Rightarrow> (Inl f, this) | Inr b \<Rightarrow> (Inr Pending, this\<lparr>acc_backoff := b\<rparr>))"
proof -
  have "this\<lparr>incoming := i\<rparr> = this" "this\<lparr>incoming := i, acc_backoff := b\<rparr> = this\<lparr>acc_backoff := b\<rparr>" for b
    using assms(2) by (cases this; simp)+
  then show ?thesis
    using assms by (simp add: accept_all_def or_diverge_def accept_loop.simps split: sum.splits)
qed

lemma failing_polls:
  assumes "accept i = (Ready (Some (Inl e)), i)" "min_instant P \<le> t" "t + 255 * 10 ^ 9 \<le> max_instant P"
    and "incoming this = i" "acc_backoff this = backoff_at t m" "m + length ks \<le> 7" "on_time elapsed t m ks"
  shows "accept_polls_at accept elapsed P debug ks this =
    (replicate (length ks) (Inr Pending), this\<lparr>acc_backoff := backoff_at t (m + length ks)\<rparr>)"
  using assms(4-7)
proof (induction ks arbitrary: m this)
  case Nil
  then show ?case by (cases this) simp
next
  case (Cons k ks)
  have m: "m < 7" using Cons.prems(3) by simp
  have ready: "backoff_poll elapsed k (acc_backoff this)"
    using Cons.prems(2,4) backoff_at_poll [of m] m by simp
  have "unat (wait_secs (acc_backoff this)) = 2 ^ m" using Cons.prems(2) backoff_at_wait [of m t] m by simp
  moreover have "(2 :: nat) ^ m \<le> 2 ^ 6" using m by (intro power_increasing) simp_all
  ultimately have "\<not> MAX_BACKOFF \<le> wait_secs (acc_backoff this)"
    by (simp add: MAX_BACKOFF_128 word_le_nat_alt)
  then have "accept_all accept elapsed P debug k this = (Inr Pending, this\<lparr>acc_backoff := backoff_at t (Suc m)\<rparr>)"
    using accept_all_fails [where accept = accept and i = i, OF assms(1) Cons.prems(1) ready] Cons.prems(2)
    by (simp add: increase_again [OF m assms(2,3)])
  moreover have "accept_polls_at accept elapsed P debug ks (this\<lparr>acc_backoff := backoff_at t (Suc m)\<rparr>) =
    (replicate (length ks) (Inr Pending), this\<lparr>acc_backoff := backoff_at t (Suc m + length ks)\<rparr>)"
    using Cons.IH [of "this\<lparr>acc_backoff := backoff_at t (Suc m)\<rparr>" "Suc m"] Cons.prems by simp
  ultimately show ?case by simp
qed

lemma accept_polls_append:
  "accept_polls_at accept elapsed P debug (ks @ ks') this =
    (case accept_polls_at accept elapsed P debug ks this of (rs, this) \<Rightarrow>
     case accept_polls_at accept elapsed P debug ks' this of (rs', this) \<Rightarrow> (rs @ rs', this))"
  by (induction ks arbitrary: this) (simp_all split: prod.splits)

lemma on_time_append:
  "on_time elapsed t m (ks @ ks') \<longleftrightarrow> on_time elapsed t m ks \<and> on_time elapsed t (m + length ks) ks'"
  by (induction ks arbitrary: m) auto

section \<open>Properties\<close>

text \<open>
  A prefix without a query is prepared for callbacks: the result keeps its scheme and
  authority, its path ends with exactly the slash it already had or one more, and
  preparing it again changes nothing.
\<close>

theorem callback_prefix_prepared:
  assumes "uri_spec U" "path_and_query U u = Some p" "pq_as_str U p = CHR ''/'' # s"
    and "CHR ''?'' \<notin> set (pq_as_str U p)"
  shows "\<exists>u'. prepare_callback_prefix U u = (Inr u' :: ('e, 'u) result) \<and> prepared U u' \<and>
    fst (into_parts U u') = fst (into_parts U u) \<and>
    uri_path U u' = (if last (uri_path U u) = CHR ''/'' then uri_path U u else uri_path U u @ ''/'') \<and>
    prepare_callback_prefix U u' = (Inr u' :: ('e, 'u) result)"
proof -
  obtain u' p' where u': "prepare_callback_prefix U u = (Inr u' :: ('e, 'u) result)"
    "path_and_query U u' = Some p'" "fst (into_parts U u') = fst (into_parts U u)"
    "pq_as_str U p' = (if last (pq_as_str U p) = CHR ''/'' then pq_as_str U p else pq_as_str U p @ ''/'')"
    by (rule prepare_origin_form [OF assms(1-3)])
  then obtain s' where s': "pq_as_str U p' = CHR ''/'' # s'" "last (pq_as_str U p') = CHR ''/''"
    "CHR ''?'' \<notin> set (pq_as_str U p')"
    using assms(3,4) by (cases "last (pq_as_str U p) = CHR ''/''") auto
  have "uri_path U u = path_of (pq_as_str U p)" "uri_path U u' = path_of (pq_as_str U p')"
    using uri_spec.uri_reads [OF assms(1)] assms(2,3) u'(2) s'(1) by blast+
  then have "uri_path U u = pq_as_str U p" "uri_path U u' = pq_as_str U p'"
    using path_of_no_query assms(4) s'(3) by simp_all
  moreover have "prepare_callback_prefix U u' = (Inr u' :: ('e, 'u) result)"
    using u'(2) s' by (simp add: prepare_callback_prefix_def)
  moreover have "prepared U u'" using u'(2) s' unfolding prepared_def by blast
  ultimately show ?thesis using u' by auto
qed

theorem callback_prefix_prepared_witness:
  "\<exists>u'. prepare_callback_prefix text_uri (''http://sub'', Some ''/websub'') = (Inr u' :: (unit, _) result) \<and>
     prepared text_uri u' \<and> uri_path text_uri u' = ''/websub/''"
proof -
  let ?u = "(''http://sub'', Some ''/websub'')"
  have "path_and_query text_uri ?u = Some ''/websub''" "pq_as_str text_uri ''/websub'' = CHR ''/'' # ''websub''"
    "CHR ''?'' \<notin> set (pq_as_str text_uri ''/websub'')" "uri_path text_uri ?u = ''/websub''"
    by (simp_all add: text_uri_def path_of_def)
  with callback_prefix_prepared [OF text_uri.uri_spec_axioms, of ?u "''/websub''" "''websub''", where ?'e = unit]
  show ?thesis by auto
qed

text \<open>
  C35: a prefix with a query is not refused, but the slash and then the ids are appended to the
  query: the callbacks of all subscriptions have the same path, and every request to one is
  taken for the subscription with the id 0.
\<close>

theorem callback_prefix_with_query:
  assumes "crates_spec L" "path_and_query (uri_of L) u = Some p" "pq_as_str (uri_of L) p = CHR ''/'' # s"
    and "CHR ''?'' \<in> set (pq_as_str (uri_of L) p)"
  shows "\<exists>u'. prepare_callback_prefix (uri_of L) u = (Inr u' :: ('e, 'u) result) \<and>
    (\<forall>i. \<exists>cb. (make_callback L u' i :: ('e, 'u) result) = Inr cb \<and>
       uri_path (uri_of L) cb = uri_path (uri_of L) u \<and>
       (\<forall>req m. uri_path (uri_of L) (req_uri req) = uri_path (uri_of L) cb \<longrightarrow>
          resolves L \<lparr>callback = u', renewal_margin = m\<rparr> req 0))"
proof -
  let ?U = "uri_of L"
  have us: "uri_spec ?U" and b64: "url_safe_no_pad (base64_of L)"
    using assms(1) by (simp_all add: crates_spec_def)
  obtain u' p' where u': "prepare_callback_prefix ?U u = (Inr u' :: ('e, 'u) result)"
    "path_and_query ?U u' = Some p'"
    "pq_as_str ?U p' = (if last (pq_as_str ?U p) = CHR ''/'' then pq_as_str ?U p else pq_as_str ?U p @ ''/'')"
    by (rule prepare_origin_form [OF us assms(2,3)])
  then obtain s' where s': "pq_as_str ?U p' = CHR ''/'' # s'" "CHR ''?'' \<in> set (pq_as_str ?U p')"
    and same: "path_of (pq_as_str ?U p') = path_of (pq_as_str ?U p)"
    using assms(3,4) path_of_append_query [OF assms(4)] by (cases "last (pq_as_str ?U p) = CHR ''/''") auto
  have paths: "uri_path ?U u = path_of (pq_as_str ?U p)" "uri_path ?U u' = path_of (pq_as_str ?U p')"
    using uri_spec.uri_reads [OF us] assms(2,3) u'(2) s'(1) by blast+
  have "\<exists>cb. (make_callback L u' i :: ('e, 'u) result) = Inr cb \<and> uri_path ?U cb = uri_path ?U u \<and>
      (\<forall>req m. uri_path ?U (req_uri req) = uri_path ?U cb \<longrightarrow>
         resolves L \<lparr>callback = u', renewal_margin = m\<rparr> req 0)" for i
  proof -
    obtain cb where "(make_callback L u' i :: ('e, 'u) result) = Inr cb"
      "uri_path ?U cb = path_of (pq_as_str ?U p' @ encode (memchr_of L) (base64_of L) (to_le_bytes i))"
      by (rule crates_spec.make_callback_text [OF assms(1) u'(2) s'(1)])
    then show ?thesis
      using paths same path_of_append_query [OF s'(2)] decode_empty [OF b64] by (auto simp: resolves_def)
  qed
  with u'(1) show ?thesis by blast
qed

theorem callback_prefix_with_query_witness:
  "\<exists>u'. prepare_callback_prefix (uri_of reference_crates) (''http://sub'', Some ''/cb?x=1'') = (Inr u' :: (unit, _) result) \<and>
     (\<exists>cb. (make_callback reference_crates u' 7 :: (unit, _) result) = Inr cb \<and>
        uri_path (uri_of reference_crates) cb = ''/cb'')"
proof -
  let ?u = "(''http://sub'', Some ''/cb?x=1'')"
  have u: "path_and_query (uri_of reference_crates) ?u = Some ''/cb?x=1''"
    "pq_as_str (uri_of reference_crates) ''/cb?x=1'' = CHR ''/'' # ''cb?x=1''"
    "CHR ''?'' \<in> set (pq_as_str (uri_of reference_crates) ''/cb?x=1'')"
    "uri_path (uri_of reference_crates) ?u = ''/cb''"
    by (simp_all add: reference_crates_def text_uri_def path_of_def)
  from callback_prefix_with_query [OF reference_crates.crates_spec_axioms u(1-3), where ?'e = unit] u(4)
  show ?thesis by metis
qed

text \<open>
  In every state the acceptor reaches, the backoff waits for 0 or a power of two seconds
  up to 128, so it is never doubled past the maximum.
\<close>

theorem accept_wait_bounded:
  assumes "(accept_step accept elapsed P debug)\<^sup>*\<^sup>* x y" "acc_backoff x = backoff_new"
  shows "wait_secs (acc_backoff y) \<in> {0, 1, 2, 4, 8, 16, 32, 64, 128} \<and>
    wait_secs (acc_backoff y) \<le> MAX_BACKOFF"
proof -
  have "backoff_ok (acc_backoff x)" using assms(2) by (simp add: backoff_new_def backoff_ok_def wait_secs_def)
  then have "backoff_ok (acc_backoff y)" by (rule accept_steps_ok [OF assms(1)])
  then show ?thesis by (auto simp: backoff_ok_def MAX_BACKOFF_128)
qed

theorem accept_wait_bounded_witness:
  "wait_secs (acc_backoff (\<lparr>incoming = (), acc_backoff = backoff_at 0 0, served = []\<rparr> :: (unit, unit) acceptor)) \<le> MAX_BACKOFF"
proof -
  let ?accept = "\<lambda>i. (Ready (Some (Inl ())), i) :: (unit + unit) option poll \<times> unit"
  let ?x = "\<lparr>incoming = (), acc_backoff = backoff_new, served = []\<rparr> :: (unit, unit) acceptor"
  have "accept_all ?accept exact_sleep wide_platform True \<lparr>instant_now = 0, system_time_now = 0\<rparr> ?x =
    (Inr Pending, \<lparr>incoming = (), acc_backoff = backoff_at 0 0, served = []\<rparr>)"
    by (simp add: accept_all_def backoff_new_def backoff_poll_def or_diverge_def accept_loop.simps wait_secs_def
        MAX_BACKOFF_128 increase_def backoff_at_def INITIAL_WAIT_def from_secs_def)
  then have "(accept_step ?accept exact_sleep wide_platform True)\<^sup>*\<^sup>* ?x
      \<lparr>incoming = (), acc_backoff = backoff_at 0 0, served = []\<rparr>"
    by (intro r_into_rtranclp accept_step.intros)
  from accept_wait_bounded [OF this] show ?thesis by simp
qed

text \<open>
  C34: a stream that keeps failing is given up after exactly eight waits of 1, 2, 4 up to 128
  seconds, 255 seconds in all: the ninth failure is returned. A poll before a wait is over
  does not look at the stream.
\<close>

theorem accept_gives_up:
  assumes "accept i = (Ready (Some (Inl e)), i)" "incoming this = i" "wait_secs (acc_backoff this) = 0"
    and "min_instant P \<le> instant_now k" "instant_now k + 255 * 10 ^ 9 \<le> max_instant P"
    and "length ks = 8" "on_time elapsed (instant_now k) 0 ks"
  shows "accept_polls_at accept elapsed P debug (k # ks) this =
      (replicate 8 (Inr Pending) @ [Inr (Ready (Inl e))], this\<lparr>acc_backoff := backoff_at (instant_now k) 7\<rparr>) \<and>
    (\<forall>m < 8. \<forall>k'. \<not> elapsed (instant_now k + (2 ^ Suc m - 1) * 10 ^ 9) (instant_now k') \<longrightarrow>
       accept_all accept elapsed P debug k' (this\<lparr>acc_backoff := backoff_at (instant_now k) m\<rparr>) =
         (Inr Pending, this\<lparr>acc_backoff := backoff_at (instant_now k) m\<rparr>))"
proof (intro conjI allI impI)
  let ?t = "instant_now k" and ?waiting = "this\<lparr>acc_backoff := backoff_at (instant_now k) 0\<rparr>"
  obtain ks1 k8 where ks: "ks = ks1 @ [k8]" "length ks1 = 7"
  proof
    have "ks \<noteq> []" using assms(6) by auto
    then show "ks = butlast ks @ [last ks]" by simp
    show "length (butlast ks) = 7" using assms(6) by simp
  qed
  have ready: "backoff_poll elapsed k (acc_backoff this)"
    using assms(3) by (cases "acc_backoff this") (auto simp: backoff_poll_def wait_secs_def)
  have first: "accept_all accept elapsed P debug k this = (Inr Pending, ?waiting)"
    using accept_all_fails [where accept = accept and i = i, OF assms(1,2) ready] assms(3-5)
    by (simp add: MAX_BACKOFF_128 increase_first)
  have seven: "accept_polls_at accept elapsed P debug ks1 ?waiting =
      (replicate 7 (Inr Pending), this\<lparr>acc_backoff := backoff_at ?t 7\<rparr>)"
    using failing_polls [where accept = accept and i = i, OF assms(1,4,5), of ?waiting 0 ks1] assms(2,7) ks by (simp add: on_time_append)
  let ?last = "this\<lparr>acc_backoff := backoff_at ?t 7\<rparr>"
  have "on_time elapsed ?t 7 [k8]" using assms(7) ks by (simp add: on_time_append)
  then have "backoff_poll elapsed k8 (acc_backoff ?last)" by (simp add: backoff_at_poll)
  from accept_all_fails [where accept = accept and i = i, OF assms(1) _ this, of P debug] assms(2)
  have "accept_all accept elapsed P debug k8 ?last = (Inr (Ready (Inl e)), ?last)"
    by (simp add: MAX_BACKOFF_128 wait_secs_def backoff_at_def)
  with first seven ks
  show "accept_polls_at accept elapsed P debug (k # ks) this =
      (replicate 8 (Inr Pending) @ [Inr (Ready (Inl e))], ?last)"
    by (simp add: accept_polls_append numeral_eq_Suc)
next
  fix m :: nat and k' :: clock
  assume "m < 8" "\<not> elapsed (instant_now k + (2 ^ Suc m - 1) * 10 ^ 9) (instant_now k')"
  then show "accept_all accept elapsed P debug k' (this\<lparr>acc_backoff := backoff_at (instant_now k) m\<rparr>) =
      (Inr Pending, this\<lparr>acc_backoff := backoff_at (instant_now k) m\<rparr>)"
    by (simp add: accept_all_def backoff_at_poll)
qed

theorem accept_gives_up_witness:
  "accept_polls_at (\<lambda>i. (Ready (Some (Inl ''broken'')), i)) exact_sleep wide_platform True
     (map (\<lambda>s. \<lparr>instant_now = s * 10 ^ 9, system_time_now = 0\<rparr>) [0, 1, 3, 7, 15, 31, 63, 127, 255])
     (\<lparr>incoming = (), acc_backoff = backoff_new, served = []\<rparr> :: (unit, unit) acceptor) =
   (replicate 8 (Inr Pending) @ [Inr (Ready (Inl ''broken''))],
    \<lparr>incoming = (), acc_backoff = backoff_at 0 7, served = []\<rparr>)"
proof -
  let ?k = "\<lambda>s. \<lparr>instant_now = s * 10 ^ 9, system_time_now = 0\<rparr>"
  let ?a = "\<lparr>incoming = (), acc_backoff = backoff_new, served = []\<rparr> :: (unit, unit) acceptor"
  let ?ks = "map ?k [1, 3, 7, 15, 31, 63, 127, 255]"
  have "on_time exact_sleep (instant_now (?k 0)) 0 ?ks" by (simp add: exact_sleep_def)
  moreover have "wait_secs (acc_backoff ?a) = 0" by (simp add: wait_secs_def backoff_new_def)
  ultimately show ?thesis
    using accept_gives_up [where accept = "\<lambda>i. (Ready (Some (Inl ''broken'')), i)" and i = "()" and this = ?a
        and P = wide_platform and k = "?k 0" and ks = ?ks and elapsed = exact_sleep and debug = True and e = "''broken''"]
    by (simp add: wide_platform_def)
qed

text \<open>
  A poll takes every connection that is ready, in the order they arrive and however many
  there are, hands them to the server and resets the backoff; it then waits, or reports the
  end of the stream.
\<close>

theorem accept_drains:
  assumes "feeds accept i socks i1" "incoming this = i" "backoff_poll elapsed k (acc_backoff this)"
    and "accept i1 = (r, i2)" "r = Pending \<or> r = Ready None"
  shows "accept_all accept elapsed P debug k this =
    (Inr (if r = Pending then Pending else Ready (Inr ())), this\<lparr>incoming := i2,
       acc_backoff := if socks = [] then acc_backoff this else backoff_reset (acc_backoff this),
       served := served this @ socks\<rparr>)"
proof -
  let ?a = "this\<lparr>incoming := i1,
       acc_backoff := if socks = [] then acc_backoff this else backoff_reset (acc_backoff this),
       served := served this @ socks\<rparr>"
  have "accept_loop accept P debug k ?a =
      Some (Inr (if r = Pending then Pending else Ready (Inr ())), ?a\<lparr>incoming := i2\<rparr>)"
    using assms(4,5) by (subst accept_loop.simps) auto
  with assms(3) accept_loop_feeds [OF assms(1,2), of P debug k] show ?thesis
    by (simp add: accept_all_def or_diverge_def)
qed

text \<open>A stream given as the list of its connections.\<close>

definition queued :: "('s list, 's, unit) incoming_poll" where
  "queued socks = (case socks of [] \<Rightarrow> (Pending, []) | s # ss \<Rightarrow> (Ready (Some (Inr s)), ss))"

theorem accept_drains_witness:
  "accept_all queued exact_sleep wide_platform True \<lparr>instant_now = 0, system_time_now = 0\<rparr>
     \<lparr>incoming = [''a'', ''b''], acc_backoff = backoff_new, served = [''z'']\<rparr> =
   (Inr Pending, \<lparr>incoming = [], acc_backoff = backoff_new, served = [''z'', ''a'', ''b'']\<rparr>)"
proof -
  have "feeds queued [''a'', ''b''] [''a'', ''b''] []"
    by (auto intro!: feeds.intros simp: queued_def)
  from accept_drains [OF this, of "\<lparr>incoming = [''a'', ''b''], acc_backoff = backoff_new, served = [''z'']\<rparr>"
      exact_sleep "\<lparr>instant_now = 0, system_time_now = 0\<rparr>" Pending "[]" wide_platform True]
  show ?thesis by (simp add: backoff_new_def backoff_poll_def backoff_reset_def queued_def)
qed

end
