(* ===== verification/System.thy ===== *)
theory System
  imports Subscriber
begin

text \<open>
  The subscriber as a whole: the renewal future, the connections that serve hubs, the user who
  subscribes and reads updates, and the spawned requests take turns on one service. The
  invariant ties the three parts that must agree for a subscription to be renewed in time: the
  table, the handle of the scheduler and the sleep of the renewal future.
\<close>

section \<open>Due times\<close>

definition expiries :: "table \<Rightarrow> i64 set" where
  "expiries m = {e. \<exists>i s. m i = Some s \<and> sub_expires_at s = Some e}"

text \<open>The Unix time at which a subscription that expires at \<open>e\<close> is to be renewed.\<close>

definition due :: "'u service \<Rightarrow> i64 \<Rightarrow> int" where
  "due svc e = max 0 (sint e - int (unat (renewal_margin svc)))"

text \<open>The handle shows a time at which no active subscription is overdue.\<close>

definition covered :: "'u service \<Rightarrow> table \<Rightarrow> ('g, 'z) handle_scheme \<Rightarrow> bool" where
  "covered svc m h \<longleftrightarrow> (\<forall>e \<in> expiries m. int (unat (next_tick h)) \<le> due svc e)"

definition same_handle :: "('g, 'z) handle_scheme \<Rightarrow> ('g, 'z) handle_scheme \<Rightarrow> bool" where
  "same_handle h h' \<longleftrightarrow> next_tick h' = next_tick h \<and> task_registered h' = task_registered h \<and>
     task_woken h' = task_woken h"

text \<open>
  What everyone but the renewal future does to the table and the handle: for each expiry that
  is new in the table the handle has been hastened far enough.
\<close>

definition prompt ::
  "'u service \<Rightarrow> table \<Rightarrow> ('g, 'z) handle_scheme \<Rightarrow> table \<Rightarrow> ('g, 'z) handle_scheme \<Rightarrow> bool" where
  "prompt svc m h m' h' \<longleftrightarrow> (\<exists>ts. same_handle (fold hasten ts h) h' \<and> (\<forall>t \<in> set ts. unat t < 2 ^ 63) \<and>
     (\<forall>e \<in> expiries m'. e \<in> expiries m \<or> (\<exists>t \<in> set ts. int (unat t) \<le> due svc e)))"

lemma fold_hasten_le:
  "next_tick (fold hasten ts h) \<le> next_tick h \<and> (\<forall>t \<in> set ts. next_tick (fold hasten ts h) \<le> t)"
proof (induction ts arbitrary: h)
  case (Cons t ts)
  from Cons [of "hasten t h"] show ?case by (auto simp: next_tick_hasten)
qed simp

lemma prompt_covered:
  assumes "prompt svc m h m' h'" "covered svc m h"
  shows "covered svc m' h'"
  unfolding covered_def
proof
  fix e assume "e \<in> expiries m'"
  with assms(1) obtain ts where ts: "same_handle (fold hasten ts h) h'"
    "e \<in> expiries m \<or> (\<exists>t \<in> set ts. int (unat t) \<le> due svc e)"
    unfolding prompt_def by blast
  then have "next_tick h' = next_tick (fold hasten ts h)" by (simp add: same_handle_def)
  with fold_hasten_le [of ts h] have le: "next_tick h' \<le> next_tick h" "\<forall>t \<in> set ts. next_tick h' \<le> t"
    by simp_all
  from ts(2) show "int (unat (next_tick h')) \<le> due svc e"
  proof
    assume "e \<in> expiries m"
    with assms(2) have "int (unat (next_tick h)) \<le> due svc e" by (simp add: covered_def)
    with le(1) show ?thesis by (simp add: word_le_def)
  next
    assume "\<exists>t \<in> set ts. int (unat t) \<le> due svc e"
    with le(2) show ?thesis by (fastforce simp: word_le_def)
  qed
qed

lemma prompt_quiet:
  assumes "same_handle h h'" "expiries m' \<subseteq> expiries m"
  shows "prompt svc m h m' h'"
  unfolding prompt_def using assms by (intro exI [of _ "[]"]) auto

lemma prompt_hastened:
  assumes "same_handle (hasten t h) h'" "unat t < 2 ^ 63"
    and "\<And>e. e \<in> expiries m' \<Longrightarrow> e \<in> expiries m \<or> int (unat t) \<le> due svc e"
  shows "prompt svc m h m' h'"
  unfolding prompt_def using assms by (intro exI [of _ "[t]"]) auto

lemma same_handle_simps [simp]:
  "same_handle h h" "same_handle h (h\<lparr>thread_rng := g\<rparr>)"
  "same_handle w (w\<lparr>spawned := futs\<rparr>)" "same_handle w (w\<lparr>sent := us\<rparr>)"
  by (simp_all add: same_handle_def)

lemma expiries_created: "e \<in> expiries (created i hub topic secret m) \<Longrightarrow> e \<in> expiries m"
  by (auto simp: expiries_def created_def split: if_splits)

lemma expiries_verified: "e' \<in> expiries (verified i e hub topic m) \<Longrightarrow> e' = e \<or> e' \<in> expiries m"
  by (fastforce simp: expiries_def verified_def activated_def restrict_map_def split: if_splits)

lemma on_schedule_cong:
  "same_handle h h' \<Longrightarrow> on_schedule K (s, c', h') = on_schedule K (s, c, h)"
  by (simp add: on_schedule_def same_handle_def sleep_covers_def)

lemma prompt_on_schedule:
  assumes "ticking P K (tk :: clock \<Rightarrow> ('c \<times> ('g, 'z) handle_scheme, 'e, u64 option) action)"
    and "prompt svc m h m' h'" "on_schedule K (s, c :: 'c, h)"
  shows "on_schedule K (s, c' :: 'c, h')"
proof -
  from assms(2) obtain ts where ts: "same_handle (fold hasten ts h) h'" "\<forall>t \<in> set ts. unat t < 2 ^ 63"
    unfolding prompt_def by blast
  have "on_schedule K (s, c, fold hasten ts h)"
    using ts(2) assms(3)
  proof (induction ts arbitrary: h)
    case (Cons t ts)
    from Cons.prems have "on_schedule K (s, c, hasten t h)"
      by (intro ticking.hasten_on_schedule [OF assms(1)]) simp_all
    with Cons.prems(1) have "on_schedule K (s, c, fold hasten ts (hasten t h))"
      by (intro Cons.IH) simp_all
    then show ?case by simp
  qed simp
  then show ?thesis by (simp only: on_schedule_cong [OF ts(1), of K s c' c])
qed

section \<open>What the parts do to the schedule\<close>

lemma service_call_unresolved:
  "\<nexists>i. resolves L svc req i \<Longrightarrow> snd (service_call get D L K F debug svc now req s) = s"
  by (auto simp: service_call_def resolves_def strip_prefix_Some split: option.split)

lemma subscriber_poll_next_handle:
  assumes "subscriber_poll_next accept elapsed P debug k n (this, w) = (r, (this', w'))"
  shows "same_handle w w'"
  using assms
  by (auto simp: subscriber_poll_next_def split: prod.splits sum.splits poll.splits list.splits if_splits)

context subscriber_service
begin

lemma subscribe_prompt:
  assumes "service_subscribe D L debug svc hub topic (c, w) = (r, (c', w'))" "r \<noteq> Inl Diverge"
  shows "prompt svc (subs c) w (subs c') w'"
proof (rule prompt_quiet)
  have run: "hub_subscribe D L debug (callback svc) hub topic (c, w) = (r, (c', w'))"
    using assms(1) by (simp add: service_subscribe_def)
  from hub_subscribe_result [OF callback_prepared run] show "same_handle w w'" by auto
  from hub_subscribe_result [OF callback_prepared run] assms(2) show "expiries (subs c') \<subseteq> expiries (subs c)"
    by (auto dest: expiries_created split: sum.splits fault.splits)
qed

text \<open>A lease that ends after the margin hastens the handle to the time it is due.\<close>

lemma lease_late:
  assumes "renewal_margin svc \<le> now" "unat (renewal_margin svc) < 2 ^ 62"
  shows "int (unat (renewal_margin svc)) \<le> sint (lease_expiry now lease)"
proof -
  let ?m = "unat (renewal_margin svc)"
  have "?m \<le> unat now + unat lease" "?m < 2 ^ 62" using assms by (simp_all add: word_le_nat_alt)
  then have "int ?m \<le> int (unat now + unat lease)" "int ?m < int (2 ^ 62)" by linarith+
  moreover have "int (2 ^ 62) < (2 ^ 63 - 1 :: int)" by simp
  ultimately have "int ?m \<le> int (unat now + unat lease)" "int ?m \<le> 2 ^ 63 - 1" by linarith+
  then show ?thesis by (simp only: sint_lease_expiry min.bounded_iff)
qed

lemma refresh_due:
  assumes "renewal_margin svc \<le> now" "unat (renewal_margin svc) < 2 ^ 62"
    and "refresh_time debug svc (lease_expiry now lease) = (Inr t :: ('e, u64) result)"
  shows "unat t < 2 ^ 63" "int (unat t) = due svc (lease_expiry now lease)"
proof -
  let ?e = "lease_expiry now lease" and ?m = "unat (renewal_margin svc)"
  have le: "int ?m \<le> sint ?e" by (rule lease_late [OF assms(1,2)])
  have "refresh_time debug svc ?e = (Inr (?e - renewal_margin svc) :: ('e, u64) result)"
    by (rule refresh_time_late(1) [OF le])
  with assms(3) have "t = ?e - renewal_margin svc" by simp
  then have t: "int (unat t) = sint ?e - int ?m" by (simp only: refresh_time_late(2) [OF le])
  with le show "int (unat t) = due svc ?e" by (simp add: due_def)
  have "sint ?e < int (2 ^ 63)" using sint_lt [of ?e] by simp
  with t have "int (unat t) < int (2 ^ 63)" by linarith
  then show "unat t < 2 ^ 63" by (simp only: of_nat_less_iff)
qed

lemma verify_prompt:
  assumes "renewal_margin svc \<le> now" "unat (renewal_margin svc) < 2 ^ 62"
    and run: "verify_intent D L debug svc now i query (c, w) = (r, (c', w'))"
    and "r \<noteq> Inl Panic" "r \<noteq> Inl Diverge"
  shows "prompt svc (subs c) w (subs c') w'"
proof (cases "verify_of_fields (form_parse (form_of L) query)")
  case None
  with verify_malformed [OF None] run show ?thesis by (auto intro: prompt_quiet)
next
  case (Some v)
  show ?thesis
  proof (cases v)
    case (VerifyUnsubscribe topic challenge)
    with verify_unsubscribe_cases [OF _ run] Some show ?thesis by (auto intro: prompt_quiet)
  next
    case (VerifySubscribe topic challenge lease)
    from Some [unfolded VerifySubscribe] run show ?thesis
    proof (cases rule: verify_subscribe_cases)
      case (too_early hub f)
      then show ?thesis using assms(4,5) by (auto simp: refresh_time_def u64_sub_def split: if_splits)
    next
      case (accepted hub t old futs)
      note t = refresh_due [OF assms(1,2) accepted(2)]
      show ?thesis
        by (rule prompt_hastened [OF _ t(1)])
          (use accepted(4,5) t(2) in \<open>auto dest: expiries_verified\<close>)
    next
      case (undone hub t futs e)
      note t = refresh_due [OF assms(1,2) undone(2)]
      show ?thesis by (rule prompt_hastened [OF _ t(1)]) (use undone(4,5) in simp_all)
    qed (use assms(4) in \<open>auto intro: prompt_quiet\<close>)
  qed
qed

end

context subscriber_service
begin

lemma deliver_handle:
  assumes "uri_query (uri_of L) (req_uri req) = None"
    and "handle_id D L M F debug svc now i req (c, w) = (r, (c', w'))"
  shows "subs c' = subs c \<and> same_handle w w'"
proof (cases "best (parsed F L (get_all (req_headers req) HUB_SIGNATURE))")
  case None
  with assms show ?thesis by (simp add: handle_id_def)
next
  case (Some sig)
  obtain r1 t1 where topic: "on_fst (conn_get_topic D i) (c, w) = (r1, t1)" by (metis surj_pair)
  show ?thesis
    using get_topic topic
  proof (cases rule: statement_on_fstE)
    case (ok a c1)
    with assms topic Some show ?thesis
      by (auto simp: handle_id_def and_then_def map_err_def start_send_def lift_def
          split: option.splits sum.splits prod.splits if_splits)
  next
    case (err e c1)
    with assms topic Some show ?thesis by (simp add: handle_id_def and_then_def map_err_def)
  qed
qed

text \<open>Whatever a request is answered, unless it panics.\<close>

lemma call_prompt:
  assumes get: "statement subs up get (\<lambda>m _ m'. m' = m)"
    and margin: "renewal_margin svc \<le> now" "unat (renewal_margin svc) < 2 ^ 62"
    and run: "service_call get D L M F debug svc now req (c, w) = (r, (c', w'))"
    and ends: "r \<noteq> Inl Panic" "r \<noteq> Inl Diverge"
  shows "prompt svc (subs c) w (subs c') w'"
proof (cases "\<exists>i. resolves L svc req i")
  case False
  with service_call_unresolved [of L svc req get D M F debug now "(c, w)"] run
  show ?thesis by (auto intro: prompt_quiet)
next
  case True
  then obtain i where "resolves L svc req i" by blast
  note run' = run [unfolded service_call_resolves [OF this]]
  from get run' show ?thesis
  proof (cases rule: with_connection)
    case (no_connection e)
    then show ?thesis by (intro prompt_quiet) simp_all
  next
    case (connection c1)
    have "prompt svc (subs c1) w (subs c') w'"
    proof (cases "uri_query (uri_of L) (req_uri req)")
      case (Some q)
      obtain r1 c1' w1' where verify: "verify_intent D L debug svc now i q (c1, w) = (r1, (c1', w1'))"
        by (metis prod_cases3)
      with connection(3) Some ends have "r1 \<noteq> Inl Panic" "r1 \<noteq> Inl Diverge" "c1' = c'" "w1' = w'"
        by (auto simp: handle_id_def map_err_def split: sum.splits fault.splits)
      with verify_prompt [OF margin verify] show ?thesis by simp
    next
      case None
      from deliver_handle [OF None connection(3)] show ?thesis by (intro prompt_quiet) simp_all
    qed
    with connection(1) show ?thesis by simp
  qed
qed

end

section \<open>The system\<close>

text \<open>
  The task that \<open>Subscriber::new\<close> spawns: the renewal future, whose error is only logged. A task
  is the state of its future until the future is ready or panics; then it is over, \<open>None\<close>.
\<close>

definition renewal_task ::
  "platform \<Rightarrow> (sleep \<Rightarrow> int \<Rightarrow> bool) \<Rightarrow> ('c, 'pe) pool \<Rightarrow>
    ('c, 'e, ('g, 'u, 'b, 'm, 'z) world_scheme) connection \<Rightarrow> ('u, 'a, 'p, 'g) crates \<Rightarrow>
    bool \<Rightarrow> 'u service \<Rightarrow> clock \<Rightarrow>
    sleep option option \<times> 'c \<times> ('g, 'u, 'b, 'm, 'z) world_scheme \<Rightarrow>
    sleep option option \<times> 'c \<times> ('g, 'u, 'b, 'm, 'z) world_scheme" where
  "renewal_task P elapsed get D L debug svc k = (\<lambda>(task, c, w).
     case task of
       None \<Rightarrow> (None, c, w)
     | Some s \<Rightarrow>
         (case renew_subscriptions_poll P elapsed get D L debug svc k True (s, c, w) of
            (Inr StillPending, (s, c, w)) \<Rightarrow> (Some s, c, w)
          | (_, (_, c, w)) \<Rightarrow> (None, c, w)))"

text \<open>
  A state of the system: the acceptor, the renewal task, the database and the world. Each step
  of the subscriber's own is one call of the code: a poll of the renewal task, for which the
  executor takes the wake-up; a request on a connection; a poll of the stream of updates; a
  spawned request that is sent. The system also takes a step when the user subscribes.
\<close>

inductive own_step ::
  "('i, 's, 'x) incoming_poll \<Rightarrow> (sleep \<Rightarrow> int \<Rightarrow> bool) \<Rightarrow> platform \<Rightarrow> int \<Rightarrow> ('c, 'pe) pool \<Rightarrow>
    ('c, 'e, ('g, 'u, 'b, 'm, 'z) world_scheme) connection \<Rightarrow> ('u, 'a, 'p, 'g) crates \<Rightarrow> 'm mac_crate \<Rightarrow> features \<Rightarrow>
    bool \<Rightarrow> 'u service \<Rightarrow>
    ('i, 's) acceptor \<times> sleep option option \<times> 'c \<times> ('g, 'u, 'b, 'm, 'z) world_scheme \<Rightarrow>
    ('i, 's) acceptor \<times> sleep option option \<times> 'c \<times> ('g, 'u, 'b, 'm, 'z) world_scheme \<Rightarrow> bool"
  for accept elapsed P K get D L M F debug svc where
  renews: "steady K k \<Longrightarrow>
    renewal_task P elapsed get D L debug svc k (task, c, w\<lparr>task_woken := False\<rparr>) = (task', c', w') \<Longrightarrow>
    own_step accept elapsed P K get D L M F debug svc (this, task, c, w) (this, task', c', w')"
| serves: "renewal_margin svc \<le> as_secs (now_unix k) \<Longrightarrow>
    serve get D L M F debug svc (as_secs (now_unix k)) req (c, w) = (Inr resp, (c', w')) \<Longrightarrow>
    own_step accept elapsed P K get D L M F debug svc (this, task, c, w) (this, task, c', w')"
| reads: "subscriber_poll_next accept elapsed P debug k n (this, w) = (r, (this', w')) \<Longrightarrow>
    own_step accept elapsed P K get D L M F debug svc (this, task, c, w) (this', task, c, w')"
| requests: "spawned w = futs @ fut # futs' \<Longrightarrow>
    own_step accept elapsed P K get D L M F debug svc (this, task, c, w)
      (this, task, c, w\<lparr>spawned := futs @ futs'\<rparr>)"

inductive system_step ::
  "('i, 's, 'x) incoming_poll \<Rightarrow> (sleep \<Rightarrow> int \<Rightarrow> bool) \<Rightarrow> platform \<Rightarrow> int \<Rightarrow> ('c, 'pe) pool \<Rightarrow>
    ('c, 'e, ('g, 'u, 'b, 'm, 'z) world_scheme) connection \<Rightarrow> ('u, 'a, 'p, 'g) crates \<Rightarrow> 'm mac_crate \<Rightarrow> features \<Rightarrow>
    bool \<Rightarrow> 'u service \<Rightarrow>
    ('i, 's) acceptor \<times> sleep option option \<times> 'c \<times> ('g, 'u, 'b, 'm, 'z) world_scheme \<Rightarrow>
    ('i, 's) acceptor \<times> sleep option option \<times> 'c \<times> ('g, 'u, 'b, 'm, 'z) world_scheme \<Rightarrow> bool"
  for accept elapsed P K get D L M F debug svc where
  own: "own_step accept elapsed P K get D L M F debug svc x y \<Longrightarrow>
    system_step accept elapsed P K get D L M F debug svc x y"
| subscribes: "service_subscribe D L debug svc hub topic (c, w) = (r, (c', w')) \<Longrightarrow> r \<noteq> Inl Diverge \<Longrightarrow>
    system_step accept elapsed P K get D L M F debug svc (this, task, c, w) (this, task, c', w')"

inductive_cases own_stepE: "own_step accept elapsed P K get D L M F debug svc (this, task, c, w) (this', task', c', w')"

definition in_time ::
  "int \<Rightarrow> ('c \<Rightarrow> table) \<Rightarrow> 'u service \<Rightarrow> sleep option \<Rightarrow> 'c \<Rightarrow> ('g, 'z) handle_scheme \<Rightarrow> bool" where
  "in_time K subs svc s c w \<longleftrightarrow> on_schedule K (s, c, w) \<and> covered svc (subs c) w"

context subscriber_service
begin

lemma tick_covers:
  assumes get: "statement subs up get (\<lambda>m _ m'. m' = m)"
    and now: "unat now + unat (renewal_margin svc) + 1 < 2 ^ 63"
    and run: "tick get D L debug svc now (c, w) = (Inr n, (c', w'))"
  shows "covered svc (subs c') (w'\<lparr>next_tick := handle_next_tick n\<rparr>)"
proof -
  obtain e where e: "first_expiry (subs c') e" "next_tick_after svc now e n"
    by (rule tick_value [OF get now run])
  show ?thesis
  proof (cases e)
    case None
    with e(1) have "expiries (subs c') = {}" by (auto simp: first_expiry_def expiries_def)
    then show ?thesis by (simp add: covered_def)
  next
    case (Some e')
    with e(2) obtain t where t: "n = Some t" "int (unat t) = sint e' - int (unat (renewal_margin svc))"
      by (auto simp: next_tick_after_def)
    have "sint e' \<le> sint e''" if "e'' \<in> expiries (subs c')" for e''
      using e(1) Some that by (auto simp: first_expiry_def expiries_def)
    then have "int (unat t) \<le> due svc e''" if "e'' \<in> expiries (subs c')" for e''
      using that t(2) by (fastforce simp: due_def)
    with t(1) show ?thesis by (simp add: covered_def handle_next_tick_def)
  qed
qed

lemma covered_cong: "next_tick h' = next_tick h \<Longrightarrow> covered svc m h' = covered svc m h"
  by (simp add: covered_def)

lemma poll_in_time:
  assumes P: "times_representable P K" and margin: "unat (renewal_margin svc) < 2 ^ 62"
    and get: "statement subs up get (\<lambda>m _ m'. m' = m)" and k: "steady K k"
    and inv: "in_time K subs svc s c w"
    and run: "renew_subscriptions_poll P elapsed get D L debug svc k True (s, c, w\<lparr>task_woken := False\<rparr>) =
      (Inr StillPending, (s', c', w'))"
  shows "in_time K subs svc s' c' w'"
proof -
  let ?now = "as_secs (now_unix k)" and ?w = "w\<lparr>task_woken := False\<rparr>"
  let ?tick = "tick get D L debug svc ?now" and ?d = "deadline K (next_tick w)"
  note ticks = service_ticking [OF P margin get]
  have sched: "on_schedule K (s, c, w)" and cov: "covered svc (subs c) w"
    using inv by (simp_all add: in_time_def)
  note poll = run [unfolded renew_subscriptions_poll_def]
  have "on_schedule K (s', c', w')" by (rule ticking.poll_on_schedule [OF ticks k sched poll])
  moreover have "covered svc (subs c') w'"
  proof (cases "next_tick w = u64_MAX")
    case True
    with sched have "s = None" by (simp add: on_schedule_def)
    with poll scheduler_poll_idle [OF k, of ?w P elapsed ?tick c] True have
      "c' = c" "next_tick w' = next_tick w" by auto
    with cov show ?thesis by (simp add: covered_cong [of w' w])
  next
    case False
    have due: "scheduler_poll P elapsed k True ?tick (s, c, ?w) =
      (if elapsed ?d (instant_now k) then run_tick K ?tick ?d c (?w\<lparr>task_registered := True\<rparr>)
       else (Inr StillPending, (Some ?d, c, ?w\<lparr>task_registered := True\<rparr>)))"
      using ticking.poll_due [OF ticks k sched False] by simp
    show ?thesis
    proof (cases "elapsed ?d (instant_now k)")
      case True
      obtain r c1 w1 where tk: "?tick (c, ?w\<lparr>task_registered := True\<rparr>) = (r, (c1, w1))"
        by (metis prod_cases3)
      with True due poll obtain n where r: "r = Inr n" "c' = c1" "w' = w1\<lparr>next_tick := handle_next_tick n\<rparr>"
        by (auto simp: run_tick_def handle_next_tick_def split: sum.splits option.splits)
      with tick_covers [OF get steady_now [OF k margin]] tk show ?thesis by blast
    next
      case not_due: False
      with due poll have "c' = c" "next_tick w' = next_tick w" by auto
      with cov show ?thesis by (simp add: covered_cong [of w' w])
    qed
  qed
  ultimately show ?thesis by (simp add: in_time_def)
qed

end

context subscriber_service
begin

lemma step_in_time:
  assumes P: "times_representable P K" and margin: "unat (renewal_margin svc) < 2 ^ 62"
    and get: "statement subs up get (\<lambda>m _ m'. m' = m)"
    and step: "system_step accept elapsed P K get D L M F debug svc (this, task, c, w) (this', Some s', c', w')"
    and inv: "\<And>s. task = Some s \<Longrightarrow> in_time K subs svc s c w"
  shows "in_time K subs svc s' c' w'"
proof -
  have keeps: "in_time K subs svc s' c1 w1"
    if "task = Some s'" "prompt svc (subs c) w (subs c1) w1" for c1 w1
    using inv [OF that(1)] prompt_on_schedule [OF service_ticking [OF P margin get] that(2)]
      prompt_covered [OF that(2)]
    unfolding in_time_def by blast
  from step show ?thesis
  proof (cases rule: system_step.cases)
    case (subscribes hub topic r)
    then show ?thesis using keeps [OF _ subscribe_prompt] by blast
  next
    case own
    then show ?thesis
    proof (cases rule: own_step.cases)
      case (renews k)
      then obtain s where "task = Some s"
        "renew_subscriptions_poll P elapsed get D L debug svc k True (s, c, w\<lparr>task_woken := False\<rparr>) =
          (Inr StillPending, (s', c', w'))"
        by (auto simp: renewal_task_def split: option.splits prod.splits sum.splits polled.splits)
      then show ?thesis using poll_in_time [OF P margin get renews(2)] inv by blast
    next
      case (serves k req resp)
      from serves(4) obtain r where "service_call get D L M F debug svc (as_secs (now_unix k)) req (c, w) = (r, (c', w'))"
        "r \<noteq> Inl Panic" "r \<noteq> Inl Diverge"
        by (auto simp: serve_def split: prod.splits sum.splits fault.splits)
      with call_prompt [OF get serves(3) margin] have "prompt svc (subs c) w (subs c') w'" by blast
      with keeps serves(2) show ?thesis by blast
    next
      case (reads k n r)
      then have "prompt svc (subs c) w (subs c) w'"
        by (intro prompt_quiet subscriber_poll_next_handle [OF reads(3)]) simp
      with keeps reads show ?thesis by blast
    next
      case (requests futs fut futs')
      then have "prompt svc (subs c) w (subs c) w'" by (intro prompt_quiet) simp_all
      with keeps requests show ?thesis by blast
    qed
  qed
qed

lemma run_in_time:
  assumes P: "times_representable P K" and margin: "unat (renewal_margin svc) < 2 ^ 62"
    and get: "statement subs up get (\<lambda>m _ m'. m' = m)"
    and inv: "in_time K subs svc s c w"
    and run: "(system_step accept elapsed P K get D L M F debug svc)\<^sup>*\<^sup>* (this, Some s, c, w) (this', Some s', c', w')"
  shows "in_time K subs svc s' c' w'"
proof -
  have "\<forall>this' s' c' w'. y = (this', Some s', c', w') \<longrightarrow> in_time K subs svc s' c' w'"
    if "(system_step accept elapsed P K get D L M F debug svc)\<^sup>*\<^sup>* (this, Some s, c, w) y" for y
    using that
  proof (induction rule: rtranclp_induct)
    case base
    with inv show ?case by simp
  next
    case (step y z)
    obtain this1 task1 c1 w1 where y: "y = (this1, task1, c1, w1)" by (metis prod_cases4)
    show ?case
    proof (intro allI impI)
      fix this2 s2 c2 w2 assume "z = (this2, Some s2, c2, w2)"
      with step(2) y have
        "system_step accept elapsed P K get D L M F debug svc (this1, task1, c1, w1) (this2, Some s2, c2, w2)" by simp
      then show "in_time K subs svc s2 c2 w2"
        by (rule step_in_time [OF P margin get]) (use step.IH y in simp)
    qed
  qed
  from this [OF run] show ?thesis by simp
qed

end

section \<open>The beginning\<close>

lemma map_err_Inr: "map_err f m s = (Inr a, t) \<longleftrightarrow> m s = (Inr a, t)"
  by (auto simp: map_err_def split: prod.splits sum.splits fault.splits)

definition first_tick_at :: "u64 \<Rightarrow> i64 \<Rightarrow> u64" where
  "first_tick_at margin e = saturating_sub (case u64_try_from e of None \<Rightarrow> 0 | Some e \<Rightarrow> e) margin"

lemma first_tick_due: "int (unat (first_tick_at (renewal_margin svc) e)) = due svc e"
proof (cases "u64_try_from e")
  case None
  then have "sint e < 0" by (simp add: u64_try_from_def split: if_splits)
  then have "sint e - int (unat (renewal_margin svc)) \<le> 0" by linarith
  with None show ?thesis by (simp add: first_tick_at_def unat_saturating_sub due_def max_absorb1)
next
  case (Some e')
  have "int (a - b) = max 0 (int a - int b)" for a b :: nat by simp
  with u64_try_from_Some [OF Some] Some show ?thesis
    by (simp only: first_tick_at_def option.case unat_saturating_sub due_def)
qed

lemma bind_result_Inr: "bind_result r k = Inr b \<longleftrightarrow> (\<exists>a. r = Inr a \<and> k a = Inr b)"
  by (cases r) simp_all

lemma scheduler_new_any:
  "(scheduler_new P k h :: ('e, sleep option) result) = Inr s \<Longrightarrow>
   (scheduler_new P k h :: ('f, sleep option) result) = Inr s"
  by (cases "instant_checked P (instant_of k (from_secs (next_tick h)))")
    (simp_all add: scheduler_new_def decode_next_tick_def instant_from_unix_eq split: if_splits)

context connection_ref
begin

lemma build_result:
  assumes get: "statement subs up get (\<lambda>m _ m'. m' = m)"
    and run: "build_service get D L P k b prefix g c0 = (Inr (svc, w, s), c)"
  obtains e where "first_expiry (subs c) e" "subs c = subs c0"
    "renewal_margin svc = as_secs (builder_renewal_margin b)"
    "next_tick w = handle_next_tick (map_option (first_tick_at (renewal_margin svc)) e)"
    "(scheduler_new P k w :: (unit, sleep option) result) = Inr s"
proof -
  from run obtain a c1 e where c1: "get c0 = (Inr a, c1)" and e: "conn_get_next_expiry D c1 = (Inr e, c)"
    by (auto simp: build_service_def Let_def and_then_Inr map_err_Inr)
  from get c1 have "subs c1 = subs c0" by (cases rule: statementE) simp_all
  moreover from get_next_expiry e have "subs c = subs c1" "first_expiry (subs c) e"
    by (cases rule: statementE; simp)+
  ultimately show thesis
    using run c1 e
    by (intro that [of e])
      (auto simp: build_service_def Let_def and_then_Inr map_err_Inr first_tick_at_def [abs_def]
        bind_result_Inr renew_subscriptions_new_def intro: scheduler_new_any)
qed

end

context subscriber_service
begin

lemma build_in_time:
  assumes P: "times_representable P K" and k: "steady K k"
    and get: "statement subs up get (\<lambda>m _ m'. m' = m)"
    and run: "build_service get D L P k b prefix g c0 = (Inr (svc, w, s), c)"
  shows "in_time K subs svc s c (w\<lparr>task_woken := True\<rparr>)"
proof -
  obtain e where e: "first_expiry (subs c) e"
    and first: "next_tick w = handle_next_tick (map_option (first_tick_at (renewal_margin svc)) e)"
    and new: "(scheduler_new P k w :: (unit, sleep option) result) = Inr s"
    by (rule build_result [OF get run])
  have small: "unat (next_tick w) < 2 ^ 63" if "next_tick w \<noteq> u64_MAX"
  proof (cases e)
    case None
    with first that show ?thesis by (simp add: handle_next_tick_def)
  next
    case (Some e')
    then have "int (unat (next_tick w)) = due svc e'" using first first_tick_due [of svc e'] by (simp add: handle_next_tick_def)
    moreover have "sint e' < int (2 ^ 63)" "0 < int (2 ^ 63)" using sint_lt [of e'] by simp_all
    ultimately have "int (unat (next_tick w)) < int (2 ^ 63)" unfolding due_def by linarith
    then show ?thesis by (simp only: of_nat_less_iff)
  qed
  with P have "next_tick w \<noteq> u64_MAX \<longrightarrow> representable P K (next_tick w)" by (simp add: times_representable_def)
  then have "(decode_next_tick P k w :: (unit, int option) result) =
      Inr (if next_tick w = u64_MAX then None else Some (deadline K (next_tick w)))"
    by (rule decode_next_tick_steady [OF k])
  with new have "s = (if next_tick w = u64_MAX then None else Some (deadline K (next_tick w)))"
    by (simp add: scheduler_new_def)
  then have "on_schedule K (s, c, w\<lparr>task_woken := True\<rparr>)"
    using small by (cases "next_tick w = u64_MAX") (simp_all add: on_schedule_def sleep_covers_def)
  moreover have "covered svc (subs c) w"
  proof (cases e)
    case None
    with e have "expiries (subs c) = {}" by (auto simp: first_expiry_def expiries_def)
    then show ?thesis by (simp add: covered_def)
  next
    case (Some e')
    then have "int (unat (next_tick w)) = due svc e'" using first first_tick_due [of svc e'] by (simp add: handle_next_tick_def)
    moreover have "sint e' \<le> sint e''" if "e'' \<in> expiries (subs c)" for e''
      using that e Some by (auto simp: first_expiry_def expiries_def)
    then have "due svc e' \<le> due svc e''" if "e'' \<in> expiries (subs c)" for e''
      using that by (simp add: due_def max.coboundedI2)
    ultimately show ?thesis by (simp add: covered_def)
  qed
  ultimately show ?thesis by (simp add: in_time_def covered_cong [of "w\<lparr>task_woken := True\<rparr>" w])
qed

end

section \<open>Renewal when it is due\<close>

lemma renewed_asks:
  assumes "renewed L prefix t m m' futs" "m i = Some s" "expires_before t s"
  obtains j secret fut where "j \<notin> dom m" "fut \<in> set futs"
    "m' j = Some \<lparr>sub_hub = sub_hub s, sub_topic = sub_topic s, sub_secret = secret, sub_expires_at = None\<rparr>"
    "posts_form L prefix j (\<lambda>cb. SubscribeForm cb (sub_topic s) secret) (sub_hub s) (sub_topic s) fut"
proof -
  from assms(1) obtain xs news where r: "set xs = expiring t m" "list_all2 (asks L prefix) xs news"
    "distinct (map fst news)" "fst ` set news \<inter> dom m = {}" "m' = deactivated t (insert_all xs news m)"
    "futs = map (\<lambda>(_, _, fut). fut) news"
    unfolding renewed_def by (elim exE conjE) (rule that)
  have "(i, sub_hub s, sub_topic s) \<in> set xs" using assms(2,3) r(1) by (auto simp: expiring_def)
  then obtain n where n: "n < length xs" "xs ! n = (i, sub_hub s, sub_topic s)" by (auto simp: in_set_conv_nth)
  obtain j secret fut where new: "news ! n = (j, secret, fut)" by (metis prod_cases3)
  have len: "n < length news" using n(1) r(2) by (simp add: list_all2_lengthD)
  then have mem: "(j, secret, fut) \<in> set news" using new by (metis nth_mem)
  show thesis
  proof (rule that [of j fut secret])
    show "j \<notin> dom m" using mem r(4) by force
    show "fut \<in> set futs" using mem r(6) by force
    show "posts_form L prefix j (\<lambda>cb. SubscribeForm cb (sub_topic s) secret) (sub_hub s) (sub_topic s) fut"
      using list_all2_nthD [OF r(2) n(1)] n(2) new by (simp add: asks_def)
    show "m' j = Some \<lparr>sub_hub = sub_hub s, sub_topic = sub_topic s, sub_secret = secret, sub_expires_at = None\<rparr>"
      using list_all2_nthD [OF insert_all_new [OF r(3,2)] n(1), of m] n(2) new r(5)
      by (simp add: deactivated_def)
  qed
qed

lemma as_secs_unat: "d < 2 ^ 62 * nanos \<Longrightarrow> unat (as_secs d) = d div nanos"
proof -
  assume "d < 2 ^ 62 * nanos"
  then have "d div nanos < 2 ^ 62" using less_mult_imp_div_less [of d "2 ^ 62" nanos] by simp
  moreover have "unat (as_secs d) = d div nanos mod 2 ^ 64" by (simp add: as_secs_def unat_of_nat)
  ultimately show ?thesis by simp
qed

text \<open>At an instant past the due time the Unix clock shows the due time or a later one.\<close>

lemma steady_due:
  assumes "steady K k" "t * 10 ^ 9 + K \<le> instant_now k"
  shows "t \<le> int (unat (as_secs (now_unix k)))"
proof -
  have "t * 10 ^ 9 \<le> int (system_time_now k)" "now_unix k < 2 ^ 62 * nanos"
    using assms by (simp_all add: steady_def now_unix_def)
  then have "t \<le> int (system_time_now k) div 10 ^ 9" by (simp add: zdiv_mono1 [of "t * 10 ^ 9"])
  with as_secs_unat [OF \<open>now_unix k < _\<close>] show ?thesis by (simp add: now_unix_def zdiv_int)
qed

lemma in_time_due:
  assumes "in_time K subs svc s c w" "subs c i = Some sub" "sub_expires_at sub = Some e"
  shows "int (unat (next_tick w)) \<le> due svc e" "next_tick w \<noteq> u64_MAX"
    "deadline K (next_tick w) \<le> due svc e * 10 ^ 9 + K"
proof -
  have "covered svc (subs c) w" "e \<in> expiries (subs c)"
    using assms by (auto simp: in_time_def expiries_def)
  then show le: "int (unat (next_tick w)) \<le> due svc e" by (simp add: covered_def)
  then show "deadline K (next_tick w) \<le> due svc e * 10 ^ 9 + K" by (simp add: deadline_def from_secs_def)
  have "sint e < 2 ^ 63" "(0 :: int) < 2 ^ 63" using sint_lt [of e] by simp_all
  with le have "int (unat (next_tick w)) < 2 ^ 63" unfolding due_def by linarith
  moreover have "\<not> int (unat u64_MAX) < 2 ^ 63" by simp
  ultimately show "next_tick w \<noteq> u64_MAX" by metis
qed

context subscriber_service
begin

text \<open>What a poll of the renewal future comes to when its time has come.\<close>

lemma renewal_poll_due:
  assumes "times_representable P K" "unat (renewal_margin svc) < 2 ^ 62"
    and "statement subs up get (\<lambda>m _ m'. m' = m)" "steady K k" "in_time K subs svc s c w"
    and "next_tick w \<noteq> u64_MAX" "elapsed (deadline K (next_tick w)) (instant_now k)"
  shows "renew_subscriptions_poll P elapsed get D L debug svc k True (s, c, w\<lparr>task_woken := False\<rparr>) =
    run_tick K (tick get D L debug svc (as_secs (now_unix k))) (deadline K (next_tick w)) c
      (w\<lparr>task_woken := False, task_registered := True\<rparr>)"
  using ticking.poll_due [OF service_ticking [OF assms(1-3)] assms(4) _ assms(6)] assms(5,7)
  by (simp add: renew_subscriptions_poll_def in_time_def)

lemma due_renewed:
  assumes P: "times_representable P K" and margin: "unat (renewal_margin svc) < 2 ^ 62"
    and get: "statement subs up get (\<lambda>m _ m'. m' = m)" and k: "steady K k" and sleeps: "sleep_spec elapsed"
    and inv: "in_time K subs svc s c w" and active: "subs c i = Some sub" "sub_expires_at sub = Some e"
    and come: "due svc e * 10 ^ 9 + K + 10 ^ 6 \<le> instant_now k"
    and up: "up c" "2 * card (dom (subs c)) < 2 ^ 64" "hubs_are_uris L (subs c)"
  obtains s' c' w' j secret fut where
    "renew_subscriptions_poll P elapsed get D L debug svc k True (s, c, w\<lparr>task_woken := False\<rparr>) =
      (Inr StillPending, (s', c', w'))"
    "subs c' i = Some (sub\<lparr>sub_expires_at := None\<rparr>)" "j \<notin> dom (subs c)" "fut \<in> set (spawned w')"
    "subs c' j = Some \<lparr>sub_hub = sub_hub sub, sub_topic = sub_topic sub, sub_secret = secret,
       sub_expires_at = None\<rparr>"
    "posts_form L (callback svc) j (\<lambda>cb. SubscribeForm cb (sub_topic sub) secret) (sub_hub sub)
       (sub_topic sub) fut"
proof -
  let ?now = "as_secs (now_unix k)" and ?d = "deadline K (next_tick w)"
  let ?tick = "tick get D L debug svc ?now" and ?w = "w\<lparr>task_woken := False, task_registered := True\<rparr>"
  note due = in_time_due [OF inv active]
  have elapsed: "elapsed ?d (instant_now k)" using come due(3) by (intro sleep_spec.precise [OF sleeps]) linarith
  have "due svc e \<le> int (unat ?now)" using come by (intro steady_due [OF k]) simp
  then have expires: "sint e \<le> int (unat ?now) + int (unat (renewal_margin svc))" by (simp add: due_def)
  note poll = renewal_poll_due [OF P margin get k inv due(2), of elapsed, OF elapsed]
  obtain n c' g futs e' th where
    run: "?tick (c, ?w) = (Inr n, (c', ?w\<lparr>thread_rng := g, spawned := spawned ?w @ futs\<rparr>))"
    and th: "sint th = int (unat ?now + unat (renewal_margin svc) + 1)"
    and r: "renewed L (callback svc) th (subs c) (subs c') futs"
    by (rule tick_total [OF get up(1) steady_now [OF k margin] up(2,3)])
  have before: "expires_before th sub" using expires th active(2) by simp
  obtain j secret fut where new: "j \<notin> dom (subs c)" "fut \<in> set futs"
    "subs c' j = Some \<lparr>sub_hub = sub_hub sub, sub_topic = sub_topic sub, sub_secret = secret, sub_expires_at = None\<rparr>"
    "posts_form L (callback svc) j (\<lambda>cb. SubscribeForm cb (sub_topic sub) secret) (sub_hub sub) (sub_topic sub) fut"
    by (rule renewed_asks [OF r active(1) before])
  obtain s' w' where tick: "run_tick K ?tick ?d c ?w = (Inr StillPending, (s', c', w'))"
    "spawned w' = spawned w @ futs"
    using run by (cases n) (auto simp: run_tick_def)
  show thesis
    by (rule that [of s' c' w' j fut secret])
      (use poll tick new renewed_old [OF r active(1)] before in simp_all)
qed

end

text \<open>Every state the subscriber reaches with its renewal task alive.\<close>

lemma built_in_time:
  assumes "subscriber_service L D subs up svc" "times_representable P K"
    and "unat (renewal_margin svc) < 2 ^ 62" "statement subs up get (\<lambda>m _ m'. m' = m)" "steady K k"
    and "build get D L P k b inc prefix g c0 = (Inr (this, svc, w, s), c)"
    and "(system_step accept elapsed P K get D L M F debug svc)\<^sup>*\<^sup>*
      (this, Some s, c, w\<lparr>task_woken := True\<rparr>) (this', Some s', c', w')"
  shows "in_time K subs svc s' c' w'"
proof -
  have "build_service get D L P k b prefix g c0 = (Inr (svc, w, s), c)"
    using assms(6) by (auto simp: build_def and_then_Inr)
  then have "in_time K subs svc s c (w\<lparr>task_woken := True\<rparr>)"
    by (rule subscriber_service.build_in_time [OF assms(1,2,5,4)])
  then show ?thesis by (rule subscriber_service.run_in_time [OF assms(1-4) _ assms(7)])
qed

end
