(* ===== verification/InTime.thy ===== *)
theory InTime
  imports System
begin

text \<open>
  What holds of the subscriber as a whole, in the states that \<open>System\<close> reaches from a build of the
  subscriber: no active subscription is overlooked and each is renewed when it is due; and the
  two ways this can fail: an error of a tick ends all renewals, and a request that runs between
  the last query of a tick and the store of its result is forgotten.
\<close>

section \<open>A reference run\<close>

text \<open>The subscriber with the default builder on a database with one active subscription.\<close>

definition mem_active :: mem where
  "mem_active = \<lparr>mem_rows = [(1, mem_sub)], mem_faults = []\<rparr>"

definition epoch :: clock where
  "epoch = \<lparr>instant_now = 0, system_time_now = 0\<rparr>"

definition mem_start :: "(u64, string \<times> string option, unit, u8 list \<times> u8 list) world" where
  "mem_start = \<lparr>thread_rng = 7, next_tick = 6400, task_registered = False, task_woken = False,
     spawned = [], sent = [], closed = False\<rparr>"

definition mem_acceptor :: "(unit, unit) acceptor" where
  "mem_acceptor = \<lparr>incoming = (), acc_backoff = backoff_new, served = []\<rparr>"

abbreviation mem_step ::
  "(unit, unit) acceptor \<times> sleep option option \<times> mem \<times> (u64, string \<times> string option, unit, u8 list \<times> u8 list) world \<Rightarrow>
   (unit, unit) acceptor \<times> sleep option option \<times> mem \<times> (u64, string \<times> string option, unit, u8 list \<times> u8 list) world \<Rightarrow> bool" where
  "mem_step \<equiv> system_step (\<lambda>i. (Pending :: (unit + unit) option poll, i)) exact_sleep wide_platform 0
     (ret () :: (mem, unit) pool) (diesel2_connection mem_diesel counter_rng) reference_crates
     (buffered_mac constant_digest) all_features True mem_svc"

lemma mem_active: "mem_table mem_active = [1 \<mapsto> mem_sub]" "mem_up mem_active"
  by (auto simp: mem_active_def mem_table_def mem_up_def)

lemma mem_first_expiry:
  "conn_get_next_expiry (diesel2_connection mem_diesel counter_rng) mem_active = (Inr (Some 10000), mem_active)"
  by (simp add: diesel2_connection_def diesel2_get_next_expiry_def mem_diesel_def mem_query_def mem_select_def
      mem_active_def and_then_def selected_def not_null_def mem_sub_def)

lemma mem_later_expiry:
  "conn_get_next_expiry (diesel2_connection mem_diesel counter_rng)
     \<lparr>mem_rows = [(1, mem_sub)], mem_faults = False # fs\<rparr> =
   (Inr (Some 10000), \<lparr>mem_rows = [(1, mem_sub)], mem_faults = fs\<rparr>)"
  by (simp add: diesel2_connection_def diesel2_get_next_expiry_def mem_diesel_def mem_query_def mem_select_def
      and_then_def selected_def not_null_def mem_sub_def)

lemma mem_prefix:
  "prepare_callback_prefix (uri_of reference_crates) (''http://sub'', Some ''/'') = Inr (''http://sub'', Some ''/'')"
  by (simp add: prepare_callback_prefix_def reference_crates_def text_uri_def)

lemma mem_sleep: "renew_subscriptions_new wide_platform epoch mem_start = Inr (Some (deadline 0 6400))"
  by (simp add: renew_subscriptions_new_def scheduler_new_def decode_next_tick_def instant_from_unix_def
      epoch_def wide_platform_def deadline_def from_secs_def now_unix_def instant_checked_def mem_start_def
      u64_MAX_def)

lemma mem_margin: "as_secs (from_secs 3600) = 3600"
  by (simp add: as_secs_def from_secs_def)

lemma mem_first_tick: "handle_next_tick (Some (saturating_sub
    (case u64_try_from 10000 of None \<Rightarrow> 0 | Some e \<Rightarrow> e) 3600)) = 6400"
  by (simp add: handle_next_tick_def u64_try_from_def saturating_sub_def)

lemmas mem_build_simps = build_def build_service_def and_then_def map_err_def Let_def builder_new_def
  mem_first_expiry mem_prefix mem_margin mem_first_tick mem_sleep [unfolded mem_start_def] mem_svc_def
  mem_acceptor_def mem_start_def

lemma mem_build:
  "build (ret ()) (diesel2_connection mem_diesel counter_rng) reference_crates wide_platform epoch builder_new ()
     (''http://sub'', Some ''/'') 7 mem_active =
   (Inr (mem_acceptor, mem_svc, mem_start, Some (deadline 0 6400)), mem_active)"
  by (simp add: mem_build_simps)

text \<open>A pool that fails the third time the database is asked for something.\<close>

definition flaky_pool :: "(mem, unit sql_error) pool" where
  "flaky_pool = answer (\<lambda>c. (Inr (), mem_rows c))"

lemma flaky_pool: "statement mem_table mem_up flaky_pool (\<lambda>m _ m'. m' = m)"
  unfolding flaky_pool_def by (rule answer_statement) (auto simp: mem_table_def)

lemma flaky_build:
  "build flaky_pool (diesel2_connection mem_diesel counter_rng) reference_crates wide_platform epoch builder_new ()
     (''http://sub'', Some ''/'') 7 (mem_active\<lparr>mem_faults := [False, False, True]\<rparr>) =
   (Inr (mem_acceptor, mem_svc, mem_start, Some (deadline 0 6400)), mem_active\<lparr>mem_faults := [True]\<rparr>)"
  by (simp add: mem_build_simps flaky_pool_def mem_active_def mem_later_expiry)

lemma mem_tick:
  assumes "mem_up c" "expiries (mem_table c) = {10000}" "2 * card (dom (mem_table c)) < 2 ^ 64"
    and "hubs_are_uris reference_crates (mem_table c)"
  obtains c1 w1 where "tick (ret () :: (mem, unit) pool) (diesel2_connection mem_diesel counter_rng)
      reference_crates True mem_svc 1000 (c, w) = (Inr (Some 6400), (c1, w1))"
    "mem_table c1 = mem_table c" "mem_up c1"
proof -
  have "unat (1000 :: u64) + unat (renewal_margin mem_svc) + 1 < 2 ^ 63" by (simp add: mem_svc_def)
  then obtain n c1 g futs e th where
    run: "tick (ret () :: (mem, unit) pool) (diesel2_connection mem_diesel counter_rng) reference_crates True mem_svc
      1000 (c, w) = (Inr n, (c1, w\<lparr>thread_rng := g, spawned := spawned w @ futs\<rparr>))"
    and th: "sint th = int (unat (1000 :: u64) + unat (renewal_margin mem_svc) + 1)"
    and r: "renewed reference_crates (callback mem_svc) th (mem_table c) (mem_table c1) futs"
    and e: "first_expiry (mem_table c1) e" and up: "mem_up c1" and n: "next_tick_after mem_svc 1000 e n"
    by (rule mem_svc.tick_total [OF always_statement assms(1) _ assms(3,4)])
  have "\<not> expires_before th s" if "mem_table c i = Some s" for i s
  proof (cases "sub_expires_at s")
    case (Some e')
    with that have "e' \<in> expiries (mem_table c)" by (auto simp: expiries_def)
    with assms(2) have "e' = 10000" by simp
    with Some th show ?thesis by (simp add: mem_svc_def)
  qed simp
  then have "expiring th (mem_table c) = {}" by (auto simp: expiring_def)
  then have "mem_table c1 = mem_table c \<and> futs = []" by (rule renewed_none [OF _ r])
  then have same: "mem_table c1 = mem_table c" ..
  have "e = Some 10000"
  proof (cases e)
    case None
    with e assms(2) show ?thesis unfolding same by (auto simp: first_expiry_def expiries_def)
  next
    case (Some e')
    with e have "e' \<in> expiries (mem_table c)" unfolding same by (auto simp: first_expiry_def expiries_def)
    with Some assms(2) show ?thesis by simp
  qed
  with n obtain t where "n = Some t" "int (unat t) = 6400" by (auto simp: next_tick_after_def mem_svc_def)
  then have "n = Some 6400" by (simp add: word_uint_eq_iff)
  with run same up show thesis by (intro that) simp_all
qed

lemma mem_confirm:
  assumes "mem_up c" "mem_table c 3 = Some (mem_sub\<lparr>sub_topic := ''u'', sub_expires_at := None\<rparr>)"
    and "verify_of_fields (form_parse (form_of reference_crates) q) = Some (VerifySubscribe ''u'' ''c'' 4000)"
  obtains c' w' where "verify_intent (diesel2_connection mem_diesel counter_rng) reference_crates True mem_svc 1000 3 q
      (c, w) = (Inr (response_new ''c''), (c', w'))"
    "mem_table c' 3 = Some (mem_sub\<lparr>sub_topic := ''u'', sub_expires_at := Some 5000\<rparr>)"
proof -
  let ?s = "mem_sub\<lparr>sub_topic := ''u'', sub_expires_at := Some 5000\<rparr>"
  have p: "pending 3 ''u'' (mem_table c) = Some ''h''" using assms(2) by (simp add: pending_Some mem_sub_def)
  have uri: "uri_parse (uri_of reference_crates) ''h'' \<noteq> None" using mem_sub_uri by (simp add: mem_sub_def)
  have e: "lease_expiry 1000 4000 = 5000" by (simp add: lease_expiry_def saturating_add_def i64_try_from_def)
  have margin: "int (unat (renewal_margin mem_svc)) \<le> sint (lease_expiry 1000 4000)"
    unfolding e by (simp add: mem_svc_def)
  obtain c' old futs where run: "verify_intent (diesel2_connection mem_diesel counter_rng) reference_crates True mem_svc
      1000 3 q (c, w) = (Inr (response_new ''c''),
       (c', (hasten (lease_expiry 1000 4000 - renewal_margin mem_svc) w)\<lparr>spawned := spawned w @ futs\<rparr>))"
    and t: "mem_table c' = verified 3 (lease_expiry 1000 4000) ''h'' ''u'' (mem_table c)"
    by (rule mem_svc.verify_pending [OF assms(1,3) p uri margin])
  have "mem_table c' 3 = Some ?s"
    using verified_alone [OF p, of 5000 3 ?s] assms(2) unfolding t e by (simp add: mem_sub_def)
  with run show thesis by (rule that)
qed

section \<open>Properties\<close>

text \<open>
  C1: no active subscription is overlooked. From the start of the subscriber on, whatever hubs
  ask, the user subscribes and reads, requests are sent and the renewal task is polled, in
  any order, as long as the task is not over: the handle shows a time by which no
  active subscription is overdue, and the task has been woken or its sleep ends by the time the
  subscription is due, its expiry less the margin.
\<close>

theorem no_subscription_overlooked:
  assumes "subscriber_service L D subs up svc" "times_representable P K"
    and "unat (renewal_margin svc) < 2 ^ 62" "statement subs up get (\<lambda>m _ m'. m' = m)" "steady K k"
    and "build get D L P k b inc prefix g c0 = (Inr (this, svc, w, s), c)"
    and "(system_step accept elapsed P K get D L M F debug svc)\<^sup>*\<^sup>*
      (this, Some s, c, w\<lparr>task_woken := True\<rparr>) (this', Some s', c', w')"
    and "subs c' i = Some sub" "sub_expires_at sub = Some e"
  shows "int (unat (next_tick w')) \<le> due svc e \<and>
    (task_woken w' \<or> (\<exists>d. s' = Some d \<and> d \<le> due svc e * 10 ^ 9 + K \<and> task_registered w'))"
  using built_in_time [OF assms(1-7)] in_time_due [OF built_in_time [OF assms(1-7)] assms(8,9)]
  by (auto simp: in_time_def on_schedule_def)

theorem no_subscription_overlooked_witness:
  "\<exists>d w'. mem_step\<^sup>*\<^sup>*
       (mem_acceptor, Some (Some (deadline 0 6400)), mem_active, mem_start\<lparr>task_woken := True\<rparr>)
       (mem_acceptor, Some (Some d), mem_active, w') \<and> \<not> task_woken w' \<and> d \<le> 6400 * 10 ^ 9"
proof -
  let ?w' = "mem_start\<lparr>task_registered := True\<rparr>"
  have "renewal_task wide_platform exact_sleep (ret ()) (diesel2_connection mem_diesel counter_rng)
      reference_crates True mem_svc epoch (Some (Some (deadline 0 6400)), mem_active, mem_start) =
      (Some (Some (deadline 0 6400)), mem_active, ?w')"
    by (simp add: renewal_task_def renew_subscriptions_poll_def scheduler_poll_def Let_def decode_next_tick_def
        instant_from_unix_def epoch_def wide_platform_def deadline_def from_secs_def now_unix_def
        instant_checked_def mem_start_def u64_MAX_def exact_sleep_def)
  moreover have "mem_start\<lparr>task_woken := False\<rparr> = mem_start" by (simp add: mem_start_def)
  ultimately have "mem_step (mem_acceptor, Some (Some (deadline 0 6400)), mem_active, mem_start\<lparr>task_woken := True\<rparr>)
      (mem_acceptor, Some (Some (deadline 0 6400)), mem_active, ?w')"
    by (intro system_step.own own_step.renews [of 0 epoch]) (simp_all add: steady_def epoch_def)
  then have run: "mem_step\<^sup>*\<^sup>*
      (mem_acceptor, Some (Some (deadline 0 6400)), mem_active, mem_start\<lparr>task_woken := True\<rparr>)
      (mem_acceptor, Some (Some (deadline 0 6400)), mem_active, ?w')" by (rule r_into_rtranclp)
  have row: "mem_table mem_active 1 = Some mem_sub" "sub_expires_at mem_sub = Some 10000"
    by (simp_all add: mem_active mem_sub_def)
  have margin: "unat (renewal_margin mem_svc) < 2 ^ 62" and epoch: "steady 0 epoch"
    by (simp_all add: mem_svc_def steady_def epoch_def)
  have asleep: "\<not> task_woken ?w'" by (simp add: mem_start_def)
  with no_subscription_overlooked [OF mem_svc.subscriber_service_axioms, OF wide_platform, OF margin,
      OF always_statement, OF epoch, OF mem_build, OF run, OF row]
  have "deadline 0 6400 \<le> due mem_svc 10000 * 10 ^ 9" by simp
  also have "due mem_svc 10000 = 6400" by (simp add: due_def mem_svc_def)
  finally show ?thesis using run asleep by blast
qed

text \<open>
  C2: an active subscription is renewed in time. In every state the subscriber reaches with its
  renewal task alive, the first poll of the task after a subscription is due (a millisecond
  later, the precision of a sleep) deactivates it and spawns a request that asks its hub for
  its topic anew, under a fresh id and with the stored secret, and the task stays alive.
\<close>

theorem due_subscription_renewed:
  assumes "subscriber_service L D subs up svc" "times_representable P K"
    and "unat (renewal_margin svc) < 2 ^ 62" "statement subs up get (\<lambda>m _ m'. m' = m)" "steady K k0"
    and "build get D L P k0 b inc prefix g c0 = (Inr (this, svc, w0, s0), c)"
    and "(system_step accept elapsed P K get D L M F debug svc)\<^sup>*\<^sup>*
      (this, Some s0, c, w0\<lparr>task_woken := True\<rparr>) (this', Some s, c', w)"
    and "subs c' i = Some sub" "sub_expires_at sub = Some e"
    and "sleep_spec elapsed" "steady K k" "due svc e * 10 ^ 9 + K + 10 ^ 6 \<le> instant_now k"
    and "up c'" "2 * card (dom (subs c')) < 2 ^ 64" "hubs_are_uris L (subs c')"
  shows "\<exists>s' c'' w' j secret fut.
    renewal_task P elapsed get D L debug svc k (Some s, c', w\<lparr>task_woken := False\<rparr>) = (Some s', c'', w') \<and>
    subs c'' i = Some (sub\<lparr>sub_expires_at := None\<rparr>) \<and> j \<notin> dom (subs c') \<and>
    subs c'' j = Some \<lparr>sub_hub = sub_hub sub, sub_topic = sub_topic sub, sub_secret = secret,
      sub_expires_at = None\<rparr> \<and>
    fut \<in> set (spawned w') \<and>
    posts_form L (callback svc) j (\<lambda>cb. SubscribeForm cb (sub_topic sub) secret) (sub_hub sub)
      (sub_topic sub) fut"
proof -
  obtain s' c'' w' j secret fut where
    "renew_subscriptions_poll P elapsed get D L debug svc k True (s, c', w\<lparr>task_woken := False\<rparr>) =
      (Inr StillPending, (s', c'', w'))"
    and rest: "subs c'' i = Some (sub\<lparr>sub_expires_at := None\<rparr>)" "j \<notin> dom (subs c')"
    "subs c'' j = Some \<lparr>sub_hub = sub_hub sub, sub_topic = sub_topic sub, sub_secret = secret,
       sub_expires_at = None\<rparr>" "fut \<in> set (spawned w')"
    "posts_form L (callback svc) j (\<lambda>cb. SubscribeForm cb (sub_topic sub) secret) (sub_hub sub)
       (sub_topic sub) fut"
    by (rule subscriber_service.due_renewed [OF assms(1-4,11,10) built_in_time [OF assms(1-7)] assms(8,9,12-15)])
  then have "renewal_task P elapsed get D L debug svc k (Some s, c', w\<lparr>task_woken := False\<rparr>) = (Some s', c'', w')"
    by (simp add: renewal_task_def)
  with rest show ?thesis by (intro exI conjI)
qed

theorem due_subscription_renewed_witness:
  "\<exists>s' c w j secret fut. renewal_task wide_platform exact_sleep (ret () :: (mem, unit) pool)
     (diesel2_connection mem_diesel counter_rng) reference_crates True mem_svc
     \<lparr>instant_now = 6401 * 10 ^ 9, system_time_now = 6401 * 10 ^ 9\<rparr>
     (Some (Some (deadline 0 6400)), mem_active, mem_start) = (Some s', c, w) \<and>
   mem_table c 1 = Some (mem_sub\<lparr>sub_expires_at := None\<rparr>) \<and> fut \<in> set (spawned w) \<and> j \<noteq> 1 \<and>
   posts_form reference_crates (callback mem_svc) j (\<lambda>cb. SubscribeForm cb ''t'' secret) ''h'' ''t'' fut"
proof -
  let ?k = "\<lparr>instant_now = 6401 * 10 ^ 9, system_time_now = 6401 * 10 ^ 9\<rparr> :: clock"
  have row: "mem_table mem_active 1 = Some mem_sub" "sub_expires_at mem_sub = Some 10000"
    by (simp_all add: mem_active mem_sub_def)
  have margin: "unat (renewal_margin mem_svc) < 2 ^ 62" and epoch: "steady 0 epoch" and k: "steady 0 ?k"
    by (simp_all add: mem_svc_def steady_def epoch_def)
  have come: "due mem_svc 10000 * 10 ^ 9 + 0 + 10 ^ 6 \<le> instant_now ?k" by (simp add: due_def mem_svc_def)
  have few: "2 * card (dom (mem_table mem_active)) < 2 ^ 64" by (simp add: mem_active)
  have uris: "hubs_are_uris reference_crates (mem_table mem_active)"
    using mem_sub_uri by (simp add: hubs_are_uris_def mem_active)
  have asleep: "(mem_start\<lparr>task_woken := True\<rparr>)\<lparr>task_woken := False\<rparr> = mem_start" by (simp add: mem_start_def)
  have sub: "sub_hub mem_sub = ''h''" "sub_topic mem_sub = ''t''" by (simp_all add: mem_sub_def)
  have run: "mem_step\<^sup>*\<^sup>*
      (mem_acceptor, Some (Some (deadline 0 6400)), mem_active, mem_start\<lparr>task_woken := True\<rparr>)
      (mem_acceptor, Some (Some (deadline 0 6400)), mem_active, mem_start\<lparr>task_woken := True\<rparr>)" by simp
  from due_subscription_renewed [OF mem_svc.subscriber_service_axioms, OF wide_platform, OF margin,
      OF always_statement, OF epoch, OF mem_build, OF run, OF row, OF exact_sleep.sleep_spec_axioms,
      OF k, OF come, OF mem_active(2), OF few, OF uris]
  show ?thesis unfolding asleep sub by (elim exE conjE) (intro exI conjI, assumption+, auto simp: mem_active)
qed

text \<open>
  C26: one failure of the pool ends all renewals. If the pool yields no connection when a
  subscription is due, the renewal task logs the error and is over: the table is as it was, the
  subscription stays to expire, and no later poll changes anything, though the subscriber
  still serves.
\<close>

theorem pool_error_ends_renewals:
  assumes "subscriber_service L D subs up svc" "times_representable P K"
    and "unat (renewal_margin svc) < 2 ^ 62" "statement subs up get (\<lambda>m _ m'. m' = m)" "steady K k0"
    and "build get D L P k0 b inc prefix g c0 = (Inr (this, svc, w0, s0), c)"
    and "(system_step accept elapsed P K get D L M F debug svc)\<^sup>*\<^sup>*
      (this, Some s0, c, w0\<lparr>task_woken := True\<rparr>) (this', Some s, c', w)"
    and "subs c' i = Some sub" "sub_expires_at sub = Some e"
    and "sleep_spec elapsed" "steady K k" "due svc e * 10 ^ 9 + K + 10 ^ 6 \<le> instant_now k"
    and "get c' = (Inl (Err pe), c1)"
  shows "\<exists>w1. renewal_task P elapsed get D L debug svc k (Some s, c', w\<lparr>task_woken := False\<rparr>) = (None, c1, w1) \<and>
    subs c1 i = Some sub \<and> spawned w1 = spawned w \<and>
    (\<forall>ks c2 w2. fold (renewal_task P elapsed get D L debug svc) ks (None, c2, w2) = (None, c2, w2))"
proof -
  let ?w1 = "w\<lparr>task_woken := False, task_registered := True\<rparr>"
  have inv: "in_time K subs svc s c' w" by (rule built_in_time [OF assms(1-7)])
  note due = in_time_due [OF inv assms(8,9)]
  have "deadline K (next_tick w) + 10 ^ 6 \<le> instant_now k" using due(3) assms(12) by linarith
  then have elapsed: "elapsed (deadline K (next_tick w)) (instant_now k)"
    by (rule sleep_spec.precise [OF assms(10)])
  have "tick get D L debug svc (as_secs (now_unix k)) (c', ?w1) = (Inl (Err (PoolError pe)), (c1, ?w1))"
    using assms(13) by (simp add: tick_def and_then_def map_err_def on_fst_def)
  then have "renewal_task P elapsed get D L debug svc k (Some s, c', w\<lparr>task_woken := False\<rparr>) = (None, c1, ?w1)"
    using subscriber_service.renewal_poll_due [OF assms(1-4,11) inv due(2), of elapsed debug, OF elapsed]
    by (simp add: renewal_task_def run_tick_def)
  moreover have "subs c1 = subs c'" using assms(4,13) by (cases rule: statementE) simp_all
  moreover have "fold (renewal_task P elapsed get D L debug svc) ks (None, c2, w2) = (None, c2, w2)" for ks c2 w2
    by (induction ks) (simp_all add: renewal_task_def)
  ultimately show ?thesis using assms(8) by (intro exI [of _ ?w1]) simp
qed

theorem pool_error_ends_renewals_witness:
  "\<exists>c w. renewal_task wide_platform exact_sleep flaky_pool
     (diesel2_connection mem_diesel counter_rng) reference_crates True mem_svc
     \<lparr>instant_now = 6401 * 10 ^ 9, system_time_now = 6401 * 10 ^ 9\<rparr>
     (Some (Some (deadline 0 6400)), mem_active\<lparr>mem_faults := [True]\<rparr>, mem_start) = (None, c, w) \<and>
   mem_table c 1 = Some mem_sub \<and> spawned w = []"
proof -
  let ?k = "\<lparr>instant_now = 6401 * 10 ^ 9, system_time_now = 6401 * 10 ^ 9\<rparr> :: clock"
  let ?c = "mem_active\<lparr>mem_faults := [True]\<rparr>"
  have row: "mem_table ?c 1 = Some mem_sub" "sub_expires_at mem_sub = Some 10000"
    by (simp_all add: mem_active_def mem_table_def mem_sub_def)
  have margin: "unat (renewal_margin mem_svc) < 2 ^ 62" and epoch: "steady 0 epoch" and k: "steady 0 ?k"
    by (simp_all add: mem_svc_def steady_def epoch_def)
  have come: "due mem_svc 10000 * 10 ^ 9 + 0 + 10 ^ 6 \<le> instant_now ?k" by (simp add: due_def mem_svc_def)
  have fails: "flaky_pool ?c = (Inl (Err (OtherError ())), mem_active)"
    by (simp add: flaky_pool_def mem_active_def)
  have asleep: "(mem_start\<lparr>task_woken := True\<rparr>)\<lparr>task_woken := False\<rparr> = mem_start"
    "spawned (mem_start\<lparr>task_woken := True\<rparr>) = []" by (simp_all add: mem_start_def)
  have run: "(system_step (\<lambda>i. (Pending :: (unit + unit) option poll, i)) exact_sleep wide_platform 0 flaky_pool
      (diesel2_connection mem_diesel counter_rng) reference_crates (buffered_mac constant_digest) all_features
      True mem_svc)\<^sup>*\<^sup>*
      (mem_acceptor, Some (Some (deadline 0 6400)), ?c, mem_start\<lparr>task_woken := True\<rparr>)
      (mem_acceptor, Some (Some (deadline 0 6400)), ?c, mem_start\<lparr>task_woken := True\<rparr>)" by simp
  from pool_error_ends_renewals [OF mem_svc.subscriber_service_axioms, OF wide_platform, OF margin,
      OF flaky_pool, OF epoch, OF flaky_build, OF run, OF row, OF exact_sleep.sleep_spec_axioms,
      OF k, OF come, OF fails]
  show ?thesis unfolding asleep by blast
qed

text \<open>
  A request that activates a subscription between the last query of a tick and the store of
  its result is lost to the scheduler: the store overwrites the earlier time the handle was
  hastened to, so the subscription is overdue before the task looks again, and being
  woken does not help, since the later time is all that is left to read.
\<close>

theorem concurrent_hasten_lost:
  assumes "subscriber_service L D subs up svc" "times_representable P K"
    and "unat (renewal_margin svc) < 2 ^ 62" "statement subs up get (\<lambda>m _ m'. m' = m)" "steady K k"
    and "in_time K subs svc s c w" "next_tick w \<noteq> u64_MAX"
    and "elapsed (deadline K (next_tick w)) (instant_now k)"
    and "tick get D L debug svc (as_secs (now_unix k)) (c, w\<lparr>task_woken := False, task_registered := True\<rparr>) =
      (Inr (Some n), (c1, w1))"
    and "verify_intent D L debug svc now j query (c1, w1) = (r, (c2, w2))"
    and "subs c2 i = Some sub" "sub_expires_at sub = Some e" "due svc e < int (unat n)"
  shows "scheduler_poll P elapsed k True
      (\<lambda>x. case tick get D L debug svc (as_secs (now_unix k)) x of
         (r, y) \<Rightarrow> (r, snd (verify_intent D L debug svc now j query y)))
      (s, c, w\<lparr>task_woken := False\<rparr>) =
      (Inr StillPending, (Some (deadline K n), c2, w2\<lparr>next_tick := n\<rparr>)) \<and>
    \<not> covered svc (subs c2) (w2\<lparr>next_tick := n\<rparr>) \<and>
    (\<forall>k'. steady K k' \<longrightarrow> \<not> elapsed (deadline K n) (instant_now k') \<longrightarrow>
       renew_subscriptions_poll P elapsed get D L debug svc k' True
         (Some (deadline K n), c2, w2\<lparr>next_tick := n, task_woken := False\<rparr>) =
       (Inr StillPending, (Some (deadline K n), c2, w2\<lparr>next_tick := n, task_woken := False, task_registered := True\<rparr>)))"
proof (intro conjI allI impI)
  let ?tick = "tick get D L debug svc (as_secs (now_unix k))" and ?w = "w\<lparr>task_woken := False\<rparr>"
  let ?racing = "\<lambda>x. case ?tick x of (r, y) \<Rightarrow> (r, snd (verify_intent D L debug svc now j query y))"
  note ticks = subscriber_service.service_ticking [OF assms(1-4)]
  have n: "unat n < 2 ^ 63" by (rule ticking.tick_time [OF ticks assms(5,9)])
  then have rep: "representable P K n" "n \<noteq> u64_MAX" using assms(2) by (auto simp: times_representable_def)
  have racing: "?racing (c, ?w\<lparr>task_registered := True\<rparr>) = (Inr (Some n), (c2, w2))"
    using assms(9,10) by simp
  have sched: "on_schedule K (s, c, w)" using assms(6) by (simp add: in_time_def)
  have "scheduler_poll P elapsed k True ?racing (s, c, ?w) =
    (if elapsed (deadline K (next_tick ?w)) (instant_now k)
     then run_tick K ?racing (deadline K (next_tick ?w)) c (?w\<lparr>task_registered := True\<rparr>)
     else (Inr StillPending, (Some (deadline K (next_tick ?w)), c, ?w\<lparr>task_registered := True\<rparr>)))"
  proof (rule scheduler_poll_due [OF assms(5)])
    show "sleep_covers K s ?w" using sched by (simp add: on_schedule_def sleep_covers_def)
    show "representable P K (next_tick ?w)"
      using sched assms(2,7) by (simp add: on_schedule_def times_representable_def)
  qed (use assms(7) racing rep in auto)
  with racing assms(8)
  show "scheduler_poll P elapsed k True ?racing (s, c, ?w) =
      (Inr StillPending, (Some (deadline K n), c2, w2\<lparr>next_tick := n\<rparr>))"
    by (simp add: run_tick_def)
  have "e \<in> expiries (subs c2)" using assms(11,12) by (auto simp: expiries_def)
  with assms(13) show "\<not> covered svc (subs c2) (w2\<lparr>next_tick := n\<rparr>)" by (fastforce simp: covered_def)
  fix k' assume k': "steady K k'" and early: "\<not> elapsed (deadline K n) (instant_now k')"
  let ?h = "w2\<lparr>next_tick := n, task_woken := False\<rparr>"
  have "scheduler_poll P elapsed k' True (tick get D L debug svc (as_secs (now_unix k'))) (Some (deadline K n), c2, ?h) =
    (if elapsed (deadline K (next_tick ?h)) (instant_now k')
     then run_tick K (tick get D L debug svc (as_secs (now_unix k'))) (deadline K (next_tick ?h)) c2 (?h\<lparr>task_registered := True\<rparr>)
     else (Inr StillPending, (Some (deadline K (next_tick ?h)), c2, ?h\<lparr>task_registered := True\<rparr>)))"
  proof (rule scheduler_poll_due [OF k'])
    show "representable P K t"
      if "tick get D L debug svc (as_secs (now_unix k')) (c2, ?h\<lparr>task_registered := True\<rparr>) =
        (Inr (Some t), (c', h'))" for c' h' t
      using ticking.tick_time [OF ticks k' that] assms(2) by (simp add: times_representable_def)
  qed (use rep in \<open>simp_all add: sleep_covers_def\<close>)
  with early show "renew_subscriptions_poll P elapsed get D L debug svc k' True (Some (deadline K n), c2, ?h) =
      (Inr StillPending, (Some (deadline K n), c2, ?h\<lparr>task_registered := True\<rparr>))"
    by (simp add: renew_subscriptions_poll_def)
qed

theorem concurrent_hasten_lost_witness:
  "\<exists>q c w. scheduler_poll wide_platform exact_sleep \<lparr>instant_now = 10 ^ 12, system_time_now = 10 ^ 12\<rparr> True
      (\<lambda>x. case tick (ret () :: (mem, unit) pool) (diesel2_connection mem_diesel counter_rng) reference_crates True
           mem_svc 1000 x of
         (r, y) \<Rightarrow> (r, snd (verify_intent (diesel2_connection mem_diesel counter_rng) reference_crates True mem_svc
           1000 3 q y)))
      (Some (deadline 0 900),
       \<lparr>mem_rows = [(1, mem_sub), (3, mem_sub\<lparr>sub_topic := ''u'', sub_expires_at := None\<rparr>)], mem_faults = []\<rparr>,
       quiet_world\<lparr>next_tick := 900\<rparr>) =
      (Inr StillPending, (Some (deadline 0 6400), c, w)) \<and>
    mem_table c 3 = Some (mem_sub\<lparr>sub_topic := ''u'', sub_expires_at := Some 5000\<rparr>) \<and> next_tick w = 6400"
proof -
  let ?c = "\<lparr>mem_rows = [(1, mem_sub), (3, mem_sub\<lparr>sub_topic := ''u'', sub_expires_at := None\<rparr>)], mem_faults = []\<rparr>"
  let ?k = "\<lparr>instant_now = 10 ^ 12, system_time_now = 10 ^ 12\<rparr> :: clock"
  let ?w = "quiet_world\<lparr>next_tick := 900\<rparr>" and ?D = "diesel2_connection mem_diesel counter_rng"
  let ?s = "mem_sub\<lparr>sub_topic := ''u'', sub_expires_at := None\<rparr>"
  have c: "mem_table ?c = [1 \<mapsto> mem_sub, 3 \<mapsto> ?s]" "mem_up ?c" by (auto simp: mem_table_def mem_up_def)
  have expiry: "expiries (mem_table ?c) = {10000}"
    unfolding c(1) by (auto simp: expiries_def mem_sub_def split: if_splits)
  have few: "2 * card (dom (mem_table ?c)) < 2 ^ 64" unfolding c(1) by simp
  have uris: "hubs_are_uris reference_crates (mem_table ?c)"
    unfolding c(1) using mem_sub_uri by (auto simp: hubs_are_uris_def split: if_splits)
  have k: "steady 0 ?k" and margin: "unat (renewal_margin mem_svc) < 2 ^ 62"
    by (simp_all add: steady_def mem_svc_def)
  have now: "as_secs (now_unix ?k) = 1000" by (simp add: as_secs_def now_unix_def)
  have same: "?w\<lparr>task_woken := False, task_registered := True\<rparr> = ?w" "?w\<lparr>task_woken := False\<rparr> = ?w"
    "?w\<lparr>task_registered := True\<rparr> = ?w"
    by (simp_all add: mem_world_def)
  have inv: "in_time 0 mem_table mem_svc (Some (deadline 0 900)) ?c ?w"
    by (simp add: in_time_def on_schedule_def sleep_covers_def covered_def expiry due_def mem_svc_def
        mem_world_def u64_MAX_def)
  have due: "next_tick ?w \<noteq> u64_MAX" "exact_sleep (deadline 0 (next_tick ?w)) (instant_now ?k)"
    by (simp_all add: u64_MAX_def exact_sleep_def deadline_def from_secs_def)
  obtain c1 w1 where run: "tick (ret () :: (mem, unit) pool) ?D reference_crates True mem_svc 1000 (?c, ?w) =
      (Inr (Some 6400), (c1, w1))" and c1: "mem_table c1 = mem_table ?c" "mem_up c1"
    by (rule mem_tick [OF c(2) expiry few uris])
  obtain q where q: "verify_of_fields (form_parse (form_of reference_crates) q) =
      Some (VerifySubscribe ''u'' ''c'' 4000)" by (rule mem_query_string)
  obtain c2 w2 where verify: "verify_intent ?D reference_crates True mem_svc 1000 3 q (c1, w1) =
      (Inr (response_new ''c''), (c2, w2))"
    and row: "mem_table c2 3 = Some (mem_sub\<lparr>sub_topic := ''u'', sub_expires_at := Some 5000\<rparr>)"
    by (rule mem_confirm [OF c1(2) _ q]) (use c1(1) c(1) in \<open>simp_all add: mem_sub_def\<close>)
  have e: "sub_expires_at (mem_sub\<lparr>sub_topic := ''u'', sub_expires_at := Some 5000\<rparr>) = Some 5000" by simp
  have late: "due mem_svc 5000 < int (unat (6400 :: u64))" by (simp add: due_def mem_svc_def)
  from concurrent_hasten_lost [where elapsed = exact_sleep, OF mem_svc.subscriber_service_axioms, OF wide_platform, OF margin,
      OF always_statement, OF k, OF inv, OF due, unfolded now same, OF run, OF verify, OF row, OF e, OF late]
  have "scheduler_poll wide_platform exact_sleep ?k True
      (\<lambda>x. case tick (ret () :: (mem, unit) pool) ?D reference_crates True mem_svc 1000 x of
         (r, y) \<Rightarrow> (r, snd (verify_intent ?D reference_crates True mem_svc 1000 3 q y)))
      (Some (deadline 0 900), ?c, ?w) =
      (Inr StillPending, (Some (deadline 0 6400), c2, w2\<lparr>next_tick := 6400\<rparr>))" by (rule conjunct1)
  with row show ?thesis by (intro exI [of _ q] exI [of _ c2] exI [of _ "w2\<lparr>next_tick := 6400\<rparr>"]) simp
qed

end
