(* ===== verification/Provenance.thy ===== *)
theory Provenance
  imports InTime
begin

text \<open>
  Whom the subscriber asks and for what: the hubs and topics of its table come from its user
  alone. Hubs, whatever they send to the callbacks, and the renewal task only ever repeat pairs
  of a hub and a topic that are in the table already, in the rows they leave as in the
  requests they spawn.
\<close>

section \<open>Hubs and topics\<close>

definition asked :: "table \<Rightarrow> (string \<times> string) set" where
  "asked m = {(sub_hub s, sub_topic s) | i s. m i = Some s}"

text \<open>A request that goes to the hub it names, about a pair of \<open>A\<close>.\<close>

definition directed ::
  "('u, 'a, 'p, 'g) crates \<Rightarrow> (string \<times> string) set \<Rightarrow> 'u response_future \<Rightarrow> bool" where
  "directed L A fut \<longleftrightarrow> (future_hub fut, future_topic fut) \<in> A \<and>
     uri_parse (uri_of L) (future_hub fut) = Some (request_uri (future_request fut))"

lemma askedI: "m i = Some s \<Longrightarrow> (sub_hub s, sub_topic s) \<in> asked m"
  by (auto simp: asked_def)

lemma asked_subsetI: "(\<And>i s. m i = Some s \<Longrightarrow> (sub_hub s, sub_topic s) \<in> A) \<Longrightarrow> asked m \<subseteq> A"
  by (auto simp: asked_def)

lemma posts_directed: "posts_form L prefix i form hub topic fut \<Longrightarrow> (hub, topic) \<in> A \<Longrightarrow> directed L A fut"
  by (auto simp: posts_form_def directed_def)

lemma directed_mono: "directed L A fut \<Longrightarrow> A \<subseteq> B \<Longrightarrow> directed L B fut"
  by (auto simp: directed_def)

lemma asked_created: "asked (created i hub topic secret m) \<subseteq> insert (hub, topic) (asked m)"
  by (rule asked_subsetI) (auto simp: created_def intro: askedI split: if_splits)

lemma asked_verified: "asked (verified i e hub topic m) \<subseteq> asked m"
  by (rule asked_subsetI)
    (auto simp: verified_def activated_def restrict_map_def dest: askedI split: if_splits)

lemma asked_insert_all: "asked (insert_all xs news m) \<subseteq> (\<lambda>(i, hub, topic). (hub, topic)) ` set xs \<union> asked m"
proof (induction xs news m rule: insert_all.induct)
  case (1 i hub topic xs j secret fut news m)
  with asked_created [of j hub topic secret m] show ?case by auto
qed auto

lemma asked_deactivated: "asked (deactivated t m) \<subseteq> asked m"
  by (rule asked_subsetI) (auto simp: deactivated_def dest: askedI split: if_splits)

lemma asked_expiring: "(i, hub, topic) \<in> expiring t m \<Longrightarrow> (hub, topic) \<in> asked m"
  by (auto simp: expiring_def intro: askedI)

lemma renewed_asked:
  assumes "renewed L prefix t m m' futs"
  shows "asked m' \<subseteq> asked m" "list_all (directed L (asked m)) futs"
proof -
  from assms obtain xs news where xs: "set xs = expiring t m" "list_all2 (asks L prefix) xs news"
    "m' = deactivated t (insert_all xs news m)" "futs = map (\<lambda>(_, _, fut). fut) news"
    unfolding renewed_def by (elim exE conjE) (rule that)
  have old: "(\<lambda>(i, hub, topic). (hub, topic)) ` set xs \<subseteq> asked m"
    using xs(1) by (auto dest: asked_expiring)
  show "asked m' \<subseteq> asked m"
    using asked_deactivated [of t "insert_all xs news m"] asked_insert_all [of xs news m] old xs(3) by blast
  have "list_all (\<lambda>(_, _, fut). directed L (asked m) fut) news"
    using xs(2) old by (induction xs news rule: list_all2_induct) (auto simp: asks_def intro: posts_directed)
  then show "list_all (directed L (asked m)) futs"
    by (simp add: xs(4) list_all_iff split_beta)
qed

section \<open>What the parts spawn\<close>

definition sends_to ::
  "('u, 'a, 'p, 'g) crates \<Rightarrow> (string \<times> string) set \<Rightarrow> ('g, 'u, 'b, 'm, 'z) world_scheme \<Rightarrow>
    ('g, 'u, 'b, 'm, 'z) world_scheme \<Rightarrow> bool" where
  "sends_to L A w w' \<longleftrightarrow> (\<exists>futs. spawned w' = spawned w @ futs \<and> list_all (directed L A) futs)"

lemma sends_nothing: "spawned w' = spawned w \<Longrightarrow> sends_to L A w w'"
  by (simp add: sends_to_def)

lemma sends_to_trans: "sends_to L A w w' \<Longrightarrow> sends_to L A w' w'' \<Longrightarrow> sends_to L A w w''"
  by (auto simp: sends_to_def)

lemma sends_to_hasten [simp]: "sends_to L A (hasten t w) w' \<longleftrightarrow> sends_to L A w w'"
  by (simp add: sends_to_def)

context subscriber_service
begin

lemma remove_loop_sends:
  assumes "(hub, topic) \<in> A"
    and "for_each old (\<lambda>j. and_then (on_fst (service_unsubscribe D L svc j hub topic)) spawn) (c, w) = (r, (c', w'))"
  shows "sends_to L A w w'"
proof -
  let ?body = "\<lambda>j. and_then (on_fst (service_unsubscribe D L svc j hub topic)) spawn"
  have body: "sends_to L A (snd s) (snd (snd (?body j s)))" for j s
  proof -
    obtain c1 w1 where s: "s = (c1, w1)" by (metis surj_pair)
    obtain r2 c2 where run: "service_unsubscribe D L svc j hub topic c1 = (r2, c2)" by (metis surj_pair)
    note res = hub_unsubscribe_result [OF callback_prepared run [unfolded service_unsubscribe_def]]
    show ?thesis
    proof (cases r2)
      case (Inr fut)
      with res have "directed L A fut" using assms(1) by (auto intro: posts_directed)
      with Inr run s show ?thesis by (simp add: sends_to_def and_then_def on_fst_def)
    qed (use run s in \<open>simp add: sends_nothing and_then_def on_fst_def\<close>)
  qed
  have "sends_to L A (snd (c, w)) (snd (snd (for_each old ?body (c, w))))"
    by (rule for_each_invariant [where R = "\<lambda>s t. sends_to L A (snd s) (snd t)"])
      (auto intro: sends_nothing sends_to_trans body)
  with assms(2) show ?thesis by simp
qed

lemma accept_body_sends:
  assumes "(hub, topic) \<in> A" "accept_body D L svc i hub topic e (c, w) = (r, (c', w'))"
  shows "sends_to L A w w'"
proof -
  obtain r1 c1 where q: "conn_get_old_subscriptions D i hub topic c = (r1, c1)" by (metis surj_pair)
  show ?thesis
  proof (cases r1)
    case (Inl f)
    with assms(2) q show ?thesis by (simp add: accept_body_def and_then_def on_fst_def sends_nothing)
  next
    case (Inr old)
    obtain r2 c2 w2 where loop: "for_each old (\<lambda>j. and_then (on_fst (service_unsubscribe D L svc j hub topic)) spawn)
        (c1, w) = (r2, (c2, w2))" by (metis prod_cases3)
    obtain r3 c3 where act: "conn_activate_subscription D i e c2 = (r3, c3)" by (metis surj_pair)
    have "w' = w2" using assms(2) q Inr loop act
      by (cases r2; cases r3) (simp_all add: accept_body_def and_then_def on_fst_def)
    with remove_loop_sends [OF assms(1) loop] show ?thesis by simp
  qed
qed

text \<open>A verification asks the hub of the row it confirms to drop that row's duplicates.\<close>

lemma verify_sends:
  assumes "verify_intent D L debug svc now i query (c, w) = (r, (c', w'))"
  shows "sends_to L (asked (subs c)) w w'"
proof (cases "verify_of_fields (form_parse (form_of L) query)")
  case None
  with assms show ?thesis by (simp add: verify_malformed sends_nothing)
next
  case (Some v)
  show ?thesis
  proof (cases v)
    case (VerifyUnsubscribe topic challenge)
    with verify_unsubscribe_cases [OF _ assms] Some show ?thesis by (auto intro: sends_nothing)
  next
    case (VerifySubscribe topic challenge lease)
    note run = assms [unfolded verify_intent_accept [OF Some [unfolded VerifySubscribe]]]
    obtain r1 t1 where q: "on_fst (conn_get_hub_of_inactive_subscription D i topic) (c, w) = (r1, t1)"
      by (metis surj_pair)
    show ?thesis
      using get_hub_of_inactive_subscription q
    proof (cases rule: statement_on_fstE)
      case (err e c1)
      with run q show ?thesis by (simp add: and_then_def sends_nothing)
    next
      case (ok found c1)
      show ?thesis
      proof (cases found)
        case None
        with run q ok(1,2) show ?thesis by (simp add: and_then_def sends_nothing)
      next
        case (Some hub)
        with ok(3) have "(hub, topic) \<in> asked (subs c)"
          by (auto intro: askedI split: option.splits if_splits)
        show ?thesis
        proof (cases "refresh_time debug svc (lease_expiry now lease) :: ('e, u64) result")
          case (Inl f)
          with run q ok(1,2) Some show ?thesis by (simp add: and_then_def sends_nothing)
        next
          case (Inr t)
          obtain r2 c2 w2 where tr: "conn_transaction D (accept_body D L svc i hub topic (lease_expiry now lease))
              (c1, hasten t w) = (r2, (c2, w2))" by (metis prod_cases3)
          have "w' = w2" using run q ok(1,2) Some Inr tr by (cases r2; simp add: and_then_def)
          moreover from transaction tr have "sends_to L (asked (subs c)) (hasten t w) w2"
            by (cases rule: transactionE)
              (use accept_body_sends [OF \<open>(hub, topic) \<in> _\<close>] in \<open>blast intro: sends_nothing\<close>)+
          ultimately show ?thesis by simp
        qed
      qed
    qed
  qed
qed

end

context subscriber_service
begin

text \<open>Neither does a request of a hub change the pairs of the table, unless it panics.\<close>

lemma verify_asked:
  assumes "verify_intent D L debug svc now i query (c, w) = (r, (c', w'))" "r \<noteq> Inl Panic" "r \<noteq> Inl Diverge"
  shows "asked (subs c') \<subseteq> asked (subs c)"
proof (cases "verify_of_fields (form_parse (form_of L) query)")
  case None
  with assms(1) show ?thesis by (simp add: verify_malformed)
next
  case (Some v)
  show ?thesis
  proof (cases v)
    case (VerifyUnsubscribe topic challenge)
    with verify_unsubscribe_cases [OF _ assms(1)] Some show ?thesis by auto
  next
    case (VerifySubscribe topic challenge lease)
    from Some [unfolded VerifySubscribe] assms(1) show ?thesis
    proof (cases rule: verify_subscribe_cases)
      case (too_early hub f)
      then show ?thesis using assms(2,3) by (auto simp: refresh_time_def u64_sub_def split: if_splits)
    qed (use assms(2) asked_verified in auto)
  qed
qed

lemma deliver_sends:
  assumes "uri_query (uri_of L) (req_uri req) = None"
    and "handle_id D L M F debug svc now i req (c, w) = (r, (c', w'))"
  shows "spawned w' = spawned w"
proof (cases "best (parsed F L (get_all (req_headers req) HUB_SIGNATURE))")
  case None
  with assms show ?thesis by (simp add: handle_id_def)
next
  case (Some sig)
  with assms show ?thesis
    by (auto simp: handle_id_def and_then_def map_err_def on_fst_def start_send_def lift_def
        split: option.splits sum.splits prod.splits fault.splits if_splits)
qed

lemma call_asked:
  assumes get: "statement subs up get (\<lambda>m _ m'. m' = m)"
    and run: "service_call get D L M F debug svc now req (c, w) = (r, (c', w'))"
    and ends: "r \<noteq> Inl Panic" "r \<noteq> Inl Diverge"
  shows "asked (subs c') \<subseteq> asked (subs c) \<and> sends_to L (asked (subs c)) w w'"
proof (cases "\<exists>i. resolves L svc req i")
  case False
  with service_call_unresolved [of L svc req get D M F debug now "(c, w)"] run
  show ?thesis by (auto intro: sends_nothing)
next
  case True
  then obtain i where "resolves L svc req i" by blast
  note run' = run [unfolded service_call_resolves [OF this]]
  from get run' show ?thesis
  proof (cases rule: with_connection)
    case (no_connection e)
    then show ?thesis by (simp add: sends_nothing)
  next
    case (connection c1)
    show ?thesis
    proof (cases "uri_query (uri_of L) (req_uri req)")
      case (Some q)
      obtain r1 c1' w1' where verify: "verify_intent D L debug svc now i q (c1, w) = (r1, (c1', w1'))"
        by (metis prod_cases3)
      with connection(3) Some ends have "r1 \<noteq> Inl Panic" "r1 \<noteq> Inl Diverge" "c1' = c'" "w1' = w'"
        by (auto simp: handle_id_def map_err_def split: sum.splits fault.splits)
      with verify_asked [OF verify] verify_sends [OF verify] connection(1) show ?thesis by simp
    next
      case None
      from deliver_handle [OF None connection(3)] deliver_sends [OF None connection(3)] connection(1)
      show ?thesis by (simp add: sends_nothing)
    qed
  qed
qed

lemma tick_asked:
  assumes "statement subs up get (\<lambda>m _ m'. m' = m)"
    and "tick get D L debug svc now (c, w) = (Inr n, (c', w'))"
  shows "asked (subs c') \<subseteq> asked (subs c) \<and> sends_to L (asked (subs c)) w w'"
  using assms
proof (cases rule: tick_steps)
  case (renewed c1 c2 e)
  from renew_subscriptions_result [OF renewed(3)] obtain g futs t where
    "w' = w\<lparr>thread_rng := g, spawned := spawned w @ futs\<rparr>"
    "renewed L (callback svc) t (subs c1) (subs c2) futs" by auto
  with renewed_asked [of L "callback svc" t "subs c1" "subs c2" futs] renewed(1,5)
  show ?thesis by (auto simp: sends_to_def)
qed (simp_all split: fault.splits)

end

section \<open>The whole subscriber\<close>

text \<open>Every pair in the table and in the requests not sent yet is one of \<open>A\<close>.\<close>

definition within ::
  "('u, 'a, 'p, 'g) crates \<Rightarrow> (string \<times> string) set \<Rightarrow> ('c \<Rightarrow> table) \<Rightarrow> 'c \<Rightarrow>
    ('g, 'u, 'b, 'm, 'z) world_scheme \<Rightarrow> bool" where
  "within L A subs c w \<longleftrightarrow> asked (subs c) \<subseteq> A \<and> list_all (directed L A) (spawned w)"

text \<open>The user subscribes to a pair of \<open>A\<close>; with any pair it is a step of the system.\<close>

definition user_asks ::
  "('c, 'e, ('g, 'u, 'b, 'm, 'z) world_scheme) connection \<Rightarrow> ('u, 'a, 'p, 'g) crates \<Rightarrow> bool \<Rightarrow> 'u service \<Rightarrow>
    (string \<times> string) set \<Rightarrow> ('i, 's) acceptor \<times> 't \<times> 'c \<times> ('g, 'u, 'b, 'm, 'z) world_scheme \<Rightarrow>
    ('i, 's) acceptor \<times> 't \<times> 'c \<times> ('g, 'u, 'b, 'm, 'z) world_scheme \<Rightarrow> bool" where
  "user_asks D L debug svc A = (\<lambda>(this, task, c, w) (this', task', c', w').
     this' = this \<and> task' = task \<and> (\<exists>hub topic r. (hub, topic) \<in> A \<and>
       service_subscribe D L debug svc hub topic (c, w) = (r, (c', w')) \<and> r \<noteq> Inl Diverge))"

lemma user_asks_mono: "user_asks D L debug svc A x y \<Longrightarrow> A \<subseteq> B \<Longrightarrow> user_asks D L debug svc B x y"
  by (auto simp: user_asks_def)

lemma within_step:
  assumes "within L A subs c w" "asked (subs c') \<subseteq> asked (subs c)" "sends_to L (asked (subs c)) w w'"
  shows "within L A subs c' w'"
  using assms by (auto simp: within_def sends_to_def list_all_iff intro: directed_mono)

lemma reads_spawned:
  assumes "subscriber_poll_next accept elapsed P debug k n (this, w) = (r, (this', w'))"
  shows "spawned w' = spawned w"
  using assms
  by (auto simp: subscriber_poll_next_def split: prod.splits sum.splits poll.splits list.splits if_splits)

context subscriber_service
begin

lemma poll_asked:
  assumes get: "statement subs up get (\<lambda>m _ m'. m' = m)"
    and "renew_subscriptions_poll P elapsed get D L debug svc k True (s, c, w) = (Inr StillPending, (s', c', w'))"
  shows "asked (subs c') \<subseteq> asked (subs c) \<and> sends_to L (asked (subs c)) w w'"
proof -
  let ?tick = "tick get D L debug svc (as_secs (now_unix k))"
  obtain r c1 w1 where tick: "?tick (c, w\<lparr>task_registered := True\<rparr>) = (r, (c1, w1))" by (metis prod_cases3)
  have ran: "asked (subs c1) \<subseteq> asked (subs c) \<and> sends_to L (asked (subs c)) w w1" if "r = Inr n" for n
    using tick_asked [OF get tick [unfolded that]] by (simp add: sends_to_def)
  show ?thesis
    using assms(2) tick ran
    by (auto simp: renew_subscriptions_poll_def scheduler_poll_def Let_def sends_to_def
        split: sum.splits option.splits if_splits)
qed

lemma own_step_within:
  assumes get: "statement subs up get (\<lambda>m _ m'. m' = m)"
    and step: "own_step accept elapsed P K get D L M F debug svc (this, task, c, w) (this', Some s', c', w')"
    and inv: "within L A subs c w"
  shows "within L A subs c' w'"
  using step
proof (cases rule: own_step.cases)
  case (renews k)
  then obtain s where "renew_subscriptions_poll P elapsed get D L debug svc k True (s, c, w\<lparr>task_woken := False\<rparr>) =
      (Inr StillPending, (s', c', w'))"
    by (auto simp: renewal_task_def split: option.splits prod.splits sum.splits polled.splits)
  from poll_asked [OF get this] have "asked (subs c') \<subseteq> asked (subs c)" "sends_to L (asked (subs c)) w w'"
    by (simp_all add: sends_to_def)
  with inv show ?thesis by (rule within_step)
next
  case (serves k req resp)
  then obtain r where "service_call get D L M F debug svc (as_secs (now_unix k)) req (c, w) = (r, (c', w'))"
    "r \<noteq> Inl Panic" "r \<noteq> Inl Diverge"
    by (auto simp: serve_def split: prod.splits sum.splits fault.splits)
  from call_asked [OF get this] have "asked (subs c') \<subseteq> asked (subs c)" "sends_to L (asked (subs c)) w w'"
    by simp_all
  with inv show ?thesis by (rule within_step)
next
  case (reads k n r)
  with inv reads_spawned [OF reads(3)] show ?thesis by (simp add: within_def)
next
  case (requests futs fut futs')
  with inv show ?thesis by (simp add: within_def)
qed

lemma subscribes_within:
  assumes "service_subscribe D L debug svc hub topic (c, w) = (r, (c', w'))" "r \<noteq> Inl Diverge"
    and "within L A subs c w" "(hub, topic) \<in> A"
  shows "within L A subs c' w'"
proof -
  have run: "hub_subscribe D L debug (callback svc) hub topic (c, w) = (r, (c', w'))"
    using assms(1) by (simp add: service_subscribe_def)
  note res = hub_subscribe_result [OF callback_prepared run]
  have "asked (subs c') \<subseteq> insert (hub, topic) (asked (subs c))"
    using res assms(2) asked_created by (fastforce split: sum.splits fault.splits)
  moreover have "spawned w' = spawned w" using res by auto
  ultimately show ?thesis using assms(3,4) by (auto simp: within_def)
qed

lemma run_within:
  assumes get: "statement subs up get (\<lambda>m _ m'. m' = m)" and inv: "within L A subs c w"
    and run: "(\<lambda>x y. own_step accept elapsed P K get D L M F debug svc x y \<or> user_asks D L debug svc A x y)\<^sup>*\<^sup>*
      (this, Some s, c, w) (this', Some s', c', w')"
  shows "within L A subs c' w'"
proof -
  let ?step = "\<lambda>x y. own_step accept elapsed P K get D L M F debug svc x y \<or> user_asks D L debug svc A x y"
  have "\<forall>this' s' c' w'. y = (this', Some s', c', w') \<longrightarrow> within L A subs c' w'"
    if "?step\<^sup>*\<^sup>* (this, Some s, c, w) y" for y
    using that
  proof (induction rule: rtranclp_induct)
    case base
    with inv show ?case by simp
  next
    case (step y z)
    obtain this1 task1 c1 w1 where y: "y = (this1, task1, c1, w1)" by (metis prod_cases4)
    show ?case
    proof (intro allI impI)
      fix this2 s2 c2 w2 assume z: "z = (this2, Some s2, c2, w2)"
      from step(2) have "task1 \<noteq> None" unfolding y z
        by (auto simp: renewal_task_def user_asks_def elim!: own_stepE split: option.splits)
      then have before: "within L A subs c1 w1" using step(3) y by blast
      from step(2) show "within L A subs c2 w2" unfolding y z
      proof
        assume "own_step accept elapsed P K get D L M F debug svc (this1, task1, c1, w1) (this2, Some s2, c2, w2)"
        from this before show ?thesis by (rule own_step_within [OF get])
      next
        assume "user_asks D L debug svc A (this1, task1, c1, w1) (this2, Some s2, c2, w2)"
        with before show ?thesis by (auto simp: user_asks_def intro: subscribes_within)
      qed
    qed
  qed
  from this [OF run] show ?thesis by simp
qed

end

lemma build_idle:
  assumes "build get D L P k b inc prefix g c0 = (Inr (this, svc, w, s), c)"
  shows "spawned w = []"
  using assms by (auto simp: build_def build_service_def and_then_Inr Let_def bind_result_Inr)

lemma system_step_iff:
  "system_step accept elapsed P K get D L M F debug svc x y \<longleftrightarrow>
     own_step accept elapsed P K get D L M F debug svc x y \<or> user_asks D L debug svc UNIV x y"
  by (auto simp: user_asks_def system_step.simps)

section \<open>Property\<close>

text \<open>
  C9: the subscriber asks nobody but the hubs it was told of. Let the user subscribe to pairs of
  a hub and a topic from \<open>A\<close> only. Then, whatever hubs and others send to the callbacks and
  however the renewal task is polled, as long as that task is not over, every request that is
  spawned goes to the hub of a pair that is in \<open>A\<close> or was in the table at the start, about
  the topic of that pair; and so does every row of the table.
\<close>

theorem only_known_hubs_asked:
  assumes "subscriber_service L D subs up svc" "statement subs up get (\<lambda>m _ m'. m' = m)"
    and "build get D L P k b inc prefix g c0 = (Inr (this, svc, w, s), c)"
    and "(\<lambda>x y. own_step accept elapsed P K get D L M F debug svc x y \<or> user_asks D L debug svc A x y)\<^sup>*\<^sup>*
      (this, Some s, c, w\<lparr>task_woken := True\<rparr>) (this', Some s', c', w')"
  shows "(\<forall>fut \<in> set (spawned w'). (future_hub fut, future_topic fut) \<in> A \<union> asked (subs c0) \<and>
      uri_parse (uri_of L) (future_hub fut) = Some (request_uri (future_request fut))) \<and>
    asked (subs c') \<subseteq> A \<union> asked (subs c0)"
proof -
  have "build_service get D L P k b prefix g c0 = (Inr (svc, w, s), c)"
    using assms(3) by (auto simp: build_def and_then_Inr)
  then have "subs c = subs c0"
    by (rule connection_ref.build_result [OF hub_client.axioms(2) [OF subscriber_service.axioms(1) [OF assms(1)]] assms(2)])
  then have "within L (A \<union> asked (subs c0)) subs c (w\<lparr>task_woken := True\<rparr>)"
    using build_idle [OF assms(3)] by (simp add: within_def)
  moreover have "(\<lambda>x y. own_step accept elapsed P K get D L M F debug svc x y \<or>
      user_asks D L debug svc (A \<union> asked (subs c0)) x y)\<^sup>*\<^sup>*
      (this, Some s, c, w\<lparr>task_woken := True\<rparr>) (this', Some s', c', w')"
    by (rule rtranclp_mono [THEN predicate2D, OF _ assms(4)]) (auto intro: user_asks_mono)
  ultimately have "within L (A \<union> asked (subs c0)) subs c' w'"
    by (rule subscriber_service.run_within [OF assms(1,2)])
  then show ?thesis by (auto simp: within_def directed_def list_all_iff)
qed

theorem only_known_hubs_asked_witness:
  "\<exists>s' c w fut. (\<lambda>x y. own_step (\<lambda>i. (Pending :: (unit + unit) option poll, i)) exact_sleep wide_platform 0
      (ret () :: (mem, unit) pool) (diesel2_connection mem_diesel counter_rng) reference_crates
      (buffered_mac constant_digest) all_features True mem_svc x y \<or>
      user_asks (diesel2_connection mem_diesel counter_rng) reference_crates True mem_svc {} x y)\<^sup>*\<^sup>*
    (mem_acceptor, Some (Some (deadline 0 6400)), mem_active, mem_start\<lparr>task_woken := True\<rparr>)
    (mem_acceptor, Some s', c, w) \<and>
   fut \<in> set (spawned w) \<and> future_hub fut = ''h'' \<and> future_topic fut = ''t''"
proof -
  let ?k = "\<lparr>instant_now = 6401 * 10 ^ 9, system_time_now = 6401 * 10 ^ 9\<rparr> :: clock"
  let ?D = "diesel2_connection mem_diesel counter_rng" and ?get = "ret () :: (mem, unit) pool"
  let ?w = "mem_start\<lparr>task_woken := True\<rparr>" and ?s = "Some (deadline 0 6400)"
  have row: "mem_table mem_active 1 = Some mem_sub" "sub_expires_at mem_sub = Some 10000"
    by (simp_all add: mem_active mem_sub_def)
  have margin: "unat (renewal_margin mem_svc) < 2 ^ 62" and epoch: "steady 0 epoch" and k: "steady 0 ?k"
    by (simp_all add: mem_svc_def steady_def epoch_def)
  have come: "due mem_svc 10000 * 10 ^ 9 + 0 + 10 ^ 6 \<le> instant_now ?k" by (simp add: due_def mem_svc_def)
  have few: "2 * card (dom (mem_table mem_active)) < 2 ^ 64" by (simp add: mem_active)
  have uris: "hubs_are_uris reference_crates (mem_table mem_active)"
    using mem_sub_uri by (simp add: hubs_are_uris_def mem_active)
  have inv: "in_time 0 mem_table mem_svc ?s mem_active ?w"
    by (rule built_in_time [OF mem_svc.subscriber_service_axioms wide_platform margin always_statement epoch mem_build
        rtranclp.rtrancl_refl])
  obtain s' c w fut where poll: "renew_subscriptions_poll wide_platform exact_sleep ?get ?D reference_crates True
      mem_svc ?k True (?s, mem_active, ?w\<lparr>task_woken := False\<rparr>) = (Inr StillPending, (s', c, w))"
    and fut: "fut \<in> set (spawned w)"
    by (rule mem_svc.due_renewed [OF wide_platform margin always_statement k exact_sleep.sleep_spec_axioms inv row
        come mem_active(2) few uris])
  let ?step = "own_step (\<lambda>i. (Pending :: (unit + unit) option poll, i)) exact_sleep wide_platform 0
      ?get ?D reference_crates (buffered_mac constant_digest) all_features True mem_svc"
  let ?run = "\<lambda>x y. ?step x y \<or> user_asks ?D reference_crates True mem_svc {} x y"
  have "?step (mem_acceptor, Some ?s, mem_active, ?w) (mem_acceptor, Some s', c, w)"
    by (rule own_step.renews [OF k]) (simp only: renewal_task_def prod.case option.case poll sum.case polled.case)
  then have run: "?run\<^sup>*\<^sup>* (mem_acceptor, Some ?s, mem_active, ?w) (mem_acceptor, Some s', c, w)" by blast
  have "asked (mem_table mem_active) = {(''h'', ''t'')}" by (simp add: mem_active asked_def mem_sub_def)
  with only_known_hubs_asked [OF mem_svc.subscriber_service_axioms always_statement mem_build run] fut
  have "future_hub fut = ''h''" "future_topic fut = ''t''" by auto
  with run fut show ?thesis by blast
qed

end
