(* ===== verification/Atomics.thy ===== *)
theory Atomics
  imports InTime
begin

text \<open>
  The renewal future and the requests of hubs on threads of their own. \<open>System\<close> interleaves whole
  calls; here \<open>Scheduler::poll\<close> (\<open>src/subscriber/scheduler.rs\<close>) and \<open>Service::verify_intent\<close>
  (\<open>src/subscriber/service.rs\<close>) are cut at every access to what the threads share: the atomic
  \<open>next_tick\<close>, the \<open>AtomicWaker\<close> and the database, of which a query or a transaction is one
  access. Whatever the interleaving no wake-up is lost, and the scheduler is in time unless
  a verification and a tick overlap; if they do, a renewal can be lost.
\<close>

section \<open>A tick in two parts\<close>

text \<open>The transaction that renews, and the query for the next expiry.\<close>

definition tick_renews ::
  "('c, 'pe) pool \<Rightarrow> ('c, 'e, ('g, 'u, 'b, 'm, 'z) world_scheme) connection \<Rightarrow> ('u, 'a, 'p, 'g) crates \<Rightarrow>
    bool \<Rightarrow> 'u service \<Rightarrow> u64 \<Rightarrow>
    ('c \<times> ('g, 'u, 'b, 'm, 'z) world_scheme, ('pe, 'e) service_error, unit) action" where
  "tick_renews get D L debug svc now =
     and_then (map_err PoolError (on_fst get)) (\<lambda>_.
     map_err ConnectionError (renew_subscriptions D L debug svc now))"

definition tick_asks ::
  "('c, 'e, ('g, 'u, 'b, 'm, 'z) world_scheme) connection \<Rightarrow> bool \<Rightarrow> 'u service \<Rightarrow>
    ('c \<times> ('g, 'u, 'b, 'm, 'z) world_scheme, ('pe, 'e) service_error, u64 option) action" where
  "tick_asks D debug svc =
     and_then (map_err ConnectionError (on_fst (conn_get_next_expiry D))) (\<lambda>expiry.
     lift (next_tick_of debug svc expiry))"

lemma and_then_assoc: "and_then (and_then m f) g = and_then m (\<lambda>a. and_then (f a) g)"
  by (auto simp: and_then_def fun_eq_iff split: prod.splits sum.splits)

lemma tick_parts:
  "tick get D L debug svc now = and_then (tick_renews get D L debug svc now) (\<lambda>_. tick_asks D debug svc)"
  unfolding tick_def tick_renews_def tick_asks_def and_then_assoc
  by (intro arg_cong [where f = "and_then _"] ext)
    (auto simp: next_tick_of_def lift_def ret_def fun_eq_iff split: option.splits)

section \<open>The threads\<close>

text \<open>
  Where a poll of the scheduler is: not running; before \<open>task.register\<close>; before the load of
  \<open>next_tick\<close>; before the sleep is polled; in the tick, before its query; before the store of
  what the tick returned.
\<close>

datatype poll_point = Idle | Registers | Loads | Sleeps | Asks | Stores "u64 option"

text \<open>
  Where the verification of a subscription is, with its id, hub, topic and expiry: before
  \<open>fetch_min\<close> of the time of its renewal, before \<open>task.wake\<close>, before the transaction.
\<close>

datatype verification =
    Lowers u64 string string i64 u64
  | Wakes u64 string string i64
  | Activates u64 string string i64

record ('c, 'w) threads =
  point :: poll_point
  timer :: "sleep option"
  base :: 'c
  shared :: 'w
  verifying :: "verification list"

text \<open>
  The accesses of the poll. \<open>polls\<close>: the executor takes the wake-up. In \<open>loads\<close> the sleep is
  created or reset to what has been loaded; in \<open>stores\<close> it is reset after the store or dropped.
\<close>

inductive poll_step ::
  "platform \<Rightarrow> (sleep \<Rightarrow> int \<Rightarrow> bool) \<Rightarrow> int \<Rightarrow> ('c, 'pe) pool \<Rightarrow>
    ('c, 'e, ('g, 'u, 'b, 'm, 'z) world_scheme) connection \<Rightarrow> ('u, 'a, 'p, 'g) crates \<Rightarrow> bool \<Rightarrow> 'u service \<Rightarrow>
    ('c, ('g, 'u, 'b, 'm, 'z) world_scheme) threads \<Rightarrow> ('c, ('g, 'u, 'b, 'm, 'z) world_scheme) threads \<Rightarrow> bool"
  for P elapsed K get D L debug svc where
  polls: "point s = Idle \<Longrightarrow> shared s = w \<Longrightarrow>
    poll_step P elapsed K get D L debug svc s (s\<lparr>point := Registers, shared := w\<lparr>task_woken := False\<rparr>\<rparr>)"
| registers: "point s = Registers \<Longrightarrow> shared s = w \<Longrightarrow>
    poll_step P elapsed K get D L debug svc s (s\<lparr>point := Loads, shared := w\<lparr>task_registered := True\<rparr>\<rparr>)"
| loads: "point s = Loads \<Longrightarrow> steady K k \<Longrightarrow> decode_next_tick P k (shared s) = (Inr next :: (unit, int option) result) \<Longrightarrow>
    timer' = (case (timer s, next) of
      (Some d, Some n) \<Rightarrow> Some (if n < d then n else d)
    | (Some d, None) \<Rightarrow> Some d | (None, next) \<Rightarrow> next) \<Longrightarrow>
    poll_step P elapsed K get D L debug svc s (s\<lparr>point := if timer' = None then Idle else Sleeps, timer := timer'\<rparr>)"
| pends: "point s = Sleeps \<Longrightarrow> steady K k \<Longrightarrow> timer s = Some d \<Longrightarrow> \<not> elapsed d (instant_now k) \<Longrightarrow>
    poll_step P elapsed K get D L debug svc s (s\<lparr>point := Idle\<rparr>)"
| renews: "point s = Sleeps \<Longrightarrow> steady K k \<Longrightarrow> timer s = Some d \<Longrightarrow> elapsed d (instant_now k) \<Longrightarrow>
    tick_renews get D L debug svc (as_secs (now_unix k)) (base s, shared s) = (Inr (), (c', w')) \<Longrightarrow>
    poll_step P elapsed K get D L debug svc s (s\<lparr>point := Asks, base := c', shared := w'\<rparr>)"
| asks: "point s = Asks \<Longrightarrow>
    tick_asks D debug svc (base s, shared s) = (Inr n :: (('pe, 'e) service_error, u64 option) result, (c', w')) \<Longrightarrow>
    poll_step P elapsed K get D L debug svc s (s\<lparr>point := Stores n, base := c', shared := w'\<rparr>)"
| stores: "point s = Stores n \<Longrightarrow> steady K k \<Longrightarrow> shared s = w \<Longrightarrow>
    (case n of None \<Rightarrow> timer' = None
     | Some t \<Rightarrow> \<exists>d. instant_from_unix P k (from_secs t) = (Inr d :: (unit, int) result) \<and> timer' = Some d) \<Longrightarrow>
    poll_step P elapsed K get D L debug svc s
      (s\<lparr>point := Idle, timer := timer', shared := w\<lparr>next_tick := handle_next_tick n\<rparr>\<rparr>)"

text \<open>
  The accesses of a verification, each of its own thread, and a new subscription of the user.
  A verification that fails is over; one that panics is left out.
\<close>

inductive verify_step ::
  "int \<Rightarrow> ('c, 'e, ('g, 'u, 'b, 'm, 'z) world_scheme) connection \<Rightarrow> ('u, 'a, 'p, 'g) crates \<Rightarrow> bool \<Rightarrow> 'u service \<Rightarrow>
    ('c, ('g, 'u, 'b, 'm, 'z) world_scheme) threads \<Rightarrow> ('c, ('g, 'u, 'b, 'm, 'z) world_scheme) threads \<Rightarrow> bool"
  for K D L debug svc where
  verifies: "steady K k \<Longrightarrow> renewal_margin svc \<le> as_secs (now_unix k) \<Longrightarrow>
    verify_of_fields (form_parse (form_of L) query) = Some (VerifySubscribe topic challenge lease) \<Longrightarrow>
    conn_get_hub_of_inactive_subscription D i topic (base s) = (Inr (Some hub), c') \<Longrightarrow>
    e = lease_expiry (as_secs (now_unix k)) lease \<Longrightarrow> refresh_time debug svc e = (Inr t :: ('e, u64) result) \<Longrightarrow>
    verify_step K D L debug svc s (s\<lparr>base := c', verifying := verifying s @ [Lowers i hub topic e t]\<rparr>)"
| lowers: "verifying s = vs @ Lowers i hub topic e t # vs' \<Longrightarrow> shared s = w \<Longrightarrow>
    v = (if t < next_tick w then Wakes i hub topic e else Activates i hub topic e) \<Longrightarrow>
    verify_step K D L debug svc s
      (s\<lparr>shared := w\<lparr>next_tick := min (next_tick w) t\<rparr>, verifying := vs @ v # vs'\<rparr>)"
| wakes: "verifying s = vs @ Wakes i hub topic e # vs' \<Longrightarrow>
    verify_step K D L debug svc s
      (s\<lparr>shared := wake (shared s), verifying := vs @ Activates i hub topic e # vs'\<rparr>)"
| activates: "verifying s = vs @ Activates i hub topic e # vs' \<Longrightarrow>
    conn_transaction D (accept_body D L svc i hub topic e) (base s, shared s) = (r, (c', w')) \<Longrightarrow>
    r \<noteq> Inl Panic \<Longrightarrow> r \<noteq> Inl Diverge \<Longrightarrow>
    verify_step K D L debug svc s (s\<lparr>base := c', shared := w', verifying := vs @ vs'\<rparr>)"
| asks_anew: "service_subscribe D L debug svc hub topic (base s, shared s) = (r, (c', w')) \<Longrightarrow> r \<noteq> Inl Diverge \<Longrightarrow>
    verify_step K D L debug svc s (s\<lparr>base := c', shared := w'\<rparr>)"

inductive threads_step ::
  "platform \<Rightarrow> (sleep \<Rightarrow> int \<Rightarrow> bool) \<Rightarrow> int \<Rightarrow> ('c, 'pe) pool \<Rightarrow>
    ('c, 'e, ('g, 'u, 'b, 'm, 'z) world_scheme) connection \<Rightarrow> ('u, 'a, 'p, 'g) crates \<Rightarrow> bool \<Rightarrow> 'u service \<Rightarrow>
    ('c, ('g, 'u, 'b, 'm, 'z) world_scheme) threads \<Rightarrow> ('c, ('g, 'u, 'b, 'm, 'z) world_scheme) threads \<Rightarrow> bool"
  for P elapsed K get D L debug svc where
  poll: "poll_step P elapsed K get D L debug svc s s' \<Longrightarrow> threads_step P elapsed K get D L debug svc s s'"
| verify: "verify_step K D L debug svc s s' \<Longrightarrow> threads_step P elapsed K get D L debug svc s s'"

section \<open>What holds in every interleaving\<close>

text \<open>The expiry of a verification that has lowered the next tick and not ended its transaction.\<close>

fun under_way :: "verification \<Rightarrow> i64 option" where
  "under_way (Lowers _ _ _ _ _) = None"
| "under_way (Wakes _ _ _ e) = Some e"
| "under_way (Activates _ _ _ e) = Some e"

fun is_waking :: "verification \<Rightarrow> bool" where
  "is_waking (Wakes _ _ _ _) = True"
| "is_waking _ = False"

text \<open>A tick between its query and its store, while a verification is under way.\<close>

definition collides :: "('c, 'w) threads \<Rightarrow> bool" where
  "collides s \<longleftrightarrow> (\<exists>n. point s = Stores n) \<and> (\<exists>v \<in> set (verifying s). under_way v \<noteq> None)"

text \<open>The times of a state: what is shown, what verifications ask for and what a tick returned.\<close>

definition shows_times :: "'u service \<Rightarrow> ('g, 'z) handle_scheme \<Rightarrow> poll_point \<Rightarrow> verification list \<Rightarrow> table \<Rightarrow> bool" where
  "shows_times svc w p vs m \<longleftrightarrow>
     (next_tick w \<noteq> u64_MAX \<longrightarrow> unat (next_tick w) < 2 ^ 63) \<and>
     (\<forall>i hub topic e t. Lowers i hub topic e t \<in> set vs \<longrightarrow> unat t < 2 ^ 63 \<and>
        int (unat t) = due svc e \<and> int (unat (renewal_margin svc)) \<le> sint e) \<and>
     (\<forall>v \<in> set vs. \<forall>e. under_way v = Some e \<longrightarrow> int (unat (renewal_margin svc)) \<le> sint e) \<and>
     (\<forall>t. p = Stores (Some t) \<longrightarrow> unat t < 2 ^ 63) \<and>
     (p = Asks \<longrightarrow> (\<forall>e \<in> expiries m. int (unat (renewal_margin svc)) \<le> sint e))"

text \<open>
  No wake-up is lost: the task is woken or registered, and unless it is woken, about to be or
  about to look, its sleep ends by the time that is shown.
\<close>

definition attentive :: "int \<Rightarrow> ('g, 'z) handle_scheme \<Rightarrow> poll_point \<Rightarrow> sleep option \<Rightarrow> verification list \<Rightarrow> bool" where
  "attentive K w p s vs \<longleftrightarrow>
     (p \<noteq> Registers \<longrightarrow> task_woken w \<or> task_registered w) \<and> (p = Sleeps \<longrightarrow> s \<noteq> None) \<and>
     (next_tick w \<noteq> u64_MAX \<and> p \<in> {Idle, Sleeps} \<longrightarrow>
        task_woken w \<or> (\<exists>v \<in> set vs. is_waking v) \<or> (\<exists>d. s = Some d \<and> d \<le> deadline K (next_tick w)))"

text \<open>The time shown, and the one about to be, is one by which nothing is due.\<close>

definition looked_after :: "'u service \<Rightarrow> ('g, 'z) handle_scheme \<Rightarrow> poll_point \<Rightarrow> verification list \<Rightarrow> table \<Rightarrow> bool" where
  "looked_after svc w p vs m \<longleftrightarrow> covered svc m w \<and>
     (\<forall>v \<in> set vs. \<forall>e. under_way v = Some e \<longrightarrow> int (unat (next_tick w)) \<le> due svc e) \<and>
     (\<forall>n. p = Stores n \<longrightarrow> covered svc m (w\<lparr>next_tick := handle_next_tick n\<rparr>))"

section \<open>What the accesses do to the table and the handle\<close>

lemma insert_all_expiries:
  "insert_all xs news m i = Some s \<Longrightarrow> m i = Some s \<or> sub_expires_at s = None"
  by (induction xs news m rule: insert_all.induct) (auto simp: created_def split: if_splits)

lemma renewed_expiries:
  fixes futs :: "'u response_future list"
  assumes "renewed L prefix t m m' futs" "e \<in> expiries m'"
  shows "e \<in> expiries m" "sint t < sint e"
proof -
  obtain i s where s: "m' i = Some s" "sub_expires_at s = Some e" using assms(2) unfolding expiries_def by blast
  obtain xs and news :: "(u64 \<times> string \<times> 'u response_future) list" where
    m': "m' = deactivated t (insert_all xs news m)" using assms(1) unfolding renewed_def
    by (elim exE conjE) (rule that)
  obtain s0 where s0: "insert_all xs news m i = Some s0"
    using s(1) unfolding m' deactivated_def by (cases "insert_all xs news m i") simp_all
  have "s = (if expires_before t s0 then s0\<lparr>sub_expires_at := None\<rparr> else s0)"
    using s(1) unfolding m' deactivated_def s0 by simp
  with s(2) have "sub_expires_at s0 = Some e" by (simp split: if_splits)
  with insert_all_expiries [OF s0] show "e \<in> expiries m" unfolding expiries_def by auto
  show "sint t < sint e"
    using renewed_no_expiring [OF assms(1) s(1)] s(2) by (simp add: expires_before_def)
qed

context subscriber_service
begin

lemma tick_renews_result:
  assumes get: "statement subs up get (\<lambda>m _ m'. m' = m)"
    and now: "unat now + unat (renewal_margin svc) + 1 < 2 ^ 63"
    and run: "tick_renews get D L debug svc now (c, w) = (Inr () :: (('pe, 'e) service_error, unit) result, (c', w'))"
  shows "same_handle w w'" "expiries (subs c') \<subseteq> expiries (subs c)"
    "e \<in> expiries (subs c') \<Longrightarrow> int (unat (renewal_margin svc)) \<le> sint e"
proof -
  obtain r1 t1 where q: "on_fst get (c, w) = (r1, t1)" by (metis surj_pair)
  have "\<exists>c1. subs c1 = subs c \<and> renew_subscriptions D L debug svc now (c1, w) = (Inr (), (c', w'))"
    using get q
  proof (cases rule: statement_on_fstE)
    case (ok a c1)
    have "tick_renews get D L debug svc now (c, w) =
        map_err ConnectionError (renew_subscriptions D L debug svc now) (c1, w)"
      using q ok(1,2) by (simp add: tick_renews_def and_then_def map_err_def)
    with run have "map_err ConnectionError (renew_subscriptions D L debug svc now) (c1, w) =
        (Inr () :: (('pe, 'e) service_error, unit) result, (c', w'))" by (simp only:)
    then have "renew_subscriptions D L debug svc now (c1, w) = (Inr (), (c', w'))" by (simp only: map_err_Inr)
    with ok(3) show ?thesis by blast
  next
    case (err e' c1)
    with run q show ?thesis by (simp add: tick_renews_def and_then_def map_err_def)
  qed
  then obtain c1 where c1: "subs c1 = subs c" "renew_subscriptions D L debug svc now (c1, w) = (Inr (), (c', w'))"
    by blast
  from renewal_threshold_exact [OF now] obtain th where
    th: "renewal_threshold debug svc now = (Inr th :: ('e, i64) result)"
      "sint th = int (unat now + unat (renewal_margin svc) + 1)" by blast
  from renew_subscriptions_result [OF c1(2)] th(1) obtain g futs where
    w': "w' = w\<lparr>thread_rng := g, spawned := spawned w @ futs\<rparr>"
    and r: "renewed L (callback svc) th (subs c) (subs c') futs" unfolding c1(1) by auto
  show "same_handle w w'" using w' by (simp add: same_handle_def)
  show "expiries (subs c') \<subseteq> expiries (subs c)" using renewed_expiries(1) [OF r] by blast
  assume "e \<in> expiries (subs c')"
  from renewed_expiries(2) [OF r this] th(2) show "int (unat (renewal_margin svc)) \<le> sint e" by linarith
qed

lemma tick_asks_result:
  assumes run: "tick_asks D debug svc (c, w) = (Inr n :: (('pe, 'e) service_error, u64 option) result, (c', w'))"
    and late: "\<And>e. e \<in> expiries (subs c) \<Longrightarrow> int (unat (renewal_margin svc)) \<le> sint e"
  shows "w' = w" "subs c' = subs c" "covered svc (subs c) (w\<lparr>next_tick := handle_next_tick n\<rparr>)"
    "n = Some t \<Longrightarrow> unat t < 2 ^ 63"
proof -
  obtain r1 t1 where q: "on_fst (conn_get_next_expiry D) (c, w) = (r1, t1)" by (metis surj_pair)
  from get_next_expiry q obtain e where e: "first_expiry (subs c) e" "w' = w" "subs c' = subs c"
    "next_tick_of debug svc e = (Inr n :: (('pe, 'e) service_error, u64 option) result)"
    by (cases rule: statement_on_fstE) (use run q in \<open>auto simp: tick_asks_def and_then_def map_err_def lift_def\<close>)
  show "w' = w" "subs c' = subs c" by (rule e)+
  have "covered svc (subs c) (w\<lparr>next_tick := handle_next_tick n\<rparr>) \<and> (\<forall>t. n = Some t \<longrightarrow> unat t < 2 ^ 63)"
  proof (cases e)
    case None
    with e(1,4) show ?thesis by (auto simp: first_expiry_def covered_def expiries_def next_tick_of_def)
  next
    case (Some e')
    with e(1) have first: "e' \<in> expiries (subs c)" "\<And>e''. e'' \<in> expiries (subs c) \<Longrightarrow> sint e' \<le> sint e''"
      by (auto simp: first_expiry_def expiries_def)
    note late = late [OF first(1)]
    have n: "n = Some (e' - renewal_margin svc)" using e(4) unfolding Some next_tick_of_late [OF late] by simp
    have t: "int (unat (e' - renewal_margin svc)) = sint e' - int (unat (renewal_margin svc))"
      by (rule refresh_time_late(2) [OF late])
    then have "covered svc (subs c) (w\<lparr>next_tick := handle_next_tick n\<rparr>)"
      using first(2) n by (fastforce simp: covered_def handle_next_tick_def due_def)
    moreover have "sint e' < int (2 ^ 63)" "0 \<le> int (unat (renewal_margin svc))" using sint_lt [of e'] by simp_all
    with t have "int (unat (e' - renewal_margin svc)) < int (2 ^ 63)" by linarith
    then have "\<forall>t. n = Some t \<longrightarrow> unat t < 2 ^ 63" unfolding n of_nat_less_iff by blast
    ultimately show ?thesis ..
  qed
  then show "covered svc (subs c) (w\<lparr>next_tick := handle_next_tick n\<rparr>)" "n = Some t \<Longrightarrow> unat t < 2 ^ 63"
    by simp_all
qed

lemma activation_result:
  assumes "conn_transaction D (accept_body D L svc i hub topic e) (c, w) = (r, (c', w'))"
    and "r \<noteq> Inl Panic" "r \<noteq> Inl Diverge"
  shows "same_handle w w'" "expiries (subs c') \<subseteq> insert e (expiries (subs c))"
proof -
  have "same_handle w w' \<and> expiries (subs c') \<subseteq> insert e (expiries (subs c))"
    using transaction assms(1)
  proof (cases rule: transactionE)
    case (committed c1 a c2)
    with accept_body_result [OF committed(3)] show ?thesis
      by (auto simp: same_handle_def dest: expiries_verified)
  next
    case (not_committed c1 a c2 e')
    with accept_body_result [OF not_committed(3)] show ?thesis by (auto simp: same_handle_def)
  next
    case (rolled_back c1 c2 e')
    with accept_body_result [OF rolled_back(3)] show ?thesis by (auto simp: same_handle_def)
  qed (use assms(2,3) in \<open>auto simp: same_handle_def\<close>)
  then show "same_handle w w'" "expiries (subs c') \<subseteq> insert e (expiries (subs c))" by simp_all
qed

lemma subscription_result:
  assumes "service_subscribe D L debug svc hub topic (c, w) = (r, (c', w'))" "r \<noteq> Inl Diverge"
  shows "same_handle w w'" "expiries (subs c') \<subseteq> expiries (subs c)"
proof -
  note res = hub_subscribe_result [OF callback_prepared assms(1) [unfolded service_subscribe_def]]
  from res show "same_handle w w'" by auto
  from res assms(2) show "expiries (subs c') \<subseteq> expiries (subs c)"
    by (auto dest: expiries_created split: sum.splits fault.splits)
qed

lemma lookup_result:
  assumes "conn_get_hub_of_inactive_subscription D i topic c = (Inr (Some hub), c')"
  shows "subs c' = subs c"
  using get_hub_of_inactive_subscription assms by (cases rule: statementE) auto

end

section \<open>Every interleaving keeps the wake-ups\<close>

definition awake :: "int \<Rightarrow> ('c \<Rightarrow> table) \<Rightarrow> 'u service \<Rightarrow> ('c, ('g, 'z) handle_scheme) threads \<Rightarrow> bool" where
  "awake K subs svc s \<longleftrightarrow>
     shows_times svc (shared s) (point s) (verifying s) (subs (base s)) \<and>
     attentive K (shared s) (point s) (timer s) (verifying s)"

definition guarded :: "('c \<Rightarrow> table) \<Rightarrow> 'u service \<Rightarrow> ('c, ('g, 'z) handle_scheme) threads \<Rightarrow> bool" where
  "guarded subs svc s \<longleftrightarrow> looked_after svc (shared s) (point s) (verifying s) (subs (base s))"

lemma same_handle_reads:
  assumes "same_handle w w'"
  shows "next_tick w' = next_tick w" "task_registered w' = task_registered w" "task_woken w' = task_woken w"
  using assms by (simp_all add: same_handle_def)

lemma wake_reads:
  "next_tick (wake w) = next_tick w" "task_registered w \<or> task_woken w \<Longrightarrow> task_woken (wake w)"
  "task_woken w \<Longrightarrow> task_woken (wake w)"
  by (auto simp: wake_def)

context subscriber_service
begin

lemma loads_awake:
  assumes P: "times_representable P K" and k: "steady K k" and inv: "awake K subs svc s" and p: "point s = Loads"
    and load: "decode_next_tick P k (shared s) = (Inr next :: (unit, int option) result)"
    and t: "t = (case (timer s, next) of
      (Some d, Some n) \<Rightarrow> Some (if n < d then n else d) | (Some d, None) \<Rightarrow> Some d | (None, next) \<Rightarrow> next)"
  shows "awake K subs svc (s\<lparr>point := if t = None then Idle else Sleeps, timer := t\<rparr>)"
proof -
  let ?w = "shared s"
  have small: "next_tick ?w \<noteq> u64_MAX \<longrightarrow> unat (next_tick ?w) < 2 ^ 63"
    using inv by (simp add: awake_def shows_times_def)
  then have "decode_next_tick P k ?w =
      (Inr (if next_tick ?w = u64_MAX then None else Some (deadline K (next_tick ?w))) :: (unit, int option) result)"
    using P by (intro decode_next_tick_steady [OF k]) (simp add: times_representable_def)
  with load have "next = (if next_tick ?w = u64_MAX then None else Some (deadline K (next_tick ?w)))" by simp
  then have "next_tick ?w \<noteq> u64_MAX \<longrightarrow> (\<exists>d. t = Some d \<and> d \<le> deadline K (next_tick ?w))"
    by (auto simp: t split: option.split)
  with inv p show ?thesis by (auto simp: awake_def shows_times_def attentive_def)
qed

lemma poll_awake:
  assumes P: "times_representable P K" and margin: "unat (renewal_margin svc) < 2 ^ 62"
    and get: "statement subs up get (\<lambda>m _ m'. m' = m)"
    and step: "poll_step P elapsed K get D L debug svc s s'" and inv: "awake K subs svc s"
  shows "awake K subs svc s'"
  using step
proof cases
  case (loads k "next" t)
  show ?thesis unfolding loads(1) by (rule loads_awake [OF P loads(3) inv loads(2,4,5)])
next
  case (renews k d c' w')
  note res = tick_renews_result [OF get steady_now [OF renews(3) margin] renews(6)]
  with inv renews(1,2) show ?thesis
    by (auto simp: awake_def shows_times_def attentive_def same_handle_reads [OF res(1)])
next
  case (asks n c' w')
  have late: "int (unat (renewal_margin svc)) \<le> sint e" if "e \<in> expiries (subs (base s))" for e
    using inv asks(2) that by (simp add: awake_def shows_times_def)
  note res = tick_asks_result [OF asks(3) late]
  with inv asks(1,2) show ?thesis by (auto simp: awake_def shows_times_def attentive_def)
next
  case (stores n k w t)
  have small: "\<forall>t. n = Some t \<longrightarrow> unat t < 2 ^ 63" using inv stores(2) by (simp add: awake_def shows_times_def)
  have "t = (case n of None \<Rightarrow> None | Some t \<Rightarrow> Some (deadline K t))"
  proof (cases n)
    case (Some t')
    with small P have "instant_from_unix P k (from_secs t') = (Inr (deadline K t') :: (unit, int) result)"
      by (intro instant_from_unix_steady [OF stores(3)]) (simp add: times_representable_def)
    with stores(5) Some show ?thesis by auto
  qed (use stores(5) in simp)
  with inv small stores(1,2,4) show ?thesis
    by (auto simp: awake_def shows_times_def attentive_def handle_next_tick_def split: option.splits)
qed (use inv in \<open>auto simp: awake_def shows_times_def attentive_def\<close>)

lemma verify_awake:
  assumes margin: "unat (renewal_margin svc) < 2 ^ 62"
    and step: "verify_step K D L debug svc s s'" and inv: "awake K subs svc s"
  shows "awake K subs svc s'"
  using step
proof cases
  case (verifies k query topic challenge lease i hub c' e t)
  have "int (unat t) = due svc e" "unat t < 2 ^ 63" "int (unat (renewal_margin svc)) \<le> sint e"
    using refresh_due [OF verifies(3) margin verifies(7) [unfolded verifies(6)]] lease_late [OF verifies(3) margin]
    unfolding verifies(6) by simp_all
  with inv lookup_result [OF verifies(5)] verifies(1) show ?thesis
    by (auto simp: awake_def shows_times_def attentive_def)
next
  case (lowers vs i hub topic e t vs' w v)
  show ?thesis
  proof (cases "t < next_tick w")
    case True
    with inv lowers show ?thesis by (auto simp: awake_def shows_times_def attentive_def min_def)
  next
    case False
    then have "min (next_tick w) t = next_tick w" by simp
    with inv lowers False show ?thesis by (auto simp: awake_def shows_times_def attentive_def)
  qed
next
  case (wakes vs i hub topic e vs')
  with inv show ?thesis
    by (auto simp: awake_def shows_times_def attentive_def wake_def)
next
  case (activates vs i hub topic e vs' r c' w')
  note res = activation_result [OF activates(3-5)]
  from activates(1,2) inv res(2) show ?thesis
    by (auto simp: awake_def shows_times_def attentive_def same_handle_reads [OF res(1)])
next
  case (asks_anew hub topic r c' w')
  note res = subscription_result [OF asks_anew(2,3)]
  with inv asks_anew(1) show ?thesis
    by (auto simp: awake_def shows_times_def attentive_def same_handle_reads [OF res(1)])
qed

end

section \<open>Interleavings in which a tick and a verification do not overlap\<close>

context subscriber_service
begin

lemma poll_guarded:
  assumes margin: "unat (renewal_margin svc) < 2 ^ 62"
    and get: "statement subs up get (\<lambda>m _ m'. m' = m)"
    and step: "poll_step P elapsed K get D L debug svc s s'" and inv: "awake K subs svc s" "guarded subs svc s"
    and apart: "\<not> collides s"
  shows "guarded subs svc s'"
  using step
proof cases
  case (renews k d c' w')
  note res = tick_renews_result [OF get steady_now [OF renews(3) margin] renews(6)]
  with inv(2) renews(1,2) show ?thesis
    by (auto simp: guarded_def looked_after_def covered_def same_handle_reads [OF res(1)])
next
  case (asks n c' w')
  have late: "int (unat (renewal_margin svc)) \<le> sint e" if "e \<in> expiries (subs (base s))" for e
    using inv(1) asks(2) that by (simp add: awake_def shows_times_def)
  note res = tick_asks_result [OF asks(3) late]
  with inv(2) asks(1,2) show ?thesis by (auto simp: guarded_def looked_after_def)
next
  case (stores n k w t)
  with apart have "under_way v = None" if "v \<in> set (verifying s)" for v using that by (auto simp: collides_def)
  with inv(2) stores(1,2,4) show ?thesis by (auto simp: guarded_def looked_after_def)
qed (use inv(2) in \<open>auto simp: guarded_def looked_after_def covered_def\<close>)

lemma verify_guarded:
  assumes step: "verify_step K D L debug svc s s'" and inv: "awake K subs svc s" "guarded subs svc s"
    and apart: "\<not> collides s"
  shows "guarded subs svc s'"
  using step
proof cases
  case (verifies k query topic challenge lease i hub c' e t)
  with inv(2) lookup_result [OF verifies(5)] show ?thesis by (auto simp: guarded_def looked_after_def)
next
  case (lowers vs i hub topic e t vs' w v)
  let ?m = "min (next_tick w) t"
  have "?m \<le> next_tick w" "?m \<le> t" by simp_all
  then have le: "int (unat ?m) \<le> int (unat (next_tick w))" "int (unat ?m) \<le> int (unat t)"
    unfolding of_nat_le_iff word_le_nat_alt .
  have "int (unat t) = due svc e"
    using inv(1) lowers(2) by (simp add: awake_def shows_times_def)
  with inv(2) lowers le show ?thesis
    by (fastforce simp: guarded_def looked_after_def covered_def simp del: min_less_iff_conj split: if_splits)
next
  case (wakes vs i hub topic e vs')
  with inv(2) show ?thesis by (auto simp: guarded_def looked_after_def covered_def wake_reads)
next
  case (activates vs i hub topic e vs' r c' w')
  note res = activation_result [OF activates(3-5)]
  from activates(2) apart have "point s \<noteq> Stores n" for n by (auto simp: collides_def)
  moreover have "int (unat (next_tick (shared s))) \<le> due svc e"
    using inv(2) activates(2) by (simp add: guarded_def looked_after_def)
  ultimately show ?thesis
    using activates(1,2) inv(2) res(2)
    by (auto simp: guarded_def looked_after_def covered_def same_handle_reads [OF res(1)])
next
  case (asks_anew hub topic r c' w')
  note res = subscription_result [OF asks_anew(2,3)]
  with inv(2) asks_anew(1) show ?thesis
    by (auto simp: guarded_def looked_after_def covered_def same_handle_reads [OF res(1)])
qed

lemma run_awake:
  assumes "times_representable P K" "unat (renewal_margin svc) < 2 ^ 62"
    and "statement subs up get (\<lambda>m _ m'. m' = m)"
    and "(threads_step P elapsed K get D L debug svc)\<^sup>*\<^sup>* s s'" "awake K subs svc s"
  shows "awake K subs svc s'"
  using assms(4,5)
  by (induction rule: rtranclp_induct)
    (auto elim!: threads_step.cases intro: poll_awake [OF assms(1-3)] verify_awake [OF assms(2)])

lemma run_guarded:
  assumes "times_representable P K" "unat (renewal_margin svc) < 2 ^ 62"
    and "statement subs up get (\<lambda>m _ m'. m' = m)"
    and "(\<lambda>s s'. threads_step P elapsed K get D L debug svc s s' \<and> \<not> collides s')\<^sup>*\<^sup>* s s'"
    and "awake K subs svc s" "guarded subs svc s" "\<not> collides s"
  shows "awake K subs svc s' \<and> guarded subs svc s' \<and> \<not> collides s'"
  using assms(4-7)
proof (induction rule: rtranclp_induct)
  case (step s1 s2)
  then have inv: "awake K subs svc s1" "guarded subs svc s1" "\<not> collides s1"
    and next_step: "threads_step P elapsed K get D L debug svc s1 s2" "\<not> collides s2" by blast+
  from next_step(1) show ?case
  proof cases
    case poll
    with inv next_step(2) show ?thesis
      by (blast intro: poll_awake [OF assms(1-3)] poll_guarded [OF assms(2,3)])
  next
    case verify
    with inv next_step(2) show ?thesis by (blast intro: verify_awake [OF assms(2)] verify_guarded)
  qed
qed simp

end

text \<open>The threads before the first poll.\<close>

definition at_rest :: "sleep option \<Rightarrow> 'c \<Rightarrow> 'w \<Rightarrow> ('c, 'w) threads" where
  "at_rest s c w = \<lparr>point = Idle, timer = s, base = c, shared = w, verifying = []\<rparr>"

lemma in_time_at_rest:
  assumes "in_time K subs svc s c w"
  shows "awake K subs svc (at_rest s c w)" "guarded subs svc (at_rest s c w)" "\<not> collides (at_rest s c w)"
  using assms
  by (auto simp: in_time_def on_schedule_def awake_def shows_times_def attentive_def guarded_def
      looked_after_def collides_def at_rest_def)

section \<open>A verification that overlaps with a tick\<close>

context subscriber_service
begin

lemma tick_renews_nothing:
  assumes get: "statement subs up get (\<lambda>m _ m'. m' = m)"
    and up: "up c" "unat now + unat (renewal_margin svc) + 1 < 2 ^ 63"
      "2 * card (dom (subs c)) < 2 ^ 64" "hubs_are_uris L (subs c)"
    and later: "\<And>e. e \<in> expiries (subs c) \<Longrightarrow> int (unat now + unat (renewal_margin svc) + 1) < sint e"
  obtains c' w' where "tick_renews get D L debug svc now (c, w) = (Inr () :: (('pe, 'e) service_error, unit) result, (c', w'))"
    "subs c' = subs c" "up c'"
proof -
  obtain r1 t1 where q: "on_fst get (c, w) = (r1, t1)" by (metis surj_pair)
  obtain c1 where c1: "r1 = Inr ()" "t1 = (c1, w)" "subs c1 = subs c" "up c1"
    using get q by (cases rule: statement_on_fstE) (use up(1) in auto)
  obtain th c2 g futs where th: "sint th = int (unat now + unat (renewal_margin svc) + 1)"
    and run: "renew_subscriptions D L debug svc now (c1, w) =
      (Inr (), (c2, w\<lparr>thread_rng := g, spawned := spawned w @ futs\<rparr>))"
    and r: "renewed L (callback svc) th (subs c) (subs c2) futs" and up2: "up c2"
    using renewal_total [where debug = debug and w = w, OF c1(4) up(2), unfolded c1(3), OF up(3,4)] .
  have "expiring th (subs c) = {}"
    using later unfolding expiring_def expires_before_def expiries_def
    by (fastforce simp: th split: option.splits)
  then have "subs c2 = subs c \<and> futs = []" by (rule renewed_none [OF _ r])
  moreover have "tick_renews get D L debug svc now (c, w) =
      (Inr () :: (('pe, 'e) service_error, unit) result, (c2, w\<lparr>thread_rng := g, spawned := spawned w @ futs\<rparr>))"
    using q c1(1,2) run by (simp add: tick_renews_def and_then_def map_err_def)
  ultimately show thesis using up2 by (intro that) simp_all
qed

lemma tick_asks_later:
  assumes up: "up c"
    and later: "\<And>e'. e' \<in> expiries (subs c) \<Longrightarrow> int (unat (renewal_margin svc)) \<le> sint e' \<and> sint e < sint e'"
      "int (unat (renewal_margin svc)) \<le> sint e"
  obtains n c' where "tick_asks D debug svc (c, w) = (Inr n :: (('pe, 'e) service_error, u64 option) result, (c', w))"
    "subs c' = subs c" "up c'" "due svc e < int (unat (handle_next_tick n))"
    "\<forall>t. n = Some t \<longrightarrow> unat t < 2 ^ 63"
proof -
  obtain r1 t1 where q: "on_fst (conn_get_next_expiry D) (c, w) = (r1, t1)" by (metis surj_pair)
  obtain e0 c' where e0: "r1 = Inr e0" "t1 = (c', w)" "first_expiry (subs c) e0" "subs c' = subs c" "up c'"
    using get_next_expiry q by (cases rule: statement_on_fstE) (use up in auto)
  obtain n where n: "next_tick_of debug svc e0 = (Inr n :: (('pe, 'e) service_error, u64 option) result)"
    and late: "due svc e < int (unat (handle_next_tick n))"
  proof (cases e0)
    case None
    have "sint e < int (2 ^ 63)" using sint_lt [of e] by simp
    moreover have "int (2 ^ 63) < int (unat u64_MAX)" by simp
    moreover have "due svc e = sint e - int (unat (renewal_margin svc))" using later(2) by (simp add: due_def)
    ultimately have "due svc e < int (unat u64_MAX)" by linarith
    with that [of None] None show thesis by (simp add: next_tick_of_def handle_next_tick_def)
  next
    case (Some e')
    with e0(3) have e': "int (unat (renewal_margin svc)) \<le> sint e'" "sint e < sint e'"
      using later(1) by (auto simp: first_expiry_def expiries_def)
    have "due svc e < int (unat (e' - renewal_margin svc))"
      using later(2) e'(2) by (simp only: refresh_time_late(2) [OF e'(1)] due_def)
    then have "due svc e < int (unat (handle_next_tick (Some (e' - renewal_margin svc))))"
      by (simp add: handle_next_tick_def)
    then show thesis
      by (rule that [rotated]) (simp only: Some next_tick_of_late [OF e'(1)])
  qed
  have run: "tick_asks D debug svc (c, w) = (Inr n :: (('pe, 'e) service_error, u64 option) result, (c', w))"
    using q e0(1,2) n by (simp add: tick_asks_def and_then_def map_err_def lift_def)
  have "\<And>e'. e' \<in> expiries (subs c) \<Longrightarrow> int (unat (renewal_margin svc)) \<le> sint e'" using later(1) by blast
  then have "\<forall>t. n = Some t \<longrightarrow> unat t < 2 ^ 63" using tick_asks_result(4) [OF run] by blast
  with run e0(4,5) late show thesis by (intro that)
qed

lemma activation_total:
  assumes "up c" "uri_parse (uri_of L) hub \<noteq> None"
  obtains c' w' where "conn_transaction D (accept_body D L svc i hub topic e) (c, w) = (Inr (), (c', w'))"
    "subs c' = verified i e hub topic (subs c)" "same_handle w w'"
proof -
  obtain r c' w' where run: "conn_transaction D (accept_body D L svc i hub topic e) (c, w) = (r, (c', w'))"
    by (metis prod_cases3)
  show thesis
    using transaction run
  proof (cases rule: transactionE)
    case (committed c1 a c2)
    with accept_body_result [OF committed(3)] run show thesis by (intro that [of c' w']) (auto simp: same_handle_def)
  next
    case (not_committed c1 a c2 e')
    with accept_body_result [OF not_committed(3)] assms(1) show thesis by auto
  next
    case (rolled_back c1 c2 e')
    with accept_body_result [OF rolled_back(3)] assms(1) show thesis by auto
  next
    case (no_return c1 c2)
    with accept_body_result [OF no_return(3)] assms(2) show thesis by auto
  qed (use assms(1) in simp)
qed

end

text \<open>Accesses that follow each other.\<close>

lemma poll_run: "poll_step P elapsed K get D L debug svc s s' \<Longrightarrow> (threads_step P elapsed K get D L debug svc)\<^sup>*\<^sup>* s s'"
  by (intro r_into_rtranclp threads_step.poll)

lemma verify_run: "verify_step K D L debug svc s s' \<Longrightarrow> (threads_step P elapsed K get D L debug svc)\<^sup>*\<^sup>* s s'"
  by (intro r_into_rtranclp threads_step.verify)

lemma hasten_run:
  assumes "verifying s = vs @ Lowers i hub topic e t # vs'"
  shows "(threads_step P elapsed K get D L debug svc)\<^sup>*\<^sup>* s
    (s\<lparr>shared := hasten t (shared s), verifying := vs @ Activates i hub topic e # vs'\<rparr>)"
proof (cases "t < next_tick (shared s)")
  case True
  let ?s = "s\<lparr>shared := (shared s)\<lparr>next_tick := min (next_tick (shared s)) t\<rparr>, verifying := vs @ Wakes i hub topic e # vs'\<rparr>"
  have "verify_step K D L debug svc s ?s" using lowers [OF assms refl refl] True by simp
  moreover have "verify_step K D L debug svc ?s
      (?s\<lparr>shared := wake (shared ?s), verifying := vs @ Activates i hub topic e # vs'\<rparr>)"
    by (rule wakes) simp
  moreover have "?s\<lparr>shared := wake (shared ?s), verifying := vs @ Activates i hub topic e # vs'\<rparr> =
      s\<lparr>shared := hasten t (shared s), verifying := vs @ Activates i hub topic e # vs'\<rparr>"
    using True by (simp add: hasten_def Let_def)
  ultimately show ?thesis
    by (metis (no_types) verify_run rtranclp_trans)
next
  case False
  have "verify_step K D L debug svc s
      (s\<lparr>shared := hasten t (shared s), verifying := vs @ Activates i hub topic e # vs'\<rparr>)"
    using lowers [OF assms refl refl] False by (simp add: hasten_def Let_def)
  then show ?thesis by (rule verify_run)
qed

lemma look_run:
  assumes P: "times_representable P K" and k: "steady K k" and p: "point s = Idle"
    and small: "next_tick (shared s) \<noteq> u64_MAX \<longrightarrow> unat (next_tick (shared s)) < 2 ^ 63"
    and d: "d = (case (timer s, if next_tick (shared s) = u64_MAX then None else Some (deadline K (next_tick (shared s)))) of
      (Some d, Some n) \<Rightarrow> Some (if n < d then n else d) | (Some d, None) \<Rightarrow> Some d | (None, next) \<Rightarrow> next)"
  shows "(threads_step P elapsed K get D L debug svc)\<^sup>*\<^sup>* s
    (s\<lparr>point := if d = None then Idle else Sleeps, timer := d,
       shared := (shared s)\<lparr>task_woken := False, task_registered := True\<rparr>\<rparr>)"
proof -
  let ?w1 = "(shared s)\<lparr>task_woken := False\<rparr>" and ?w2 = "(shared s)\<lparr>task_woken := False, task_registered := True\<rparr>"
  let ?s1 = "s\<lparr>point := Registers, shared := ?w1\<rparr>" and ?s2 = "s\<lparr>point := Loads, shared := ?w2\<rparr>"
  let ?next = "if next_tick (shared s) = u64_MAX then None else Some (deadline K (next_tick (shared s)))"
  have "decode_next_tick P k ?w2 =
      (Inr (if next_tick ?w2 = u64_MAX then None else Some (deadline K (next_tick ?w2))) :: (unit, int option) result)"
    by (rule decode_next_tick_steady [OF k]) (use P small in \<open>simp add: times_representable_def\<close>)
  then have "decode_next_tick P k ?w2 = (Inr ?next :: (unit, int option) result)" by simp
  then have "poll_step P elapsed K get D L debug svc ?s2
      (?s2\<lparr>point := if d = None then Idle else Sleeps, timer := d\<rparr>)"
    using loads [OF _ k, of ?s2 P ?next d elapsed get D L debug svc] d by simp
  moreover have "poll_step P elapsed K get D L debug svc s ?s1" by (rule polls [OF p refl])
  moreover have "poll_step P elapsed K get D L debug svc ?s1 ?s2"
    using registers [of ?s1 ?w1 P elapsed K get D L debug svc] by simp
  moreover have "?s2\<lparr>point := if d = None then Idle else Sleeps, timer := d\<rparr> =
      s\<lparr>point := if d = None then Idle else Sleeps, timer := d, shared := ?w2\<rparr>" by simp
  ultimately show ?thesis by (metis (no_types) poll_run rtranclp_trans)
qed

text \<open>
  The schedule that loses a renewal: the handle is hastened, a tick that is due runs from its
  start to its end, and only then the subscription is activated.
\<close>

context subscriber_service
begin

lemma overlap_loses:
  assumes P: "times_representable P K" and margin: "unat (renewal_margin svc) < 2 ^ 62"
    and get: "statement subs up get (\<lambda>m _ m'. m' = m)" and k: "steady K k" and sleeps: "sleep_spec elapsed"
    and inv: "in_time K subs svc s c w" and shown: "next_tick w \<noteq> u64_MAX"
    and come: "deadline K (next_tick w) + 10 ^ 6 \<le> instant_now k"
    and up: "up c" "2 * card (dom (subs c)) < 2 ^ 64" "hubs_are_uris L (subs c)"
    and query: "verify_of_fields (form_parse (form_of L) query) = Some (VerifySubscribe topic challenge lease)"
    and pend: "pending i topic (subs c) = Some hub" and now: "renewal_margin svc \<le> as_secs (now_unix k)"
    and later: "\<And>e. e \<in> expiries (subs c) \<Longrightarrow>
      int (unat (as_secs (now_unix k)) + unat (renewal_margin svc) + 1) < sint e \<and>
      sint (lease_expiry (as_secs (now_unix k)) lease) < sint e"
  obtains s' where "(threads_step P elapsed K get D L debug svc)\<^sup>*\<^sup>* (at_rest s c w) s'"
    "point s' = Idle" "verifying s' = []" "\<not> task_woken (shared s')"
    "subs (base s') = verified i (lease_expiry (as_secs (now_unix k)) lease) hub topic (subs c)"
    "due svc (lease_expiry (as_secs (now_unix k)) lease) < int (unat (next_tick (shared s')))"
    "timer s' = (if next_tick (shared s') = u64_MAX then None else Some (deadline K (next_tick (shared s'))))"
proof -
  let ?now = "as_secs (now_unix k)" and ?m = "unat (renewal_margin svc)"
  let ?e = "lease_expiry ?now lease" and ?step = "threads_step P elapsed K get D L debug svc"
  have le: "int ?m \<le> sint ?e" by (rule lease_late [OF now margin])
  define t where "t = ?e - renewal_margin svc"
  have t: "refresh_time debug svc ?e = (Inr t :: ('e, u64) result)"
    unfolding t_def by (rule refresh_time_late(1) [OF le])
  obtain c1 where look: "conn_get_hub_of_inactive_subscription D i topic c = (Inr (Some hub), c1)"
    and c1: "subs c1 = subs c" "up c1"
  proof -
    obtain r1 c1 where q: "conn_get_hub_of_inactive_subscription D i topic c = (r1, c1)" by (metis surj_pair)
    show thesis using get_hub_of_inactive_subscription q
    proof (cases rule: statementE)
      case (ok found)
      then have "found = pending i topic (subs c)" "subs c1 = subs c" "up c1"
        using up(1) by (simp_all add: pending_def split: option.splits)
      with q ok(1) pend show thesis by (intro that [of c1]) simp_all
    qed (use up(1) in simp)
  qed
  let ?s0 = "at_rest s c w"
  let ?s1 = "?s0\<lparr>base := c1, verifying := [Lowers i hub topic ?e t]\<rparr>"
  have run1: "?step\<^sup>*\<^sup>* ?s0 ?s1"
    using verifies [where s = ?s0 and c' = c1, OF k now query _ refl t] look
    by (intro verify_run) (simp add: at_rest_def)
  let ?w2 = "hasten t w"
  let ?s2 = "?s1\<lparr>shared := ?w2, verifying := [Activates i hub topic ?e]\<rparr>"
  have run2: "?step\<^sup>*\<^sup>* ?s1 ?s2"
    using hasten_run [of ?s1 "[]" i hub topic ?e t "[]" P elapsed K get D L debug svc] by (simp add: at_rest_def)
  have sched: "on_schedule K (s, c, w)" using inv by (simp add: in_time_def)
  have tick2: "next_tick ?w2 \<le> next_tick w" by (simp add: next_tick_hasten)
  with sched shown have small: "unat (next_tick ?w2) < 2 ^ 63" by (simp add: on_schedule_def word_le_nat_alt)
  then have shown2: "next_tick ?w2 \<noteq> u64_MAX" by auto
  obtain d where d: "Some d = (case (s, Some (deadline K (next_tick ?w2))) of
      (Some d, Some n) \<Rightarrow> Some (if n < d then n else d) | (Some d, None) \<Rightarrow> Some d | (None, next) \<Rightarrow> next)"
    and d_le: "d \<le> deadline K (next_tick ?w2)"
    by (cases s) (auto split: if_splits)
  let ?w3 = "?w2\<lparr>task_woken := False, task_registered := True\<rparr>"
  let ?s3 = "?s2\<lparr>point := Sleeps, timer := Some d, shared := ?w3\<rparr>"
  have "?step\<^sup>*\<^sup>* ?s2 (?s2\<lparr>point := if Some d = None then Idle else Sleeps, timer := Some d,
      shared := (shared ?s2)\<lparr>task_woken := False, task_registered := True\<rparr>\<rparr>)"
    by (rule look_run [OF P k]) (use small shown2 d in \<open>simp_all add: at_rest_def\<close>)
  then have run3: "?step\<^sup>*\<^sup>* ?s2 ?s3" by simp
  have "deadline K (next_tick ?w2) \<le> deadline K (next_tick w)" by (rule deadline_mono [OF tick2])
  with d_le come have elapsed: "elapsed d (instant_now k)" by (intro sleep_spec.precise [OF sleeps]) linarith
  note steady_now = steady_now [OF k margin]
  obtain c4 w4 where renew: "tick_renews get D L debug svc ?now (c1, ?w3) =
      (Inr () :: (('d, 'e) service_error, unit) result, (c4, w4))" and c4: "subs c4 = subs c" "up c4"
    by (rule tick_renews_nothing [OF get c1(2) steady_now, where w = ?w3 and debug = debug, unfolded c1(1), OF up(2,3)])
      (use later in blast)+
  note handle4 = tick_renews_result(1) [OF get steady_now renew]
  let ?s4 = "?s3\<lparr>point := Asks, base := c4, shared := w4\<rparr>"
  have run4: "?step\<^sup>*\<^sup>* ?s3 ?s4"
    by (rule poll_run, rule renews [where k = k and d = d]) (use renew k elapsed in \<open>simp_all add: at_rest_def\<close>)
  have later4: "int ?m \<le> sint e' \<and> sint ?e < sint e'" if "e' \<in> expiries (subs c4)" for e'
    using later [of e'] that unfolding c4(1) by linarith
  obtain n c5 where ask: "tick_asks D debug svc (c4, w4) =
      (Inr n :: (('d, 'e) service_error, u64 option) result, (c5, w4))"
    and c5: "subs c5 = subs c4" "up c5" and late: "due svc ?e < int (unat (handle_next_tick n))"
    and n: "\<forall>t. n = Some t \<longrightarrow> unat t < 2 ^ 63"
    by (rule tick_asks_later [where w = w4 and debug = debug, OF c4(2) later4 le])
  let ?s5 = "?s4\<lparr>point := Stores n, base := c5, shared := w4\<rparr>"
  have run5: "?step\<^sup>*\<^sup>* ?s4 ?s5"
    by (rule poll_run, rule asks) (use ask in simp_all)
  let ?d = "map_option (deadline K) n"
  let ?s6 = "?s5\<lparr>point := Idle, timer := ?d, shared := w4\<lparr>next_tick := handle_next_tick n\<rparr>\<rparr>"
  have "case n of None \<Rightarrow> ?d = None
     | Some t \<Rightarrow> \<exists>d. instant_from_unix P k (from_secs t) = (Inr d :: (unit, int) result) \<and> ?d = Some d"
    using instant_from_unix_steady [OF k] n P by (auto simp: times_representable_def split: option.split)
  then have run6: "?step\<^sup>*\<^sup>* ?s5 ?s6" by (intro poll_run, intro stores [where k = k]) (use k in simp_all)
  have uri: "uri_parse (uri_of L) hub \<noteq> None"
    using pend up(3) by (auto simp: pending_Some hubs_are_uris_def)
  let ?w6 = "w4\<lparr>next_tick := handle_next_tick n\<rparr>"
  obtain c7 w7 where act: "conn_transaction D (accept_body D L svc i hub topic ?e) (c5, ?w6) = (Inr (), (c7, w7))"
    and c7: "subs c7 = verified i ?e hub topic (subs c5)" and handle7: "same_handle ?w6 w7"
    by (rule activation_total [OF c5(2) uri])
  let ?s7 = "?s6\<lparr>base := c7, shared := w7, verifying := []\<rparr>"
  have run7: "?step\<^sup>*\<^sup>* ?s6 ?s7"
    using activates [of ?s6 "[]" i hub topic ?e "[]" D L svc "Inr ()" c7 w7 K debug] act
    by (intro verify_run) (simp add: at_rest_def)
  have w7: "next_tick w7 = handle_next_tick n" "task_woken w7 = False"
    using handle4 handle7 by (simp_all add: same_handle_def)
  have "?d = (if handle_next_tick n = u64_MAX then None else Some (deadline K (handle_next_tick n)))"
    using n by (auto simp: handle_next_tick_def split: option.split)
  moreover have "?step\<^sup>*\<^sup>* ?s0 ?s7"
    by (rule rtranclp_trans [OF run1 rtranclp_trans [OF run2 rtranclp_trans [OF run3 rtranclp_trans [OF run4
          rtranclp_trans [OF run5 rtranclp_trans [OF run6 run7]]]]]])
  ultimately show thesis using w7 late c7 unfolding c5(1) c4(1) by (intro that [of ?s7]) simp_all
qed

end

section \<open>The calls of the system as runs of accesses\<close>

context subscriber_service
begin

lemma poll_accesses:
  assumes P: "times_representable P K" and margin: "unat (renewal_margin svc) < 2 ^ 62"
    and get: "statement subs up get (\<lambda>m _ m'. m' = m)" and k: "steady K k"
    and sched: "on_schedule K (s, c, w)"
    and run: "renew_subscriptions_poll P elapsed get D L debug svc k True (s, c, w\<lparr>task_woken := False\<rparr>) =
      (Inr StillPending, (s', c', w'))"
  shows "(threads_step P elapsed K get D L debug svc)\<^sup>*\<^sup>* (at_rest s c w) (at_rest s' c' w')"
proof -
  let ?step = "threads_step P elapsed K get D L debug svc" and ?s0 = "at_rest s c w"
  let ?w = "w\<lparr>task_woken := False, task_registered := True\<rparr>" and ?now = "as_secs (now_unix k)"
  have small: "next_tick (shared ?s0) \<noteq> u64_MAX \<longrightarrow> unat (next_tick (shared ?s0)) < 2 ^ 63"
    using sched by (simp add: on_schedule_def at_rest_def)
  note run = run [unfolded renew_subscriptions_poll_def]
  show ?thesis
  proof (cases "next_tick w = u64_MAX")
    case True
    with sched have "s = None" by (simp add: on_schedule_def)
    with run scheduler_poll_idle [OF k, of "w\<lparr>task_woken := False\<rparr>" P elapsed "tick get D L debug svc ?now" c] True
    have end_state: "s' = None" "c' = c" "w' = ?w" by auto
    have "?step\<^sup>*\<^sup>* ?s0 (?s0\<lparr>point := if (None :: sleep option) = None then Idle else Sleeps, timer := None,
        shared := (shared ?s0)\<lparr>task_woken := False, task_registered := True\<rparr>\<rparr>)"
      by (rule look_run [OF P k _ small]) (use True \<open>s = None\<close> in \<open>simp_all add: at_rest_def\<close>)
    with end_state show ?thesis by (simp add: at_rest_def)
  next
    case False
    let ?d = "deadline K (next_tick w)" and ?s1 = "\<lparr>point = Sleeps, timer = Some (deadline K (next_tick w)), base = c, shared = ?w, verifying = []\<rparr>"
    have "?step\<^sup>*\<^sup>* ?s0 (?s0\<lparr>point := if Some ?d = None then Idle else Sleeps, timer := Some ?d,
        shared := (shared ?s0)\<lparr>task_woken := False, task_registered := True\<rparr>\<rparr>)"
      by (rule look_run [OF P k _ small])
        (use False sched in \<open>auto simp: at_rest_def on_schedule_def sleep_covers_def split: option.splits\<close>)
    then have looked: "?step\<^sup>*\<^sup>* ?s0 ?s1" by (simp add: at_rest_def)
    note ticks = service_ticking [OF P margin get, where debug = debug]
    note due = ticking.poll_due [OF ticks k sched False, where elapsed = elapsed and b = False]
    show ?thesis
    proof (cases "elapsed ?d (instant_now k)")
      case False
      with run due have end_state: "s' = Some ?d" "c' = c" "w' = ?w" by simp_all
      have "poll_step P elapsed K get D L debug svc ?s1 (?s1\<lparr>point := Idle\<rparr>)"
        by (rule pends [where k = k and d = ?d]) (use k False in simp_all)
      from rtranclp_trans [OF looked poll_run [OF this]] end_state show ?thesis by (simp add: at_rest_def)
    next
      case True
      with run due have "run_tick K (tick get D L debug svc ?now) ?d c ?w = (Inr StillPending, (s', c', w'))" by simp
      then obtain n w2 where tick: "tick get D L debug svc ?now (c, ?w) = (Inr n, (c', w2))"
        and end_state: "s' = map_option (deadline K) n" "w' = w2\<lparr>next_tick := handle_next_tick n\<rparr>"
        by (auto simp: run_tick_def handle_next_tick_def split: prod.splits sum.splits option.splits)
      have n: "\<forall>t. n = Some t \<longrightarrow> unat t < 2 ^ 63"
        using ticking.tick_time [OF ticks k] tick by blast
      from tick obtain u s1 where "tick_renews get D L debug svc ?now (c, ?w) = (Inr u, s1)"
        "tick_asks D debug svc s1 = (Inr n :: (('d, 'e) service_error, u64 option) result, (c', w2))"
        unfolding tick_parts and_then_Inr by blast
      then obtain c1 w1 where parts: "tick_renews get D L debug svc ?now (c, ?w) = (Inr (), (c1, w1))"
        "tick_asks D debug svc (c1, w1) = (Inr n :: (('d, 'e) service_error, u64 option) result, (c', w2))"
        by (cases s1) simp
      let ?s2 = "?s1\<lparr>point := Asks, base := c1, shared := w1\<rparr>"
      let ?s3 = "?s2\<lparr>point := Stores n, base := c', shared := w2\<rparr>"
      let ?s4 = "?s3\<lparr>point := Idle, timer := map_option (deadline K) n, shared := w2\<lparr>next_tick := handle_next_tick n\<rparr>\<rparr>"
      have s2: "poll_step P elapsed K get D L debug svc ?s1 ?s2"
        by (rule renews [where k = k and d = ?d]) (use k True parts(1) in simp_all)
      have s3: "poll_step P elapsed K get D L debug svc ?s2 ?s3" by (rule asks) (use parts(2) in simp_all)
      have "poll_step P elapsed K get D L debug svc ?s3 ?s4"
        by (rule stores [where k = k])
          (use k n P instant_from_unix_steady [OF k] in \<open>auto simp: times_representable_def split: option.split\<close>)
      from rtranclp_trans [OF poll_run [OF s2] rtranclp_trans [OF poll_run [OF s3] poll_run [OF this]]]
      have "?step\<^sup>*\<^sup>* ?s1 ?s4" .
      from rtranclp_trans [OF looked this] end_state show ?thesis by (simp add: at_rest_def)
    qed
  qed
qed

lemma verification_accesses:
  assumes k: "steady K k" "renewal_margin svc \<le> as_secs (now_unix k)"
    and query: "verify_of_fields (form_parse (form_of L) query) = Some (VerifySubscribe topic challenge lease)"
    and run: "verify_intent D L debug svc (as_secs (now_unix k)) i query (c, w) = (Inr (response_new challenge), (c', w'))"
  shows "(threads_step P elapsed K get D L debug svc)\<^sup>*\<^sup>* (at_rest s c w) (at_rest s c' w')"
proof -
  let ?e = "lease_expiry (as_secs (now_unix k)) lease" and ?step = "threads_step P elapsed K get D L debug svc"
  have "response_new challenge \<noteq> empty_response NOT_FOUND"
    by (simp add: response_new_def empty_response_def response_default_def)
  then have other: "ret (empty_response NOT_FOUND) x \<noteq> (Inr (response_new challenge), y)"
    for x y :: "'c \<times> ('g, 'u, 'b, 'm, 'z) world_scheme" by (simp add: ret_def)
  obtain found c1 where look': "conn_get_hub_of_inactive_subscription D i topic c = (Inr found, c1)"
    and rest: "(case found of
        None \<Rightarrow> ret (empty_response NOT_FOUND)
      | Some hub \<Rightarrow>
          and_then (lift (refresh_time debug svc ?e)) (\<lambda>t.
          and_then (\<lambda>(c, w). (Inr (), (c, hasten t w))) (\<lambda>_.
          and_then (conn_transaction D (accept_body D L svc i hub topic ?e))
            (\<lambda>_. ret (response_new challenge))))) (c1, w) = (Inr (response_new challenge), (c', w'))"
    using run unfolding verify_intent_accept [OF query] and_then_Inr [where m = "on_fst _"] on_fst_Inr by blast
  with other obtain hub where found: "found = Some hub" by (cases found) auto
  have look: "conn_get_hub_of_inactive_subscription D i topic c = (Inr (Some hub), c1)"
    using look' found by simp
  obtain t where t: "refresh_time debug svc ?e = (Inr t :: ('e, u64) result)"
    and act: "conn_transaction D (accept_body D L svc i hub topic ?e) (c1, hasten t w) = (Inr (), (c', w'))"
    using rest unfolding found option.case by (auto simp: and_then_Inr lift_def ret_def)
  let ?s0 = "at_rest s c w"
  let ?s1 = "?s0\<lparr>base := c1, verifying := verifying ?s0 @ [Lowers i hub topic ?e t]\<rparr>"
  let ?s2 = "?s1\<lparr>shared := hasten t (shared ?s1), verifying := [] @ Activates i hub topic ?e # []\<rparr>"
  let ?s3 = "?s2\<lparr>base := c', shared := w', verifying := [] @ []\<rparr>"
  have "verify_step K D L debug svc ?s0 ?s1"
    by (rule verifies [OF k query _ refl t]) (simp add: at_rest_def look)
  moreover have "?step\<^sup>*\<^sup>* ?s1 ?s2" by (rule hasten_run) (simp add: at_rest_def)
  moreover have "verify_step K D L debug svc ?s2 ?s3"
    by (rule activates [where r = "Inr ()"]) (use act in \<open>simp_all add: at_rest_def\<close>)
  moreover have "?s3 = at_rest s c' w'" by (simp add: at_rest_def)
  ultimately show ?thesis by (metis (no_types) verify_run rtranclp_trans)
qed

end

section \<open>Properties\<close>

text \<open>
  C4: no wake-up is lost. However the accesses of the renewal future, of any number of verifications
  and of the user interleave: when the future is not running, no wake-up is on its way and a
  time is shown, its sleep is set to that time or earlier, and a waker is registered.
\<close>

theorem wakeup_never_lost:
  assumes "subscriber_service L D subs up svc" "times_representable P K"
    and "unat (renewal_margin svc) < 2 ^ 62" "statement subs up get (\<lambda>m _ m'. m' = m)" "steady K k"
    and "build get D L P k b inc prefix g c0 = (Inr (this, svc, w, s), c)"
    and "(threads_step P elapsed K get D L debug svc)\<^sup>*\<^sup>* (at_rest s c (w\<lparr>task_woken := True\<rparr>)) x"
    and "point x = Idle" "next_tick (shared x) \<noteq> u64_MAX" "\<not> task_woken (shared x)"
    and "\<forall>v \<in> set (verifying x). \<not> is_waking v"
  shows "task_registered (shared x) \<and> (\<exists>d. timer x = Some d \<and> d \<le> deadline K (next_tick (shared x)))"
proof -
  have "in_time K subs svc s c (w\<lparr>task_woken := True\<rparr>)"
    by (rule built_in_time [OF assms(1-6) rtranclp.rtrancl_refl])
  then have "awake K subs svc (at_rest s c (w\<lparr>task_woken := True\<rparr>))" by (rule in_time_at_rest(1))
  from subscriber_service.run_awake [OF assms(1-4,7) this] show ?thesis
    using assms(8-11) by (auto simp: awake_def attentive_def)
qed

abbreviation mem_threads_step ::
  "(mem, (u64, string \<times> string option, unit, u8 list \<times> u8 list) world) threads \<Rightarrow>
   (mem, (u64, string \<times> string option, unit, u8 list \<times> u8 list) world) threads \<Rightarrow> bool" where
  "mem_threads_step \<equiv> threads_step wide_platform exact_sleep 0 (ret () :: (mem, unit) pool)
     (diesel2_connection mem_diesel counter_rng) reference_crates True mem_svc"

lemma mem_first_poll:
  "mem_threads_step\<^sup>*\<^sup>* (at_rest (Some (deadline 0 6400)) mem_active (mem_start\<lparr>task_woken := True\<rparr>))
     (at_rest (Some (deadline 0 6400)) mem_active (mem_start\<lparr>task_registered := True\<rparr>))"
proof (rule mem_svc.poll_accesses [OF wide_platform _ always_statement])
  show "unat (renewal_margin mem_svc) < 2 ^ 62" "steady 0 epoch" by (simp_all add: mem_svc_def steady_def epoch_def)
  show "on_schedule 0 (Some (deadline 0 6400), mem_active, mem_start\<lparr>task_woken := True\<rparr>)"
    by (simp add: on_schedule_def sleep_covers_def mem_start_def u64_MAX_def)
  show "renew_subscriptions_poll wide_platform exact_sleep (ret ()) (diesel2_connection mem_diesel counter_rng)
      reference_crates True mem_svc epoch True
      (Some (deadline 0 6400), mem_active, mem_start\<lparr>task_woken := True, task_woken := False\<rparr>) =
    (Inr StillPending, (Some (deadline 0 6400), mem_active, mem_start\<lparr>task_registered := True\<rparr>))"
    by (simp add: renew_subscriptions_poll_def scheduler_poll_def Let_def decode_next_tick_def
        instant_from_unix_def epoch_def wide_platform_def deadline_def from_secs_def now_unix_def
        instant_checked_def mem_start_def u64_MAX_def exact_sleep_def)
qed

theorem wakeup_never_lost_witness:
  "\<exists>x. mem_threads_step\<^sup>*\<^sup>* (at_rest (Some (deadline 0 6400)) mem_active (mem_start\<lparr>task_woken := True\<rparr>)) x \<and>
     point x = Idle \<and> \<not> task_woken (shared x) \<and> (\<exists>d. timer x = Some d \<and> d \<le> 6400 * 10 ^ 9)"
proof -
  let ?x = "at_rest (Some (deadline 0 6400)) mem_active (mem_start\<lparr>task_registered := True\<rparr>)"
  have margin: "unat (renewal_margin mem_svc) < 2 ^ 62" and epoch: "steady 0 epoch"
    by (simp_all add: mem_svc_def steady_def epoch_def)
  have x: "point ?x = Idle" "next_tick (shared ?x) \<noteq> u64_MAX" "\<not> task_woken (shared ?x)"
    "\<forall>v \<in> set (verifying ?x). \<not> is_waking v"
    by (simp_all add: at_rest_def mem_start_def u64_MAX_def)
  from wakeup_never_lost [OF mem_svc.subscriber_service_axioms wide_platform margin always_statement epoch mem_build
      mem_first_poll x]
  have "\<exists>d. timer ?x = Some d \<and> d \<le> deadline 0 (next_tick (shared ?x))" by simp
  then have "\<exists>d. timer ?x = Some d \<and> d \<le> 6400 * 10 ^ 9"
    by (simp add: at_rest_def mem_start_def deadline_def from_secs_def)
  with mem_first_poll x show ?thesis by blast
qed

text \<open>
  C3: in time on every thread. If no verification is between its \<open>fetch_min\<close> and the end of its
  transaction while a tick is between its query and its store, then at every access, in
  whatever order they happen, the handle shows a time by which no active subscription is overdue.
\<close>

theorem interleaved_in_time:
  assumes "subscriber_service L D subs up svc" "times_representable P K"
    and "unat (renewal_margin svc) < 2 ^ 62" "statement subs up get (\<lambda>m _ m'. m' = m)" "steady K k"
    and "build get D L P k b inc prefix g c0 = (Inr (this, svc, w, s), c)"
    and "(\<lambda>x y. threads_step P elapsed K get D L debug svc x y \<and> \<not> collides y)\<^sup>*\<^sup>*
      (at_rest s c (w\<lparr>task_woken := True\<rparr>)) x"
    and "subs (base x) i = Some sub" "sub_expires_at sub = Some e"
  shows "int (unat (next_tick (shared x))) \<le> due svc e"
proof -
  have "in_time K subs svc s c (w\<lparr>task_woken := True\<rparr>)"
    by (rule built_in_time [OF assms(1-6) rtranclp.rtrancl_refl])
  note start = in_time_at_rest [OF this]
  from subscriber_service.run_guarded [OF assms(1-4,7) start] have "covered svc (subs (base x)) (shared x)"
    by (simp add: guarded_def looked_after_def)
  with assms(8,9) show ?thesis by (auto simp: covered_def expiries_def)
qed

theorem interleaved_in_time_witness:
  "\<exists>x. (\<lambda>x y. mem_threads_step x y \<and> \<not> collides y)\<^sup>*\<^sup>*
     (at_rest (Some (deadline 0 6400)) mem_active (mem_start\<lparr>task_woken := True\<rparr>)) x \<and> point x = Registers \<and>
     int (unat (next_tick (shared x))) \<le> 6400"
proof -
  let ?w = "mem_start\<lparr>task_woken := True\<rparr>" and ?R = "\<lambda>x y. mem_threads_step x y \<and> \<not> collides y"
  let ?s = "at_rest (Some (deadline 0 6400)) mem_active ?w"
  let ?x = "?s\<lparr>point := Registers, shared := ?w\<lparr>task_woken := False\<rparr>\<rparr>"
  have "mem_threads_step ?s ?x" by (intro threads_step.poll polls) (simp_all add: at_rest_def)
  moreover have "\<not> collides ?x" by (simp add: collides_def)
  ultimately have run: "?R\<^sup>*\<^sup>* ?s ?x" by (intro r_into_rtranclp) simp
  have margin: "unat (renewal_margin mem_svc) < 2 ^ 62" and epoch: "steady 0 epoch"
    by (simp_all add: mem_svc_def steady_def epoch_def)
  have row: "mem_table (base ?x) 1 = Some mem_sub" "sub_expires_at mem_sub = Some 10000"
    by (simp_all add: at_rest_def mem_active mem_sub_def)
  from interleaved_in_time [OF mem_svc.subscriber_service_axioms wide_platform margin always_statement epoch mem_build
      run row]
  have "int (unat (next_tick (shared ?x))) \<le> 6400" by (simp add: due_def mem_svc_def)
  with run show ?thesis by (intro exI [of _ ?x]) simp
qed

text \<open>
  C24: a renewal that is lost. A verification hastens the handle before its transaction: if a tick that
  is due runs from its start to its end in between, the tick does not see the subscription, and
  its store undoes the hastening. All calls have returned then, the subscription is active, and
  the handle and the sleep are set to a time after the one at which it must be renewed.
\<close>

theorem activation_overlooked:
  assumes "subscriber_service L D subs up svc" "times_representable P K"
    and "unat (renewal_margin svc) < 2 ^ 62" "statement subs up get (\<lambda>m _ m'. m' = m)" "steady K k" "sleep_spec elapsed"
    and "in_time K subs svc s c w" "next_tick w \<noteq> u64_MAX" "deadline K (next_tick w) + 10 ^ 6 \<le> instant_now k"
    and "up c" "2 * card (dom (subs c)) < 2 ^ 64" "hubs_are_uris L (subs c)"
    and "verify_of_fields (form_parse (form_of L) query) = Some (VerifySubscribe topic challenge lease)"
    and "pending i topic (subs c) = Some hub" "renewal_margin svc \<le> as_secs (now_unix k)"
    and "\<forall>e \<in> expiries (subs c).
      int (unat (as_secs (now_unix k)) + unat (renewal_margin svc) + 1) < sint e \<and>
      sint (lease_expiry (as_secs (now_unix k)) lease) < sint e"
  shows "\<exists>x sub e. (threads_step P elapsed K get D L debug svc)\<^sup>*\<^sup>* (at_rest s c w) x \<and>
    point x = Idle \<and> verifying x = [] \<and> \<not> task_woken (shared x) \<and>
    subs (base x) i = Some sub \<and> sub_expires_at sub = Some e \<and> e = lease_expiry (as_secs (now_unix k)) lease \<and>
    due svc e < int (unat (next_tick (shared x))) \<and>
    timer x = (if next_tick (shared x) = u64_MAX then None else Some (deadline K (next_tick (shared x))))"
proof -
  let ?e = "lease_expiry (as_secs (now_unix k)) lease"
  obtain x where x: "(threads_step P elapsed K get D L debug svc)\<^sup>*\<^sup>* (at_rest s c w) x"
    "point x = Idle" "verifying x = []" "\<not> task_woken (shared x)"
    and row: "subs (base x) = verified i ?e hub topic (subs c)"
    and late: "due svc ?e < int (unat (next_tick (shared x)))"
    and sleep: "timer x = (if next_tick (shared x) = u64_MAX then None else Some (deadline K (next_tick (shared x))))"
    by (rule subscriber_service.overlap_loses [OF assms(1-15), where debug = debug]) (use assms(16) in blast)+
  from assms(14) obtain sub where "subs c i = Some sub" "sub_expires_at sub = None" by (auto simp: pending_Some)
  then have "subs (base x) i = Some (sub\<lparr>sub_expires_at := Some ?e\<rparr>)"
    unfolding row by (auto simp: verified_def activated_def duplicates_def restrict_map_def)
  with x late sleep show ?thesis by (intro exI [of _ x] exI [of _ "sub\<lparr>sub_expires_at := Some ?e\<rparr>"] exI [of _ ?e]) simp
qed

theorem activation_overlooked_witness:
  "\<exists>x sub. mem_threads_step\<^sup>*\<^sup>*
     (at_rest (Some (deadline 0 900))
       \<lparr>mem_rows = [(1, mem_sub), (3, mem_sub\<lparr>sub_topic := ''u'', sub_expires_at := None\<rparr>)], mem_faults = []\<rparr>
       (mem_start\<lparr>next_tick := 900, task_registered := True\<rparr>)) x \<and>
     verifying x = [] \<and> \<not> task_woken (shared x) \<and> mem_table (base x) 3 = Some sub \<and> sub_expires_at sub = Some 8000 \<and>
     4400 < int (unat (next_tick (shared x)))"
proof -
  let ?c = "\<lparr>mem_rows = [(1, mem_sub), (3, mem_sub\<lparr>sub_topic := ''u'', sub_expires_at := None\<rparr>)], mem_faults = []\<rparr>"
  let ?k = "\<lparr>instant_now = 4 * 10 ^ 12, system_time_now = 4 * 10 ^ 12\<rparr> :: clock"
  let ?w = "mem_start\<lparr>next_tick := 900, task_registered := True\<rparr>"
  let ?s = "mem_sub\<lparr>sub_topic := ''u'', sub_expires_at := None\<rparr>"
  have c: "mem_table ?c = [1 \<mapsto> mem_sub, 3 \<mapsto> ?s]" "mem_up ?c" by (auto simp: mem_table_def mem_up_def)
  have expiry: "expiries (mem_table ?c) = {10000}"
    unfolding c(1) by (auto simp: expiries_def mem_sub_def split: if_splits)
  have few: "2 * card (dom (mem_table ?c)) < 2 ^ 64" unfolding c(1) by simp
  have uris: "hubs_are_uris reference_crates (mem_table ?c)"
    unfolding c(1) using mem_sub_uri by (auto simp: hubs_are_uris_def split: if_splits)
  have k: "steady 0 ?k" and margin: "unat (renewal_margin mem_svc) < 2 ^ 62"
    by (simp_all add: steady_def mem_svc_def)
  have now: "as_secs (now_unix ?k) = 4000" by (simp add: as_secs_def now_unix_def)
  have late: "renewal_margin mem_svc \<le> as_secs (now_unix ?k)" unfolding now by (simp add: mem_svc_def)
  have inv: "in_time 0 mem_table mem_svc (Some (deadline 0 900)) ?c ?w"
    by (simp add: in_time_def on_schedule_def sleep_covers_def covered_def expiry due_def mem_svc_def
        mem_start_def u64_MAX_def)
  have due: "next_tick ?w \<noteq> u64_MAX" "deadline 0 (next_tick ?w) + 10 ^ 6 \<le> instant_now ?k"
    by (simp_all add: u64_MAX_def deadline_def from_secs_def)
  obtain q where q: "verify_of_fields (form_parse (form_of reference_crates) q) =
      Some (VerifySubscribe ''u'' ''c'' 4000)" by (rule mem_query_string)
  have p: "pending 3 ''u'' (mem_table ?c) = Some ''h''" unfolding c(1) by (simp add: pending_Some mem_sub_def)
  have e': "lease_expiry 4000 4000 = 8000"
    by (simp add: lease_expiry_def saturating_add_def i64_try_from_def)
  then have e: "lease_expiry (as_secs (now_unix ?k)) 4000 = 8000" unfolding now .
  have later: "\<forall>e \<in> expiries (mem_table ?c).
      int (unat (as_secs (now_unix ?k)) + unat (renewal_margin mem_svc) + 1) < sint e \<and>
      sint (lease_expiry (as_secs (now_unix ?k)) 4000) < sint e"
    unfolding expiry now e' by (simp add: mem_svc_def)
  from activation_overlooked [OF mem_svc.subscriber_service_axioms wide_platform margin always_statement k
      exact_sleep.sleep_spec_axioms inv due c(2) few uris q p late later, where debug = True]
  obtain x sub where x: "mem_threads_step\<^sup>*\<^sup>* (at_rest (Some (deadline 0 900)) ?c ?w) x" "verifying x = []"
      "\<not> task_woken (shared x)" "mem_table (base x) 3 = Some sub" "sub_expires_at sub = Some 8000"
      "due mem_svc 8000 < int (unat (next_tick (shared x)))"
    unfolding e by blast
  then have "4400 < int (unat (next_tick (shared x)))" by (simp add: due_def mem_svc_def)
  with x show ?thesis by blast
qed

text \<open>
  C25: the calls are runs of their accesses. A poll of the renewal future that stays pending, and a
  verification that is granted, as \<open>System\<close> takes them in one step, are what the accesses come to when no
  other thread interferes.
\<close>

theorem calls_are_accesses:
  assumes "subscriber_service L D subs up svc" "times_representable P K"
    and "unat (renewal_margin svc) < 2 ^ 62" "statement subs up get (\<lambda>m _ m'. m' = m)" "steady K k"
    and "on_schedule K (s, c, w)"
  shows "(renew_subscriptions_poll P elapsed get D L debug svc k True (s, c, w\<lparr>task_woken := False\<rparr>) =
      (Inr StillPending, (s', c', w')) \<longrightarrow>
    (threads_step P elapsed K get D L debug svc)\<^sup>*\<^sup>* (at_rest s c w) (at_rest s' c' w')) \<and>
    (renewal_margin svc \<le> as_secs (now_unix k) \<longrightarrow>
     verify_of_fields (form_parse (form_of L) query) = Some (VerifySubscribe topic challenge lease) \<longrightarrow>
     verify_intent D L debug svc (as_secs (now_unix k)) i query (c, w) = (Inr (response_new challenge), (c'', w'')) \<longrightarrow>
     (threads_step P elapsed K get D L debug svc)\<^sup>*\<^sup>* (at_rest s c w) (at_rest s c'' w''))"
  using subscriber_service.poll_accesses [OF assms]
    subscriber_service.verification_accesses [OF assms(1,5)] by blast


theorem calls_are_accesses_witness:
  "mem_threads_step\<^sup>*\<^sup>* (at_rest (Some (deadline 0 6400)) mem_active (mem_start\<lparr>task_woken := True\<rparr>))
     (at_rest (Some (deadline 0 6400)) mem_active (mem_start\<lparr>task_registered := True\<rparr>)) \<and>
   (\<exists>c w. mem_threads_step\<^sup>*\<^sup>*
      (at_rest (Some (deadline 0 6400))
        \<lparr>mem_rows = [(3, mem_sub\<lparr>sub_expires_at := None\<rparr>)], mem_faults = []\<rparr> (mem_start\<lparr>task_woken := True\<rparr>))
      (at_rest (Some (deadline 0 6400)) c w) \<and>
      mem_table c = [3 \<mapsto> mem_sub\<lparr>sub_expires_at := Some 8000\<rparr>] \<and> next_tick w = 4400)"
proof -
  let ?k = "\<lparr>instant_now = 4 * 10 ^ 12, system_time_now = 4 * 10 ^ 12\<rparr> :: clock"
  let ?c = "\<lparr>mem_rows = [(3, mem_sub\<lparr>sub_expires_at := None\<rparr>)], mem_faults = []\<rparr>"
  let ?w = "mem_start\<lparr>task_woken := True\<rparr>"
  have margin: "unat (renewal_margin mem_svc) < 2 ^ 62" and k: "steady 0 epoch" "steady 0 ?k"
    by (simp_all add: mem_svc_def steady_def epoch_def)
  have sched: "on_schedule 0 (Some (deadline 0 6400), c, ?w)" for c :: mem
    by (simp add: on_schedule_def sleep_covers_def mem_start_def u64_MAX_def)
  have poll: "renew_subscriptions_poll wide_platform exact_sleep (ret ()) (diesel2_connection mem_diesel counter_rng)
      reference_crates True mem_svc epoch True
      (Some (deadline 0 6400), mem_active, ?w\<lparr>task_woken := False\<rparr>) =
    (Inr StillPending, (Some (deadline 0 6400), mem_active, mem_start\<lparr>task_registered := True\<rparr>))"
    by (simp add: renew_subscriptions_poll_def scheduler_poll_def Let_def decode_next_tick_def
        instant_from_unix_def epoch_def wide_platform_def deadline_def from_secs_def now_unix_def
        instant_checked_def mem_start_def u64_MAX_def exact_sleep_def)
  have now: "as_secs (now_unix ?k) = 4000" by (simp add: as_secs_def now_unix_def)
  have c: "mem_table ?c = [3 \<mapsto> mem_sub\<lparr>sub_expires_at := None\<rparr>]" "mem_up ?c"
    by (auto simp: mem_table_def mem_up_def)
  have p: "pending 3 ''t'' (mem_table ?c) = Some ''h''" unfolding c(1) by (simp add: pending_Some mem_sub_def)
  have uri: "uri_parse (uri_of reference_crates) ''h'' \<noteq> None" using mem_sub_uri by (simp add: mem_sub_def)
  have e: "lease_expiry 4000 4000 = 8000" by (simp add: lease_expiry_def saturating_add_def i64_try_from_def)
  have early: "int (unat (renewal_margin mem_svc)) \<le> sint (lease_expiry 4000 4000)" "renewal_margin mem_svc \<le> 4000"
    unfolding e by (simp_all add: mem_svc_def)
  obtain q where q: "verify_of_fields (form_parse (form_of reference_crates) q) =
      Some (VerifySubscribe ''t'' ''c'' 4000)" by (rule mem_query_string)
  obtain c' old futs where run: "verify_intent (diesel2_connection mem_diesel counter_rng) reference_crates True mem_svc
      4000 3 q (?c, ?w) = (Inr (response_new ''c''),
       (c', (hasten (8000 - renewal_margin mem_svc) ?w)\<lparr>spawned := spawned ?w @ futs\<rparr>))"
    and t: "mem_table c' = verified 3 8000 ''h'' ''t'' (mem_table ?c)"
    using mem_svc.verify_pending [OF c(2) q p uri early(1)] unfolding e by metis
  have row: "mem_table c' = [3 \<mapsto> mem_sub\<lparr>sub_expires_at := Some 8000\<rparr>]"
    unfolding t c(1) by (auto simp: verified_def activated_def duplicates_def restrict_map_def mem_sub_def)
  have shown: "next_tick ((hasten (8000 - renewal_margin mem_svc) ?w)\<lparr>spawned := spawned ?w @ futs\<rparr>) = 4400"
    by (simp add: hasten_def wake_def mem_start_def mem_svc_def)
  note threads = calls_are_accesses [OF mem_svc.subscriber_service_axioms wide_platform margin always_statement]
  have "mem_threads_step\<^sup>*\<^sup>* (at_rest (Some (deadline 0 6400)) mem_active ?w)
      (at_rest (Some (deadline 0 6400)) mem_active (mem_start\<lparr>task_registered := True\<rparr>))"
    by (rule threads [OF k(1) sched, THEN conjunct1, rule_format, OF poll])
  moreover have "mem_threads_step\<^sup>*\<^sup>* (at_rest (Some (deadline 0 6400)) ?c ?w)
      (at_rest (Some (deadline 0 6400)) c' ((hasten (8000 - renewal_margin mem_svc) ?w)\<lparr>spawned := spawned ?w @ futs\<rparr>))"
    by (rule threads [OF k(2) sched, THEN conjunct2, rule_format, unfolded now, OF early(2) q run])
  ultimately show ?thesis using row shown by blast
qed

end
