(* ===== verification/Testing.thy ===== *)
theory Testing
  imports Subscriber
begin

text \<open>
  The utilities of the tests: the clocks that follow \<open>tokio::time\<close> while it is paused
  (\<open>src/util/time.rs\<close>), the sleep on a thread of its own and the timeout
  (\<open>src/util/time/sleep.rs\<close>), the first of two futures (\<open>src/util/first.rs\<close>), the
  projections of its result (\<open>src/util.rs\<close>) and the in-memory connections
  (\<open>src/util/connection.rs\<close>).
\<close>

section \<open>Clocks under test\<close>

text \<open>
  A reading of the platform's \<open>Instant\<close> and \<open>SystemTime\<close> and of tokio's clock. While it is paused that
  clock is moved by \<open>advance\<close>, and by tokio to the next timer when the runtime is idle; the tests of
  the clocks have no timer. System times are nanoseconds since the epoch.
\<close>

record readings =
  real_instant :: int
  real_system :: int
  tokio_instant :: int

definition test_instant_now :: "readings \<Rightarrow> int" where
  "test_instant_now R = tokio_instant R"

definition test_system_time_now :: "readings \<Rightarrow> int" where
  "test_system_time_now R =
     (let instant = real_instant R; sys = real_system R; mocked = test_instant_now R
      in if mocked > instant then sys + (mocked - instant) else sys - (instant - mocked))"

definition tokio_advance :: "int \<Rightarrow> readings \<Rightarrow> readings" where
  "tokio_advance delta R = R\<lparr>tokio_instant := tokio_instant R + delta\<rparr>"

text \<open>\<open>duration_since\<close> the other one, in either order, and the tolerance of the tests.\<close>

definition EPSILON :: int where
  "EPSILON = 10 * 10 ^ 6"

definition almost_eq :: "int \<Rightarrow> int \<Rightarrow> bool" where
  "almost_eq lhs rhs \<longleftrightarrow> \<not> (if lhs > rhs then lhs - rhs else rhs - lhs) \<ge> EPSILON"

text \<open>
  The tests \<open>advance\<close> and \<open>backward\<close> on the readings taken at their start and end; \<open>None\<close> is
  a panic, when time went backwards.
\<close>

definition test_advance :: "readings \<Rightarrow> readings \<Rightarrow> bool option" where
  "test_advance start stop =
     (let d = test_system_time_now stop - test_system_time_now start
      in if d < 0 then None else Some (almost_eq d (42 * 10 ^ 9)))"

definition test_backward :: "readings \<Rightarrow> readings \<Rightarrow> bool option" where
  "test_backward start stop =
     (let d = test_system_time_now stop - test_system_time_now start
      in Some (almost_eq (if d < 0 then - d else d) 0))"

text \<open>
  The time that passes between the reading of \<open>Instant\<close> and that of \<open>SystemTime\<close>, on a
  platform where the two differ by \<open>K\<close>.
\<close>

definition read_gap :: "int \<Rightarrow> readings \<Rightarrow> int" where
  "read_gap K R = real_system R - real_instant R - K"

lemma test_system_time_now_eq: "test_system_time_now R = tokio_instant R + K + read_gap K R"
  by (simp add: test_system_time_now_def test_instant_now_def read_gap_def Let_def)

definition test_clock :: "readings \<Rightarrow> clock" where
  "test_clock R = \<lparr>instant_now = test_instant_now R, system_time_now = nat (test_system_time_now R)\<rparr>"

section \<open>A sleep on a thread of its own\<close>

record sleep_inner =
  elapsed_flag :: bool
  waker_registered :: bool
  waker_woken :: bool

definition sleep_inner_new :: sleep_inner where
  "sleep_inner_new = \<lparr>elapsed_flag = False, waker_registered = False, waker_woken = False\<rparr>"

definition sleep_inner_wake :: "sleep_inner \<Rightarrow> sleep_inner" where
  "sleep_inner_wake s =
     (if waker_registered s then s\<lparr>waker_registered := False, waker_woken := True\<rparr> else s)"

text \<open>
  A poll loads the flag and then registers its waker; the thread stores the flag and then
  wakes. The four are atomic, and the two run at once: where the task and the thread are.
\<close>

datatype poller = ToPoll | NotElapsed | Waiting | Completed
datatype sleeper = Asleep | Stored | Gone

inductive sleep_step ::
  "poller \<times> sleeper \<times> sleep_inner \<Rightarrow> poller \<times> sleeper \<times> sleep_inner \<Rightarrow> bool" where
  loads_elapsed: "elapsed_flag s \<Longrightarrow> sleep_step (ToPoll, t, s) (Completed, t, s)"
| loads_pending: "\<not> elapsed_flag s \<Longrightarrow> sleep_step (ToPoll, t, s) (NotElapsed, t, s)"
| registers: "sleep_step (NotElapsed, t, s) (Waiting, t, s\<lparr>waker_registered := True\<rparr>)"
| polled_again: "waker_woken s \<Longrightarrow> sleep_step (Waiting, t, s) (ToPoll, t, s\<lparr>waker_woken := False\<rparr>)"
| stores: "sleep_step (p, Asleep, s) (p, Stored, s\<lparr>elapsed_flag := True\<rparr>)"
| wakes: "sleep_step (p, Stored, s) (p, Gone, sleep_inner_wake s)"

inductive_cases sleep_stepE: "sleep_step (p, t, s) y"

text \<open>The whole poll at once, when the thread does not interfere.\<close>

definition sleep_inner_poll :: "sleep_inner \<Rightarrow> unit poll \<times> sleep_inner" where
  "sleep_inner_poll s =
     (if elapsed_flag s then (Ready (), s) else (Pending, s\<lparr>waker_registered := True\<rparr>))"

section \<open>Futures\<close>

type_synonym ('s, 'e, 'a) future = "('s, 'e, 'a poll) action"

definition timeout_poll ::
  "('s, 'e, unit) future \<Rightarrow> ('f, 'e, 'a) future \<Rightarrow> ('s \<times> 'f, 'e, 'a) future" where
  "timeout_poll sleep future = (\<lambda>(s, f). case sleep s of
     (Inl e, s) \<Rightarrow> (Inl e, (s, f))
   | (Inr (Ready _), s) \<Rightarrow> (Inl Panic, (s, f))
   | (Inr Pending, s) \<Rightarrow> (case future f of (r, f) \<Rightarrow> (r, (s, f))))"

definition first_poll ::
  "('s, 'e, 'a) future \<Rightarrow> ('t, 'e, 'b) future \<Rightarrow> ('s \<times> 't, 'e, 'a + 'b) future" where
  "first_poll pa pb = (\<lambda>(a, b). case pa a of
     (Inl e, a) \<Rightarrow> (Inl e, (a, b))
   | (Inr (Ready x), a) \<Rightarrow> (Inr (Ready (Inl x)), (a, b))
   | (Inr Pending, a) \<Rightarrow> (case pb b of
        (Inl e, b) \<Rightarrow> (Inl e, (a, b))
      | (Inr (Ready y), b) \<Rightarrow> (Inr (Ready (Inr y)), (a, b))
      | (Inr Pending, b) \<Rightarrow> (Inr Pending, (a, b))))"

definition unwrap_left :: "'a + 'b \<Rightarrow> ('e, 'a) result" where
  "unwrap_left x = (case x of Inl a \<Rightarrow> Inr a | Inr _ \<Rightarrow> Inl Panic)"

definition unwrap_right :: "'a + 'b \<Rightarrow> ('e, 'b) result" where
  "unwrap_right x = (case x of Inr b \<Rightarrow> Inr b | Inl _ \<Rightarrow> Inl Panic)"

section \<open>Connections in memory\<close>

text \<open>
  The channel between the connectors and the listener: the streams sent and not received yet,
  how many duplexes were made, whether the listener exists and how many connectors do. A
  stream is one end of a numbered duplex.
\<close>

datatype duplex_end = ConnectorEnd nat | ListenerEnd nat

record channel =
  chan_streams :: "duplex_end list"
  chan_made :: nat
  chan_listening :: bool
  chan_connectors :: nat

definition connection_new :: channel where
  "connection_new = \<lparr>chan_streams = [], chan_made = 0, chan_listening = True, chan_connectors = 1\<rparr>"

definition connector_clone :: "channel \<Rightarrow> channel" where
  "connector_clone ch = ch\<lparr>chan_connectors := chan_connectors ch + 1\<rparr>"

definition connector_poll_ready :: "(unit + unit) poll" where
  "connector_poll_ready = Ready (Inr ())"

text \<open>\<open>Connector::call\<close>: the error is that the listener is gone.\<close>

definition connector_call :: "channel \<Rightarrow> (unit + duplex_end) \<times> channel" where
  "connector_call ch =
     (let n = chan_made ch; ch = ch\<lparr>chan_made := n + 1\<rparr>
      in if chan_listening ch
         then (Inr (ConnectorEnd n), ch\<lparr>chan_streams := chan_streams ch @ [ListenerEnd n]\<rparr>)
         else (Inl (), ch))"

definition listener_poll_next :: "channel \<Rightarrow> (unit + duplex_end) option poll \<times> channel" where
  "listener_poll_next ch = (case chan_streams ch of
     s # rest \<Rightarrow> (Ready (Some (Inr s)), ch\<lparr>chan_streams := rest\<rparr>)
   | [] \<Rightarrow> (if chan_connectors ch = 0 then Ready None else Pending, ch))"

section \<open>Lemmas\<close>

lemma sleep_reachable_cases:
  assumes "sleep_step\<^sup>*\<^sup>* (ToPoll, Asleep, sleep_inner_new) (p, t, s)"
  shows "(t = Asleep \<longrightarrow> \<not> elapsed_flag s \<and> \<not> waker_woken s \<and> p \<noteq> Completed \<and> (p = Waiting \<longrightarrow> waker_registered s)) \<and>
    (t \<noteq> Asleep \<longrightarrow> elapsed_flag s) \<and>
    (p = Waiting \<longrightarrow> waker_registered s \<or> waker_woken s)"
proof -
  let ?inv = "\<lambda>(p, t, s). (t = Asleep \<longrightarrow> \<not> elapsed_flag s \<and> \<not> waker_woken s \<and> p \<noteq> Completed \<and> (p = Waiting \<longrightarrow> waker_registered s)) \<and>
    (t \<noteq> Asleep \<longrightarrow> elapsed_flag s) \<and>
    (p = Waiting \<longrightarrow> waker_registered s \<or> waker_woken s)"
  have "?inv x" if "sleep_step\<^sup>*\<^sup>* (ToPoll, Asleep, sleep_inner_new) x" for x
    using that
  proof (induction rule: rtranclp_induct)
    case base
    show ?case by (simp add: sleep_inner_new_def)
  next
    case (step y z)
    from step(2,3) show ?case
      by (cases rule: sleep_step.cases) (auto simp: sleep_inner_wake_def)
  qed
  from this [OF assms] show ?thesis by simp
qed

lemma sleep_stuck_iff:
  "(\<nexists>y. sleep_step (p, t, s) y) \<longleftrightarrow> t = Gone \<and> (p = Completed \<or> (p = Waiting \<and> \<not> waker_woken s))"
  by (cases p; cases t; cases "elapsed_flag s") (auto simp: sleep_step.simps)

text \<open>The listener yields the streams of the connections in the order they were made.\<close>

lemma listener_feeds:
  "feeds listener_poll_next ch (chan_streams ch) (ch\<lparr>chan_streams := []\<rparr>)"
proof (induction "chan_streams ch" arbitrary: ch)
  case Nil
  then have "ch\<lparr>chan_streams := []\<rparr> = ch" by simp
  then show ?case using feeds.feeds_none [of listener_poll_next ch] Nil [symmetric] by (simp only:)
next
  case (Cons s rest)
  from Cons(2) have "listener_poll_next ch = (Ready (Some (Inr s)), ch\<lparr>chan_streams := rest\<rparr>)"
    by (simp add: listener_poll_next_def flip: Cons(2))
  moreover have "feeds listener_poll_next (ch\<lparr>chan_streams := rest\<rparr>)
      rest (ch\<lparr>chan_streams := []\<rparr>)"
    using Cons(1) [of "ch\<lparr>chan_streams := rest\<rparr>"] by simp
  ultimately show ?case using Cons(2) by (simp add: feeds.feeds_one flip: Cons(2))
qed

section \<open>Properties\<close>

text \<open>
  Under test the system time follows tokio's clock. Where the two real clocks are read at
  the same moment, the clocks of the tests agree with each other the way the scheduler needs
  it; and the tests \<open>advance\<close> and \<open>backward\<close> pass exactly when the gaps between the two
  readings differ by less than the tolerance, however much real time passed in between.
\<close>

theorem test_clocks_follow_tokio:
  "(read_gap K R = 0 \<and> 0 \<le> tokio_instant R + K \<and> tokio_instant R + K < 2 ^ 62 * 10 ^ 9 \<longrightarrow>
      steady (- K) (test_clock R)) \<and>
   (tokio_instant stop = tokio_instant start + 42 * 10 ^ 9 \<longrightarrow>
      (test_advance start stop = Some True \<longleftrightarrow> \<bar>read_gap K stop - read_gap K start\<bar> < EPSILON)) \<and>
   (tokio_instant stop = tokio_instant start \<longrightarrow>
      (test_backward start stop = Some True \<longleftrightarrow> \<bar>read_gap K stop - read_gap K start\<bar> < EPSILON))"
proof (intro conjI impI)
  assume "read_gap K R = 0 \<and> 0 \<le> tokio_instant R + K \<and> tokio_instant R + K < 2 ^ 62 * 10 ^ 9"
  then show "steady (- K) (test_clock R)"
    by (auto simp: steady_def test_clock_def test_instant_now_def test_system_time_now_eq [of R K] nat_less_iff)
next
  assume "tokio_instant stop = tokio_instant start + 42 * 10 ^ 9"
  then show "test_advance start stop = Some True \<longleftrightarrow> \<bar>read_gap K stop - read_gap K start\<bar> < EPSILON"
    by (auto simp: test_advance_def test_system_time_now_eq [of _ K] Let_def almost_eq_def EPSILON_def)
next
  assume "tokio_instant stop = tokio_instant start"
  then show "test_backward start stop = Some True \<longleftrightarrow> \<bar>read_gap K stop - read_gap K start\<bar> < EPSILON"
    by (auto simp: test_backward_def test_system_time_now_eq [of _ K] Let_def almost_eq_def EPSILON_def)
qed

theorem test_clocks_follow_tokio_witness:
  "test_advance \<lparr>real_instant = 5, real_system = 105, tokio_instant = 7\<rparr>
     \<lparr>real_instant = 90, real_system = 195, tokio_instant = 7 + 42 * 10 ^ 9\<rparr> = Some True"
  using test_clocks_follow_tokio [of 100 _ "\<lparr>real_instant = 90, real_system = 195, tokio_instant = 7 + 42 * 10 ^ 9\<rparr>"
      "\<lparr>real_instant = 5, real_system = 105, tokio_instant = 7\<rparr>"]
  by (simp add: read_gap_def EPSILON_def)

text \<open>
  C40: the sleep of the tests can miss its wake-up. A poll loads the flag before it registers
  its waker, so the thread may store the flag and wake nobody in between: the future then
  waits for ever although the sleep is over, and a test that hangs is not stopped by its
  timeout. Of the states that can be reached this is the only one, but for the end, from which
  there is no step.
\<close>

theorem sleep_wakeup_lost:
  "{(p, t, s). sleep_step\<^sup>*\<^sup>* (ToPoll, Asleep, sleep_inner_new) (p, t, s) \<and> (\<nexists>y. sleep_step (p, t, s) y) \<and>
     p \<noteq> Completed} =
   {(Waiting, Gone, \<lparr>elapsed_flag = True, waker_registered = True, waker_woken = False\<rparr>)}"
proof -
  let ?new = sleep_inner_new and ?stored = "sleep_inner_new\<lparr>elapsed_flag := True\<rparr>"
  let ?lost = "\<lparr>elapsed_flag = True, waker_registered = True, waker_woken = False\<rparr>"
  have "sleep_step (ToPoll, Asleep, ?new) (NotElapsed, Asleep, ?new)"
    by (rule loads_pending) (simp add: sleep_inner_new_def)
  moreover have "sleep_step (NotElapsed, Asleep, ?new) (NotElapsed, Stored, ?stored)" by (rule stores)
  moreover have "sleep_step (NotElapsed, Stored, ?stored) (NotElapsed, Gone, ?stored)"
    using wakes [of NotElapsed ?stored] by (simp add: sleep_inner_wake_def sleep_inner_new_def)
  moreover have "sleep_step (NotElapsed, Gone, ?stored) (Waiting, Gone, ?lost)"
    using registers [of Gone ?stored] by (simp add: sleep_inner_new_def)
  ultimately have "sleep_step\<^sup>*\<^sup>* (ToPoll, Asleep, ?new) (Waiting, Gone, ?lost)"
    by (meson rtranclp.rtrancl_refl rtranclp.rtrancl_into_rtrancl)
  moreover have "\<nexists>y. sleep_step (Waiting, Gone, ?lost) y" unfolding sleep_stuck_iff by simp
  moreover have "(p, t, s) = (Waiting, Gone, ?lost)"
    if "sleep_step\<^sup>*\<^sup>* (ToPoll, Asleep, ?new) (p, t, s)" "\<nexists>y. sleep_step (p, t, s) y" "p \<noteq> Completed" for p t s
    using sleep_reachable_cases [OF that(1)] that(2) [unfolded sleep_stuck_iff] that(3) by (cases s) auto
  ultimately show ?thesis by blast
qed

end
