(* ===== verification/Tests.thy ===== *)
theory Tests
  imports Testing
begin

text \<open>
  The tests of the scheduler (\<open>src/subscriber/scheduler.rs\<close>) and of the backoff
  (\<open>src/util/backoff.rs\<close>) as scripts over the model, with the assertions as steps that
  panic when they fail. Each passes whenever it is started, on any sleep that keeps its
  promise, at least a millisecond (the precision of a sleep) into a second.
\<close>

section \<open>The scheduler's tests\<close>

definition PERIOD :: nat where
  "PERIOD = 42 * nanos"

text \<open>The test's handle counts the ticks; its tick asks for the next one after as many periods.\<close>

definition test_tick :: "clock \<Rightarrow> (32 word \<times> unit handle, unit, u64 option) action" where
  "test_tick k = (\<lambda>(n, h).
     let count = n + 1 in (Inr (Some (as_secs (now_unix k + unat count * PERIOD))), (count, h)))"

record test_task =
  task_clock :: clock
  task_sleep :: "sleep option"
  task_count :: "32 word"
  task_handle :: "unit handle"

text \<open>
  The steps of a test: \<open>Enter\<close> clears the mocked waker and \<open>Poll\<close> polls the scheduler;
  \<open>HastenBy\<close> hastens the handle to the second so much after now; \<open>Advance\<close> moves the paused
  clock, which wakes the task if its sleep is over. The others are assertions.
\<close>

datatype test_step =
    Enter | Poll | Advance nat | HastenBy nat | AssertCount "32 word" | AssertWoken bool

definition advance_clock :: "nat \<Rightarrow> clock \<Rightarrow> clock" where
  "advance_clock d k = \<lparr>instant_now = instant_now k + int d, system_time_now = system_time_now k + d\<rparr>"

fun run_step ::
  "platform \<Rightarrow> (sleep \<Rightarrow> int \<Rightarrow> bool) \<Rightarrow> test_step \<Rightarrow> test_task \<Rightarrow> (unit, test_task) result" where
  "run_step P elapsed Enter t = Inr (t\<lparr>task_handle := (task_handle t)\<lparr>task_woken := False\<rparr>\<rparr>)"
| "run_step P elapsed Poll t =
     (case scheduler_poll P elapsed (task_clock t) True (test_tick (task_clock t))
         (task_sleep t, task_count t, task_handle t) of
        (Inl f, _) \<Rightarrow> Inl f
      | (Inr _, (s, n, h)) \<Rightarrow> Inr (t\<lparr>task_sleep := s, task_count := n, task_handle := h\<rparr>))"
| "run_step P elapsed (Advance d) t =
     (let k = advance_clock d (task_clock t); h = task_handle t
      in Inr (t\<lparr>task_clock := k, task_handle := h\<lparr>task_woken := task_woken h \<or>
           (case task_sleep t of Some s \<Rightarrow> elapsed s (instant_now k) | None \<Rightarrow> False)\<rparr>\<rparr>))"
| "run_step P elapsed (HastenBy d) t =
     Inr (t\<lparr>task_handle := hasten (as_secs (now_unix (task_clock t) + d)) (task_handle t)\<rparr>)"
| "run_step P elapsed (AssertCount n) t = (if task_count t = n then Inr t else Inl Panic)"
| "run_step P elapsed (AssertWoken b) t = (if task_woken (task_handle t) = b then Inr t else Inl Panic)"

fun run_test ::
  "platform \<Rightarrow> (sleep \<Rightarrow> int \<Rightarrow> bool) \<Rightarrow> test_step list \<Rightarrow> test_task \<Rightarrow> (unit, test_task) result" where
  "run_test P elapsed [] t = Inr t"
| "run_test P elapsed (s # ss) t = bind_result (run_step P elapsed s t) (run_test P elapsed ss)"

definition test_spawn :: "platform \<Rightarrow> clock \<Rightarrow> u64 option \<Rightarrow> (unit, test_task) result" where
  "test_spawn P k first_tick =
     (let h = \<lparr>thread_rng = (), next_tick = handle_next_tick first_tick, task_registered = False,
                task_woken = False\<rparr>
      in bind_result (scheduler_new P k h) (\<lambda>s.
         Inr \<lparr>task_clock = k, task_sleep = s, task_count = 0, task_handle = h\<rparr>))"

definition scheduler_test :: "platform \<Rightarrow> (sleep \<Rightarrow> int \<Rightarrow> bool) \<Rightarrow> clock \<Rightarrow> (unit, test_task) result" where
  "scheduler_test P elapsed k =
     bind_result (test_spawn P k (Some (as_secs (now_unix k) + 1))) (run_test P elapsed
       [Enter, Poll, AssertCount 0,
        AssertWoken False,
        Advance nanos, AssertWoken True,
        Enter, Poll, AssertCount 1, Poll, AssertCount 1,
        Advance PERIOD, AssertWoken True,
        Enter, Poll, AssertCount 2, Poll, AssertCount 2,
        Advance PERIOD, AssertWoken False,
        Enter, Poll, AssertCount 2,
        Advance PERIOD, AssertWoken True,
        Enter, Poll, AssertCount 3, Poll, AssertCount 3])"

definition hasten_test :: "platform \<Rightarrow> (sleep \<Rightarrow> int \<Rightarrow> bool) \<Rightarrow> clock \<Rightarrow> (unit, test_task) result" where
  "hasten_test P elapsed k =
     bind_result (test_spawn P k None) (run_test P elapsed
       [Enter, Poll, AssertCount 0,
        HastenBy 0, AssertWoken True,
        Enter, Poll, AssertCount 1, Poll, AssertCount 1,
        Advance (PERIOD div 2), AssertWoken False,
        Enter, Poll, AssertCount 1,
        HastenBy 0, AssertWoken True,
        Enter, Poll, AssertCount 2, Poll, AssertCount 2,
        HastenBy PERIOD, AssertWoken True,
        Advance PERIOD,
        Enter, Poll, AssertCount 3, Poll, AssertCount 3])"

section \<open>Time in whole seconds\<close>

text \<open>The clock \<open>m\<close> seconds after the start, \<open>f\<close> nanoseconds into the second \<open>n\<close>.\<close>

definition at :: "int \<Rightarrow> nat \<Rightarrow> nat \<Rightarrow> nat \<Rightarrow> clock" where
  "at K n f m = \<lparr>instant_now = int ((n + m) * nanos + f) + K, system_time_now = (n + m) * nanos + f\<rparr>"

lemma at_start:
  "steady K k \<Longrightarrow> k = at K (system_time_now k div nanos) (system_time_now k mod nanos) 0"
  by (cases k) (simp add: at_def steady_def)

definition second :: "nat \<Rightarrow> nat \<Rightarrow> u64" where
  "second n j = of_nat (n + j)"

lemma unat_second: "n < 2 ^ 61 \<Longrightarrow> j < 2 ^ 60 \<Longrightarrow> unat (second n j) = n + j"
  unfolding second_def by (simp only: unat_of_nat) simp

locale whole_seconds =
  fixes P :: platform and elapsed :: "sleep \<Rightarrow> int \<Rightarrow> bool" and K :: int and n f :: nat
  assumes platform: "times_representable P K" and sleeps: "sleep_spec elapsed"
    and start: "n < 2 ^ 61" and into: "10 ^ 6 \<le> f" "f < nanos"
begin

lemma deadline_second: "j < 2 ^ 60 \<Longrightarrow> deadline K (second n j) = int ((n + j) * nanos) + K"
  by (simp only: deadline_def from_secs_def unat_second [OF start])

lemma elapsed_at:
  assumes "j < 2 ^ 60"
  shows "elapsed (deadline K (second n j)) (instant_now (at K n f m)) \<longleftrightarrow> j \<le> m"
  unfolding deadline_second [OF assms]
proof
  assume "elapsed (int ((n + j) * nanos) + K) (instant_now (at K n f m))"
  from sleep_spec.not_early [OF sleeps this] have "int ((n + j) * nanos) \<le> int ((n + m) * nanos + f)"
    by (simp only: at_def clock.select_convs add_le_cancel_right)
  then have "(n + j) * nanos \<le> (n + m) * nanos + f" by (simp only: of_nat_le_iff)
  then have "j * nanos < (m + 1) * nanos" using into(2) by (simp add: algebra_simps)
  then show "j \<le> m" by simp
next
  assume "j \<le> m"
  then have "(n + j) * nanos + 10 ^ 6 \<le> (n + m) * nanos + f" using into(1) by (simp add: add_mono)
  then have "int ((n + j) * nanos + 10 ^ 6) \<le> int ((n + m) * nanos + f)" by (simp only: of_nat_le_iff)
  then show "elapsed (int ((n + j) * nanos) + K) (instant_now (at K n f m))"
    by (intro sleep_spec.precise [OF sleeps]) (simp add: at_def)
qed

lemma secs_at: "as_secs (now_unix (at K n f m) + c * nanos) = second n (m + c)"
proof -
  have "(n + m) * nanos + f + c * nanos = f + (n + (m + c)) * nanos" by (simp add: algebra_simps)
  then have "((n + m) * nanos + f + c * nanos) div nanos = n + (m + c)"
    using into(2) by (simp only: div_mult_self1) simp
  then show ?thesis by (simp only: as_secs_def now_unix_def at_def clock.select_convs second_def)
qed

lemma secs_now: "as_secs (now_unix (at K n f m)) = second n m"
  using secs_at [of m 0] by simp

lemma advance_at: "advance_clock (c * nanos) (at K n f m) = at K n f (m + c)"
  by (simp add: advance_clock_def at_def algebra_simps)

lemma steady_at: "m < 2 ^ 60 \<Longrightarrow> steady K (at K n f m)"
proof -
  assume "m < 2 ^ 60"
  then have "n + m + 1 \<le> 2 ^ 62" using start by simp
  then have "(n + m + 1) * nanos \<le> 2 ^ 62 * nanos" by (rule mult_le_mono1)
  then show ?thesis using into(2) by (simp add: steady_def at_def algebra_simps)
qed

lemma later_at: "i < 2 ^ 60 \<Longrightarrow> j < 2 ^ 60 \<Longrightarrow> second n i < second n j \<longleftrightarrow> i < j"
  by (simp only: word_less_nat_alt unat_second [OF start] nat_add_left_cancel_less)

lemma shown_at: "i < 2 ^ 60 \<Longrightarrow> second n i < u64_MAX"
proof -
  assume i: "i < 2 ^ 60"
  then have "n + i < unat u64_MAX" using start by simp
  with i show ?thesis by (simp only: word_less_nat_alt unat_second [OF start])
qed

lemma representable_at: "i < 2 ^ 60 \<Longrightarrow> representable P K (second n i)"
proof -
  assume i: "i < 2 ^ 60"
  then have "n + i < 2 ^ 63" using start by simp
  with i have "unat (second n i) < 2 ^ 63" by (simp only: unat_second [OF start])
  with platform show ?thesis by (simp add: times_representable_def)
qed

text \<open>A poll at a time before, at or after the one that the handle shows.\<close>

lemma poll_at:
  assumes "j < 2 ^ 59" "m < 2 ^ 59" "unat (c + 1) < 2 ^ 10"
    and s: "s = None \<or> (\<exists>i < 2 ^ 59. s = Some (deadline K (second n i)) \<and> j \<le> i)"
  shows "scheduler_poll P elapsed (at K n f m) True (test_tick (at K n f m))
      (s, c, \<lparr>thread_rng = (), next_tick = second n j, task_registered = b, task_woken = v\<rparr>) =
    (Inr StillPending,
      if j \<le> m
      then (Some (deadline K (second n (m + 42 * unat (c + 1)))), c + 1,
        \<lparr>thread_rng = (), next_tick = second n (m + 42 * unat (c + 1)), task_registered = True, task_woken = v\<rparr>)
      else (Some (deadline K (second n j)), c,
        \<lparr>thread_rng = (), next_tick = second n j, task_registered = True, task_woken = v\<rparr>))"
proof -
  let ?h = "\<lparr>thread_rng = (), next_tick = second n j, task_registered = b, task_woken = v\<rparr> :: unit handle"
  let ?later = "m + 42 * unat (c + 1)"
  have k: "steady K (at K n f m)" using assms(2) by (intro steady_at) simp
  have later: "as_secs (now_unix (at K n f m) + unat (c + 1) * PERIOD) = second n ?later"
    using secs_at [of m "42 * unat (c + 1)"] by (simp add: PERIOD_def ac_simps)
  have cover: "sleep_covers K s ?h"
    using s
  proof
    assume "\<exists>i < 2 ^ 59. s = Some (deadline K (second n i)) \<and> j \<le> i"
    then obtain i where i: "i < 2 ^ 59" "s = Some (deadline K (second n i))" "j \<le> i" by blast
    then have "second n j \<le> second n i"
      using later_at [of i j] assms(1) by (simp add: not_less [symmetric])
    with i(2) show ?thesis by (auto simp: sleep_covers_def intro: deadline_mono)
  qed (simp add: sleep_covers_def)
  have tick: "representable P K t"
    if "test_tick (at K n f m) (c, ?h\<lparr>task_registered := True\<rparr>) = (Inr (Some t), (c', h'))" for c' h' t
    using that later assms(2,3) by (auto simp: test_tick_def Let_def intro!: representable_at)
  have due: "elapsed (deadline K (next_tick ?h)) (instant_now (at K n f m)) \<longleftrightarrow> j \<le> m"
    using elapsed_at [of j m] assms(1) by simp
  have shown: "next_tick ?h \<noteq> u64_MAX" and rep: "representable P K (next_tick ?h)"
    using shown_at [of j] representable_at [of j] assms(1) by simp_all
  have "scheduler_poll P elapsed (at K n f m) True (test_tick (at K n f m)) (s, c, ?h) =
    (if elapsed (deadline K (next_tick ?h)) (instant_now (at K n f m))
     then run_tick K (test_tick (at K n f m)) (deadline K (next_tick ?h)) c (?h\<lparr>task_registered := True\<rparr>)
     else (Inr StillPending, (Some (deadline K (next_tick ?h)), c, ?h\<lparr>task_registered := True\<rparr>)))"
    by (rule scheduler_poll_due [OF k cover shown rep]) (rule tick)
  with due later show ?thesis by (simp add: run_tick_def test_tick_def Let_def)
qed

lemma poll_idle_at:
  assumes "m < 2 ^ 59"
  shows "scheduler_poll P elapsed (at K n f m) True (test_tick (at K n f m))
      (None, c, \<lparr>thread_rng = (), next_tick = u64_MAX, task_registered = b, task_woken = v\<rparr>) =
    (Inr StillPending, (None, c, \<lparr>thread_rng = (), next_tick = u64_MAX, task_registered = True, task_woken = v\<rparr>))"
proof -
  have "steady K (at K n f m)" using assms by (intro steady_at) simp
  from scheduler_poll_idle [OF this, of "\<lparr>thread_rng = (), next_tick = u64_MAX, task_registered = b, task_woken = v\<rparr>"
      P elapsed "test_tick (at K n f m)" c]
  show ?thesis by simp
qed

lemma poll_sleeping_at:
  assumes "j < 2 ^ 59" "m < 2 ^ 59" "unat (c + 1) < 2 ^ 10" "i < 2 ^ 59" "j \<le> i"
  shows "scheduler_poll P elapsed (at K n f m) True (test_tick (at K n f m))
      (Some (deadline K (second n i)), c,
       \<lparr>thread_rng = (), next_tick = second n j, task_registered = b, task_woken = v\<rparr>) =
    (Inr StillPending,
      if j \<le> m
      then (Some (deadline K (second n (m + 42 * unat (c + 1)))), c + 1,
        \<lparr>thread_rng = (), next_tick = second n (m + 42 * unat (c + 1)), task_registered = True, task_woken = v\<rparr>)
      else (Some (deadline K (second n j)), c,
        \<lparr>thread_rng = (), next_tick = second n j, task_registered = True, task_woken = v\<rparr>))"
  by (rule poll_at [OF assms(1-3)]) (use assms(4,5) in blast)

lemmas poll_awake_at = poll_at [where s = None, OF _ _ _ disjI1 [OF refl]]

lemma advances:
  "advance_clock nanos (at K n f m) = at K n f (m + 1)"
  "advance_clock PERIOD (at K n f m) = at K n f (m + 42)"
  "advance_clock (PERIOD div 2) (at K n f m) = at K n f (m + 21)"
  using advance_at [of 1 m] advance_at [of 42 m] advance_at [of 21 m] by (simp_all add: PERIOD_def)

lemma secs_later: "as_secs (now_unix (at K n f m) + PERIOD) = second n (m + 42)"
  using secs_at [of m 42] by (simp add: PERIOD_def)

lemma hasten_at:
  assumes "i < 2 ^ 60" "j < 2 ^ 60" "i < j"
  shows "hasten (second n i) \<lparr>thread_rng = (), next_tick = second n j, task_registered = True, task_woken = v\<rparr> =
    \<lparr>thread_rng = (), next_tick = second n i, task_registered = False, task_woken = True\<rparr>"
proof -
  have "second n i < second n j" using later_at [OF assms(1,2)] assms(3) by simp
  moreover from this have "\<not> second n j \<le> second n i" by (simp only: not_le)
  ultimately show ?thesis by (simp add: hasten_def wake_def min_def Let_def)
qed

lemma hasten_idle_at:
  assumes "i < 2 ^ 60"
  shows "hasten (second n i) \<lparr>thread_rng = (), next_tick = u64_MAX, task_registered = True, task_woken = v\<rparr> =
    \<lparr>thread_rng = (), next_tick = second n i, task_registered = False, task_woken = True\<rparr>"
  using shown_at [OF assms] by (simp add: hasten_def wake_def Let_def)

lemmas at_simps = advances advances [simplified] secs_now secs_later hasten_at hasten_idle_at poll_sleeping_at poll_awake_at
  poll_idle_at elapsed_at Let_def

lemma spawn_at:
  "j < 2 ^ 60 \<Longrightarrow> test_spawn P (at K n f 0) (Some (second n j)) =
     Inr \<lparr>task_clock = at K n f 0, task_sleep = Some (deadline K (second n j)), task_count = 0,
       task_handle = \<lparr>thread_rng = (), next_tick = second n j, task_registered = False, task_woken = False\<rparr>\<rparr>"
  "test_spawn P (at K n f 0) None =
     Inr \<lparr>task_clock = at K n f 0, task_sleep = None, task_count = 0,
       task_handle = \<lparr>thread_rng = (), next_tick = u64_MAX, task_registered = False, task_woken = False\<rparr>\<rparr>"
proof -
  have k: "steady K (at K n f 0)" by (rule steady_at) simp
  show "test_spawn P (at K n f 0) None =
     Inr \<lparr>task_clock = at K n f 0, task_sleep = None, task_count = 0,
       task_handle = \<lparr>thread_rng = (), next_tick = u64_MAX, task_registered = False, task_woken = False\<rparr>\<rparr>"
    by (simp add: test_spawn_def handle_next_tick_def scheduler_new_def decode_next_tick_def Let_def)
  assume j: "j < 2 ^ 60"
  then show "test_spawn P (at K n f 0) (Some (second n j)) =
     Inr \<lparr>task_clock = at K n f 0, task_sleep = Some (deadline K (second n j)), task_count = 0,
       task_handle = \<lparr>thread_rng = (), next_tick = second n j, task_registered = False, task_woken = False\<rparr>\<rparr>"
    using shown_at [OF j] representable_at [OF j]
    by (simp add: test_spawn_def handle_next_tick_def scheduler_new_def decode_next_tick_steady [OF k] Let_def)
qed

lemma scheduler_test_at: "scheduler_test P elapsed (at K n f 0) \<noteq> Inl e"
proof -
  have first: "second n 0 + 1 = second n 1" by (simp add: second_def)
  show ?thesis
    unfolding scheduler_test_def secs_now first
    by (simp add: spawn_at at_simps del: One_nat_def)
qed

lemma hasten_test_at: "hasten_test P elapsed (at K n f 0) \<noteq> Inl e"
  unfolding hasten_test_def by (simp add: spawn_at at_simps)

end

section \<open>The backoff's test\<close>

definition assert_that :: "bool \<Rightarrow> (unit, unit) result" where
  "assert_that b = (if b then Inr () else Inl Panic)"

text \<open>\<open>util::first(backoff, future::ready(())).await\<close>\<close>

definition first_done :: "(sleep \<Rightarrow> int \<Rightarrow> bool) \<Rightarrow> clock \<Rightarrow> backoff \<Rightarrow> (unit, unit + unit) result" where
  "first_done elapsed k b =
     (case first_poll (\<lambda>b. (Inr (if backoff_poll elapsed k b then Ready () else Pending), b))
         (ret (Ready ())) (b, ()) of
        (Inl f, _) \<Rightarrow> Inl f | (Inr (Ready x), _) \<Rightarrow> Inr x | (Inr Pending, _) \<Rightarrow> Inl Diverge)"

datatype backoff_step = Pass nat | Increase | Reset | WaitSecs u64 | IsDone | NotDone

fun run_backoff_step ::
  "platform \<Rightarrow> (sleep \<Rightarrow> int \<Rightarrow> bool) \<Rightarrow> backoff_step \<Rightarrow> clock \<times> backoff \<Rightarrow> (unit, clock \<times> backoff) result" where
  "run_backoff_step P elapsed (Pass d) (k, b) = Inr (advance_clock d k, b)"
| "run_backoff_step P elapsed Increase (k, b) = bind_result (increase P True k b) (\<lambda>b. Inr (k, b))"
| "run_backoff_step P elapsed Reset (k, b) = Inr (k, backoff_reset b)"
| "run_backoff_step P elapsed (WaitSecs s) (k, b) = bind_result (assert_that (wait_secs b = s)) (\<lambda>_. Inr (k, b))"
| "run_backoff_step P elapsed IsDone (k, b) =
     bind_result (bind_result (first_done elapsed k b) unwrap_left) (\<lambda>_. Inr (k, b))"
| "run_backoff_step P elapsed NotDone (k, b) =
     bind_result (bind_result (first_done elapsed k b) unwrap_right) (\<lambda>_. Inr (k, b))"

fun run_backoff ::
  "platform \<Rightarrow> (sleep \<Rightarrow> int \<Rightarrow> bool) \<Rightarrow> backoff_step list \<Rightarrow> clock \<times> backoff \<Rightarrow> (unit, clock \<times> backoff) result" where
  "run_backoff P elapsed [] x = Inr x"
| "run_backoff P elapsed (s # ss) x = bind_result (run_backoff_step P elapsed s x) (run_backoff P elapsed ss)"

text \<open>The body of the loop, which the test runs twice.\<close>

definition backoff_round :: "backoff_step list" where
  "backoff_round =
     [Pass (42 * nanos), WaitSecs 0, IsDone,
      Increase, WaitSecs 1, NotDone, Pass nanos, Pass (2 * 10 ^ 6), IsDone,
      Increase, WaitSecs 2, NotDone, Pass nanos, NotDone, Pass nanos, IsDone,
      Increase, WaitSecs 4, NotDone, Pass (2 * nanos), NotDone, Pass (2 * nanos), IsDone,
      Reset]"

definition backoff_test :: "platform \<Rightarrow> (sleep \<Rightarrow> int \<Rightarrow> bool) \<Rightarrow> clock \<Rightarrow> (unit, clock \<times> backoff) result" where
  "backoff_test P elapsed k = run_backoff P elapsed (backoff_round @ backoff_round) (k, backoff_new)"

lemma first_done_eq: "first_done elapsed k b = Inr (if backoff_poll elapsed k b then Inl () else Inr ())"
  by (simp add: first_done_def first_poll_def ret_def)

lemma run_backoff_append:
  "run_backoff P elapsed (xs @ ys) x = bind_result (run_backoff P elapsed xs x) (run_backoff P elapsed ys)"
proof (induction xs arbitrary: x)
  case (Cons s xs)
  then show ?case by (cases "run_backoff_step P elapsed s x") simp_all
qed simp

text \<open>A round starts from a backoff that does not wait, and ends with one.\<close>

lemma backoff_round_at:
  assumes "sleep_spec elapsed" "wait_secs b = 0"
    and "min_instant P \<le> instant_now k" "instant_now k + 100 * 10 ^ 9 \<le> max_instant P"
  shows "\<exists>b' k'. run_backoff P elapsed backoff_round (k, b) = Inr (k', b') \<and> wait_secs b' = 0 \<and>
    instant_now k' = instant_now k + 49 * 10 ^ 9 + 2 * 10 ^ 6"
proof -
  have early: "elapsed d t \<longleftrightarrow> False" if "t < d" for d t
    using sleep_spec.not_early [OF assms(1), of d t] that by auto
  have late: "elapsed d t \<longleftrightarrow> True" if "d + 10 ^ 6 \<le> t" for d t
    using sleep_spec.precise [OF assms(1) that] by simp
  have mul: "u64_mul True 1 2 = (Inr 2 :: (unit, u64) result)" "u64_mul True 2 2 = (Inr 4 :: (unit, u64) result)"
    by (simp_all add: u64_mul_def)
  have first: "(increase P True k b :: (unit, backoff) result) =
      Inr (Some \<lparr>bo_sleep = instant_now k + 10 ^ 9, bo_wait = 1\<rparr>)"
    if "min_instant P \<le> instant_now k" "instant_now k + 10 ^ 9 \<le> max_instant P" for k
    using assms(2) that
    by (cases b) (simp_all add: increase_def wait_secs_def from_secs_def INITIAL_WAIT_def instant_checked_def)
  have doubled: "(increase P True k (Some \<lparr>bo_sleep = d, bo_wait = 1\<rparr>) :: (unit, backoff) result) =
      Inr (Some \<lparr>bo_sleep = d + 2 * 10 ^ 9, bo_wait = 2\<rparr>)"
    "(increase P True k (Some \<lparr>bo_sleep = d, bo_wait = 2\<rparr>) :: (unit, backoff) result) =
      Inr (Some \<lparr>bo_sleep = d + 4 * 10 ^ 9, bo_wait = 4\<rparr>)"
    if "min_instant P \<le> d" "d + 4 * 10 ^ 9 \<le> max_instant P" for k d
    using that by (simp_all add: increase_def mul from_secs_def instant_checked_def)
  have idle: "backoff_poll elapsed k b" for k
    using assms(2) by (simp add: backoff_poll_def wait_secs_def split: option.splits)
  show ?thesis
    using assms(2-4)
    by (simp add: backoff_round_def first_done_eq assert_that_def unwrap_left_def unwrap_right_def advance_clock_def
        first doubled idle early late wait_secs_def [of "Some _"] backoff_poll_def [of _ _ "Some _"] backoff_reset_def)
qed

section \<open>Properties\<close>

text \<open>A sleep that is always as late as it may be.\<close>

definition late_sleep :: "sleep \<Rightarrow> int \<Rightarrow> bool" where
  "late_sleep d now \<longleftrightarrow> d + 10 ^ 6 \<le> now"

interpretation late_sleep: sleep_spec late_sleep
  by unfold_locales (auto simp: late_sleep_def)

interpretation some_start: whole_seconds wide_platform late_sleep 0 1700000000 "2 * 10 ^ 6"
  by unfold_locales (simp_all add: wide_platform late_sleep.sleep_spec_axioms)

lemma scheduler_test_late:
  "scheduler_test wide_platform late_sleep \<lparr>instant_now = 0, system_time_now = 0\<rparr> = Inl Panic"
proof -
  have "steady 0 \<lparr>instant_now = 0, system_time_now = 0\<rparr>" by (simp add: steady_def)
  moreover have "representable wide_platform 0 1" using wide_platform by (simp add: times_representable_def)
  ultimately have decode: "decode_next_tick wide_platform \<lparr>instant_now = 0, system_time_now = 0\<rparr> h =
      (Inr (Some (10 ^ 9)) :: (unit, int option) result)" if "next_tick h = 1" for h :: "unit handle"
    using decode_next_tick_steady [of 0 "\<lparr>instant_now = 0, system_time_now = 0\<rparr>" h wide_platform] that
    by (simp add: u64_MAX_def deadline_def from_secs_def)
  show ?thesis
    by (simp add: scheduler_test_def test_spawn_def as_secs_def now_unix_def handle_next_tick_def scheduler_new_def
        decode scheduler_poll_def late_sleep_def advance_clock_def Let_def)
qed

text \<open>
  The scheduler passes its tests. Started at any time that is at least a millisecond into a
  second, with any sleep that is not early and at most a millisecond late, no assertion of the
  tests \<open>scheduler\<close> and \<open>hasten\<close> fails: the ticks come on their second and not before, a
  hastening wakes the task and brings the tick forward. Started on the full second, the first
  one can fail, with a sleep that is late.
\<close>

theorem scheduler_tests_pass:
  assumes "times_representable P K" "sleep_spec elapsed" "steady K k" "system_time_now k < 2 ^ 61 * nanos"
    and "10 ^ 6 \<le> system_time_now k mod nanos"
  shows "(\<exists>t. scheduler_test P elapsed k = Inr t) \<and> (\<exists>t. hasten_test P elapsed k = Inr t) \<and>
    scheduler_test wide_platform late_sleep \<lparr>instant_now = 0, system_time_now = 0\<rparr> = Inl Panic"
proof -
  let ?n = "system_time_now k div nanos" and ?f = "system_time_now k mod nanos"
  have "?n < 2 ^ 61" using less_mult_imp_div_less [OF assms(4)] .
  then have seconds: "whole_seconds P elapsed K ?n ?f"
    by (intro whole_seconds.intro) (use assms in simp_all)
  have k: "k = at K ?n ?f 0" by (rule at_start [OF assms(3)])
  have ends: "\<exists>t. r = Inr t" if "\<And>e. r \<noteq> Inl e" for r :: "(unit, test_task) result"
    using that by (cases r) auto
  have "\<exists>t. scheduler_test P elapsed k = Inr t"
    by (subst k) (rule ends, rule whole_seconds.scheduler_test_at [OF seconds])
  moreover have "\<exists>t. hasten_test P elapsed k = Inr t"
    by (subst k) (rule ends, rule whole_seconds.hasten_test_at [OF seconds])
  ultimately show ?thesis using scheduler_test_late by blast
qed

theorem scheduler_tests_pass_witness:
  "\<exists>t. scheduler_test wide_platform late_sleep
     \<lparr>instant_now = 1700000000002000000, system_time_now = 1700000000002000000\<rparr> = Inr t"
  using scheduler_tests_pass [OF wide_platform late_sleep.sleep_spec_axioms,
      of "\<lparr>instant_now = 1700000000002000000, system_time_now = 1700000000002000000\<rparr>"]
  by (simp add: steady_def)

text \<open>
  The backoff passes its test: started at any time, with any sleep that is not early and at
  most a millisecond late, it waits one, two and four seconds, neither shorter nor longer, and
  after a reset it does so again.
\<close>

theorem backoff_test_passes:
  assumes "sleep_spec elapsed" "min_instant P \<le> instant_now k"
    and "instant_now k + 200 * 10 ^ 9 \<le> max_instant P"
  shows "\<exists>k' b. backoff_test P elapsed k = Inr (k', b) \<and> wait_secs b = 0"
proof -
  obtain k1 b1 where one: "run_backoff P elapsed backoff_round (k, backoff_new) = Inr (k1, b1)" "wait_secs b1 = 0"
    "instant_now k1 = instant_now k + 49 * 10 ^ 9 + 2 * 10 ^ 6"
    using backoff_round_at [OF assms(1), of backoff_new P k] assms(2,3)
    by (auto simp: wait_secs_def backoff_new_def)
  obtain k2 b2 where "run_backoff P elapsed backoff_round (k1, b1) = Inr (k2, b2)" "wait_secs b2 = 0"
    using backoff_round_at [OF assms(1) one(2), of P k1] assms(2,3) one(3) by auto
  with one(1) show ?thesis by (simp add: backoff_test_def run_backoff_append)
qed

theorem backoff_test_passes_witness:
  "\<exists>k' b. backoff_test wide_platform late_sleep \<lparr>instant_now = 7, system_time_now = 0\<rparr> = Inr (k', b) \<and>
     wait_secs b = 0"
  using backoff_test_passes [OF late_sleep.sleep_spec_axioms, of wide_platform "\<lparr>instant_now = 7, system_time_now = 0\<rparr>"]
  by (simp add: wide_platform_def)

end
