(* ===== verification/Flow.thy ===== *)
theory Flow
  imports InTime Tests
begin

text \<open>
  The tests of the subscriber (\<open>src/subscriber.rs\<close>): a hub and a subscriber that talk to each
  other over in-memory connections while the clock of tokio is paused. A test is an action on
  the state of the subscriber, the hub's side a part of the script, an assertion that fails a
  panic. What tokio does while a test waits is a parameter: it polls the renewal task, and, as its
  documentation says, it moves the paused clock to the next timer when there is no work to do.
\<close>

section \<open>What the tests use\<close>

definition TOPIC :: string where
  "TOPIC = ''http://example.com/feed.xml''"

definition HUB :: string where
  "HUB = ''http://example.com/hub''"

definition CONTENT :: "u8 list" where
  "CONTENT = as_bytes ''<feed><title>Example feed</title></feed>''"

definition MARGIN :: nat where
  "MARGIN = 42 * nanos"

definition DELAY :: nat where
  "DELAY = 10 ^ 6"

definition CONTENT_TYPE :: string where
  "CONTENT_TYPE = ''content-type''"

definition APPLICATION_ATOM_XML :: string where
  "APPLICATION_ATOM_XML = ''application/atom+xml''"

text \<open>The form that \<open>serde\<close> derives the reader of; the callback is parsed as a URI.\<close>

definition form_of_fields :: "('u, 'a, 'p) uri_crate \<Rightarrow> (string \<times> string) list \<Rightarrow> 'u form option" where
  "form_of_fields U fs =
     (case field ''hub.mode'' fs of
        None \<Rightarrow> None
      | Some mode \<Rightarrow>
          (if mode = ''subscribe'' then
             (case (field ''hub.callback'' fs, field ''hub.topic'' fs, field ''hub.secret'' fs) of
                (Some cb, Some topic, Some secret) \<Rightarrow>
                  map_option (\<lambda>cb. SubscribeForm cb topic secret) (uri_parse U cb)
              | _ \<Rightarrow> None)
           else if mode = ''unsubscribe'' then
             (case (field ''hub.callback'' fs, field ''hub.topic'' fs) of
                (Some cb, Some topic) \<Rightarrow> map_option (\<lambda>cb. UnsubscribeForm cb topic) (uri_parse U cb)
              | _ \<Rightarrow> None)
           else None))"

section \<open>The state of a test\<close>

text \<open>
  The clock, the subscriber with its end of the channel of connections, the renewal task, the
  database, and the world with the spawned requests, which the hub's listener is yet to
  receive. The forms are those the hub has read so far.
\<close>

record ('c, 'g, 'u, 'b, 'm) flow =
  flow_clock :: clock
  flow_acceptor :: "(channel, duplex_end) acceptor"
  flow_task :: "sleep option option"
  flow_db :: 'c
  flow_world :: "('g, 'u, 'b, 'm) world"
  flow_forms :: "'u form list"

text \<open>\<open>assert!\<close>, and \<open>unwrap\<close> of what an action on the database and the world returns.\<close>

definition asserts :: "bool \<Rightarrow> ('s, unit, unit) action" where
  "asserts b = lift (assert_that b)"

definition unwrapped ::
  "('c \<times> ('g, 'u, 'b, 'm) world, 'e, 'r) action \<Rightarrow> (('c, 'g, 'u, 'b, 'm) flow, unit, 'r) action" where
  "unwrapped m = (\<lambda>fl. case m (flow_db fl, flow_world fl) of
     (r, (c, w)) \<Rightarrow> (case r of Inr a \<Rightarrow> Inr a | Inl Diverge \<Rightarrow> Inl Diverge | Inl _ \<Rightarrow> Inl Panic,
       fl\<lparr>flow_db := c, flow_world := w\<rparr>))"

section \<open>The runtime\<close>

text \<open>
  The ways a test waits for tokio: \<open>tokio::time::advance\<close> by a duration, something of \<open>hyper\<close>'s that
  is on its way, and until a condition holds, or the timeout panics.
\<close>

record 's runtime =
  rt_advance :: "nat \<Rightarrow> ('s, unit, unit) action"
  rt_await :: "('s, unit, unit) action"
  rt_until :: "('s \<Rightarrow> bool) \<Rightarrow> ('s, unit, unit) action"

text \<open>The renewal task is ready when it has been woken or its sleep is over; and what a poll of it does.\<close>

definition task_ready :: "(sleep \<Rightarrow> int \<Rightarrow> bool) \<Rightarrow> ('c, 'g, 'u, 'b, 'm) flow \<Rightarrow> bool" where
  "task_ready elapsed fl \<longleftrightarrow> task_woken (flow_world fl) \<or>
     (case flow_task fl of Some (Some d) \<Rightarrow> elapsed d (instant_now (flow_clock fl)) | _ \<Rightarrow> False)"

definition poll_task ::
  "platform \<Rightarrow> (sleep \<Rightarrow> int \<Rightarrow> bool) \<Rightarrow> ('c, 'pe) pool \<Rightarrow> ('c, 'e, ('g, 'u, 'b, 'm) world) connection \<Rightarrow>
    ('u, 'a, 'p, 'g) crates \<Rightarrow> bool \<Rightarrow> 'u service \<Rightarrow> ('c, 'g, 'u, 'b, 'm) flow \<Rightarrow> ('c, 'g, 'u, 'b, 'm) flow" where
  "poll_task P elapsed get D L debug svc fl =
     (case renewal_task P elapsed get D L debug svc (flow_clock fl)
         (flow_task fl, flow_db fl, (flow_world fl)\<lparr>task_woken := False\<rparr>) of
        (task, c, w) \<Rightarrow> fl\<lparr>flow_task := task, flow_db := c, flow_world := w\<rparr>)"

abbreviation moved :: "nat \<Rightarrow> ('c, 'g, 'u, 'b, 'm) flow \<Rightarrow> ('c, 'g, 'u, 'b, 'm) flow" where
  "moved d fl \<equiv> fl\<lparr>flow_clock := advance_clock d (flow_clock fl)\<rparr>"

text \<open>
  What the runtime may do while the clock is paused: it polls the renewal task when that is ready;
  when it is not, there may be no work to do, and then the clock moves to the next timer,
  which is the sleep of the renewal task, the only one.
\<close>

inductive idles :: "(sleep \<Rightarrow> int \<Rightarrow> bool) \<Rightarrow> ('c, 'g, 'u, 'b, 'm) flow \<Rightarrow> ('c, 'g, 'u, 'b, 'm) flow \<Rightarrow> bool"
  for elapsed where
  "\<not> task_ready elapsed fl \<Longrightarrow> flow_task fl = Some (Some d) \<Longrightarrow>
   elapsed d (instant_now (flow_clock fl) + int n) \<Longrightarrow>
   \<forall>k < n. \<not> elapsed d (instant_now (flow_clock fl) + int k) \<Longrightarrow> idles elapsed fl (moved n fl)"

inductive runtime_step ::
  "platform \<Rightarrow> (sleep \<Rightarrow> int \<Rightarrow> bool) \<Rightarrow> ('c, 'pe) pool \<Rightarrow> ('c, 'e, ('g, 'u, 'b, 'm) world) connection \<Rightarrow>
    ('u, 'a, 'p, 'g) crates \<Rightarrow> bool \<Rightarrow> 'u service \<Rightarrow>
    ('c, 'g, 'u, 'b, 'm) flow \<Rightarrow> ('c, 'g, 'u, 'b, 'm) flow \<Rightarrow> bool"
  for P elapsed get D L debug svc where
  polls: "task_ready elapsed fl \<Longrightarrow>
     runtime_step P elapsed get D L debug svc fl (poll_task P elapsed get D L debug svc fl)"
| idle: "idles elapsed fl fl' \<Longrightarrow> runtime_step P elapsed get D L debug svc fl fl'"

text \<open>
  What the tests rely on. To advance moves the clock by exactly the duration and yields, so the
  runtime is not idle; the task may be polled or not. To wait for \<open>hyper\<close> the runtime may do
  anything of the above. Waiting for a condition ends when it holds; the timeout, which is a
  sleep in real time, does not strike before a task that is ready has been polled.
\<close>

locale tokio =
  fixes T :: "('c, 'g, 'u, 'b, 'm) flow runtime" and P :: platform and elapsed :: "sleep \<Rightarrow> int \<Rightarrow> bool"
    and get :: "('c, 'pe) pool" and D :: "('c, 'e, ('g, 'u, 'b, 'm) world) connection"
    and L :: "('u, 'a, 'p, 'g) crates" and debug :: bool and svc :: "'u service"
  assumes advance: "rt_advance T d fl = (r, fl') \<Longrightarrow>
      r = Inr () \<and> (runtime_step P elapsed get D L debug svc)\<^sup>*\<^sup>* (moved d fl) fl' \<and>
      flow_clock fl' = advance_clock d (flow_clock fl)"
    and await: "rt_await T fl = (r, fl') \<Longrightarrow>
      r = Inr () \<and> (runtime_step P elapsed get D L debug svc)\<^sup>*\<^sup>* fl fl'"
    and until: "rt_until T c fl = (r, fl') \<Longrightarrow>
      (runtime_step P elapsed get D L debug svc)\<^sup>*\<^sup>* fl fl' \<and>
      (if c fl' then r = Inr ()
       else r = Inl Panic \<and> (task_ready elapsed fl \<longrightarrow>
         (runtime_step P elapsed get D L debug svc)\<^sup>*\<^sup>* (poll_task P elapsed get D L debug svc fl) fl'))"

text \<open>The state after a poll of the task, if it is ready.\<close>

definition settled ::
  "platform \<Rightarrow> (sleep \<Rightarrow> int \<Rightarrow> bool) \<Rightarrow> ('c, 'pe) pool \<Rightarrow> ('c, 'e, ('g, 'u, 'b, 'm) world) connection \<Rightarrow>
    ('u, 'a, 'p, 'g) crates \<Rightarrow> bool \<Rightarrow> 'u service \<Rightarrow> ('c, 'g, 'u, 'b, 'm) flow \<Rightarrow> ('c, 'g, 'u, 'b, 'm) flow" where
  "settled P elapsed get D L debug svc fl =
     (if task_ready elapsed fl then poll_task P elapsed get D L debug svc fl else fl)"

text \<open>
  At the time \<open>k\<close> there is no work to do while a test waits for \<open>hyper\<close>: if the clock can move to the
  next timer, it does, and what that timer wakes is polled.
\<close>

definition idle_at ::
  "clock \<Rightarrow> ('c, 'g, 'u, 'b, 'm) flow runtime \<Rightarrow> platform \<Rightarrow> (sleep \<Rightarrow> int \<Rightarrow> bool) \<Rightarrow> ('c, 'pe) pool \<Rightarrow>
    ('c, 'e, ('g, 'u, 'b, 'm) world) connection \<Rightarrow> ('u, 'a, 'p, 'g) crates \<Rightarrow> bool \<Rightarrow> 'u service \<Rightarrow> bool" where
  "idle_at k T P elapsed get D L debug svc \<longleftrightarrow> (\<forall>fl fl'. flow_clock fl = k \<longrightarrow>
     idles elapsed (settled P elapsed get D L debug svc fl) fl' \<longrightarrow>
     (runtime_step P elapsed get D L debug svc)\<^sup>*\<^sup>* (poll_task P elapsed get D L debug svc fl') (snd (rt_await T fl)))"

text \<open>A runtime that polls the task as soon as it is ready, and is never idle.\<close>

definition eager_runtime ::
  "platform \<Rightarrow> (sleep \<Rightarrow> int \<Rightarrow> bool) \<Rightarrow> ('c, 'pe) pool \<Rightarrow> ('c, 'e, ('g, 'u, 'b, 'm) world) connection \<Rightarrow>
    ('u, 'a, 'p, 'g) crates \<Rightarrow> bool \<Rightarrow> 'u service \<Rightarrow> ('c, 'g, 'u, 'b, 'm) flow runtime" where
  "eager_runtime P elapsed get D L debug svc =
     (let settle = settled P elapsed get D L debug svc
      in \<lparr>rt_advance = (\<lambda>d fl. (Inr (), settle (moved d fl))),
          rt_await = (\<lambda>fl. (Inr (), settle fl)),
          rt_until = (\<lambda>c fl. if c fl then (Inr (), fl)
            else (if c (settle fl) then Inr () else Inl Panic, settle fl))\<rparr>)"

lemma settled_steps: "(runtime_step P elapsed get D L debug svc)\<^sup>*\<^sup>* fl (settled P elapsed get D L debug svc fl)"
  by (auto simp: settled_def intro: runtime_step.polls)

lemma poll_task_clock [simp]: "flow_clock (poll_task P elapsed get D L debug svc fl) = flow_clock fl"
  by (simp add: poll_task_def split: prod.split)

lemma settled_clock [simp]: "flow_clock (settled P elapsed get D L debug svc fl) = flow_clock fl"
  by (simp add: settled_def)

interpretation eager: tokio "eager_runtime P elapsed get D L debug svc" P elapsed get D L debug svc
  for P elapsed get D L debug svc
  using settled_steps [of P elapsed get D L debug svc]
  by unfold_locales (auto simp: eager_runtime_def settled_def Let_def split: if_splits)

section \<open>The subscriber's side\<close>

text \<open>The hub's client connects; the stream of updates is polled, which accepts connections.\<close>

definition connects :: "(('c, 'g, 'u, 'b, 'm) flow, unit, unit) action" where
  "connects = (\<lambda>fl. let this = flow_acceptor fl in
     case connector_call (incoming this) of
       (r, ch) \<Rightarrow> (case r of Inl _ \<Rightarrow> Inl Panic | Inr _ \<Rightarrow> Inr (),
         fl\<lparr>flow_acceptor := this\<lparr>incoming := ch\<rparr>\<rparr>))"

definition poll_subscriber ::
  "platform \<Rightarrow> (sleep \<Rightarrow> int \<Rightarrow> bool) \<Rightarrow> bool \<Rightarrow>
    (('c, 'g, 'u, 'b, 'm) flow, unit, (unit + ('b, 'm, headers) update_data) option poll) action" where
  "poll_subscriber P elapsed debug = (\<lambda>fl.
     case subscriber_poll_next listener_poll_next elapsed P debug (flow_clock fl) 1
         (flow_acceptor fl, flow_world fl) of
       (r, (this, w)) \<Rightarrow> (r, fl\<lparr>flow_acceptor := this, flow_world := w\<rparr>))"

definition no_update :: "platform \<Rightarrow> (sleep \<Rightarrow> int \<Rightarrow> bool) \<Rightarrow> bool \<Rightarrow> (('c, 'g, 'u, 'b, 'm) flow, unit, unit) action" where
  "no_update P elapsed debug = and_then (poll_subscriber P elapsed debug) (\<lambda>polled.
     case polled of Pending \<Rightarrow> ret () | Ready _ \<Rightarrow> lift (Inl Panic))"

text \<open>The answer to a request while the stream of updates is polled and stays pending.\<close>

definition exchange ::
  "('c, 'g, 'u, 'b, 'm) flow runtime \<Rightarrow> platform \<Rightarrow> (sleep \<Rightarrow> int \<Rightarrow> bool) \<Rightarrow> ('c, 'pe) pool \<Rightarrow> ('c, 'e, ('g, 'u, 'b, 'm) world) connection \<Rightarrow>
    ('u, 'a, 'p, 'g) crates \<Rightarrow> 'm mac_crate \<Rightarrow> features \<Rightarrow> bool \<Rightarrow> 'u service \<Rightarrow> ('u, 'b) server_request \<Rightarrow>
    (('c, 'g, 'u, 'b, 'm) flow, unit, response) action" where
  "exchange T P elapsed get D L M F debug svc req =
     and_then connects (\<lambda>_.
     and_then (no_update P elapsed debug) (\<lambda>_.
     and_then (\<lambda>fl. unwrapped (serve get D L M F debug svc (as_secs (now_unix (flow_clock fl))) req) fl) (\<lambda>resp.
     and_then (rt_await T) (\<lambda>_. ret resp))))"

section \<open>The hub's side\<close>

text \<open>
  \<open>accept_request\<close> on a request that has arrived: the hub checks where it is sent and what it
  is, reads the form, answers after a delay and serves the connection to its end; and on the first
  of the spawned requests, once there is one, or the timeout panics.
\<close>

definition accept_form ::
  "('c, 'g, 'u, 'b, 'm) flow runtime \<Rightarrow> ('u, 'a, 'p, 'g) crates \<Rightarrow> string \<Rightarrow> 'u response_future \<Rightarrow>
    (('c, 'g, 'u, 'b, 'm) flow, unit, 'u form) action" where
  "accept_form T L path fut =
     (let req = future_request fut
      in and_then (lift (unwrap (path_and_query (uri_of L) (request_uri req)))) (\<lambda>pq.
         and_then (asserts (pq_as_str (uri_of L) pq = path)) (\<lambda>_.
         and_then (asserts (request_content_type req = APPLICATION_WWW_FORM_URLENCODED)) (\<lambda>_.
         and_then (lift (unwrap (form_of_fields (uri_of L) (form_parse (form_of L) (request_body req))))) (\<lambda>form.
         and_then (\<lambda>fl. (Inr (), fl\<lparr>flow_forms := flow_forms fl @ [form]\<rparr>)) (\<lambda>_.
         and_then (rt_advance T DELAY) (\<lambda>_.
         and_then (rt_await T) (\<lambda>_.
         ret form))))))))"

definition accept_request ::
  "('c, 'g, 'u, 'b, 'm) flow runtime \<Rightarrow> ('u, 'a, 'p, 'g) crates \<Rightarrow> string \<Rightarrow>
    (('c, 'g, 'u, 'b, 'm) flow, unit, 'u form) action" where
  "accept_request T L path =
     and_then (rt_until T (\<lambda>fl. spawned (flow_world fl) \<noteq> [])) (\<lambda>_ fl.
     case spawned (flow_world fl) of
       [] \<Rightarrow> (Inl Panic, fl)
     | fut # rest \<Rightarrow> accept_form T L path fut
         (fl\<lparr>flow_world := (flow_world fl)\<lparr>spawned := rest\<rparr>\<rparr>))"

text \<open>The hub's listener is pending.\<close>

definition no_request :: "(('c, 'g, 'u, 'b, 'm) flow, unit, unit) action" where
  "no_request = (\<lambda>fl. asserts (spawned (flow_world fl) = []) fl)"

text \<open>The hub verifies an intent: the callback echoes the challenge.\<close>

definition verify_intent_at ::
  "('c, 'g, 'u, 'b, 'm) flow runtime \<Rightarrow> platform \<Rightarrow> (sleep \<Rightarrow> int \<Rightarrow> bool) \<Rightarrow> ('c, 'pe) pool \<Rightarrow> ('c, 'e, ('g, 'u, 'b, 'm) world) connection \<Rightarrow>
    ('u, 'a, 'p, 'g) crates \<Rightarrow> 'm mac_crate \<Rightarrow> features \<Rightarrow> bool \<Rightarrow> 'u service \<Rightarrow> 'b \<Rightarrow> 'u \<Rightarrow> verify \<Rightarrow>
    (('c, 'g, 'u, 'b, 'm) flow, unit, unit) action" where
  "verify_intent_at T P elapsed get D L M F debug svc no_body cb query =
     and_then (lift (unwrap (form_to_string (form_of L) (verify_fields query)))) (\<lambda>q.
     and_then (lift (unwrap (uri_parse (uri_of L) (uri_display (uri_of L) cb @ ''?'' @ q)))) (\<lambda>u.
     and_then (exchange T P elapsed get D L M F debug svc
       \<lparr>req_uri = u, req_headers = [], req_body = no_body\<rparr>) (\<lambda>resp.
     and_then (asserts (resp_status resp = OK)) (\<lambda>_.
     asserts (resp_body resp = verify_challenge query)))))"

text \<open>
  \<open>hyper::body::to_bytes\<close> is a parameter, for which an error is \<open>None\<close>: it is the data of a body, read
  until its end.
\<close>

inductive reads_to ::
  "'m mac_crate \<Rightarrow> 'd buf_ops \<Rightarrow> ('b, 'd, 'x, 'h) body_ops \<Rightarrow> ('d \<Rightarrow> u8 list) \<Rightarrow>
    ('b, 'm) content \<Rightarrow> u8 list \<Rightarrow> bool"
  for M U B contents where
  ended: "poll_data M U B c = (Inr (Ready None), c') \<Longrightarrow> reads_to M U B contents c []"
| waits: "poll_data M U B c = (Inr Pending, c') \<Longrightarrow> reads_to M U B contents c' bs \<Longrightarrow>
     reads_to M U B contents c bs"
| chunk: "poll_data M U B c = (Inr (Ready (Some (Inr d))), c') \<Longrightarrow> reads_to M U B contents c' bs \<Longrightarrow>
     reads_to M U B contents c (contents d @ bs)"

definition collects ::
  "'m mac_crate \<Rightarrow> 'd buf_ops \<Rightarrow> ('b, 'd, 'x, 'h) body_ops \<Rightarrow> ('d \<Rightarrow> u8 list) \<Rightarrow>
    (('b, 'm) content \<Rightarrow> u8 list option) \<Rightarrow> bool" where
  "collects M U B contents to_bytes \<longleftrightarrow> (\<forall>c bs. reads_to M U B contents c bs \<longrightarrow> to_bytes c = Some bs)"

text \<open>An instance that polls until the end.\<close>

partial_function (option) read_all ::
  "'m mac_crate \<Rightarrow> 'd buf_ops \<Rightarrow> ('b, 'd, 'x, 'h) body_ops \<Rightarrow> ('d \<Rightarrow> u8 list) \<Rightarrow> ('b, 'm) content \<Rightarrow> u8 list option" where
  "read_all M U B contents c =
     (case poll_data M U B c of
        (Inr Pending, c) \<Rightarrow> read_all M U B contents c
      | (Inr (Ready None), c) \<Rightarrow> Some []
      | (Inr (Ready (Some (Inr d))), c) \<Rightarrow>
          Option.bind (read_all M U B contents c) (\<lambda>bs. Some (contents d @ bs))
      | _ \<Rightarrow> None)"

lemma read_all_collects: "collects M U B contents (read_all M U B contents)"
proof -
  have "read_all M U B contents c = Some bs" if "reads_to M U B contents c bs" for c bs
    using that by induction (simp_all add: read_all.simps)
  then show ?thesis by (simp add: collects_def)
qed

text \<open>The hub distributes the content, signed with the secret, and the user reads the update.\<close>

definition distribution ::
  "('u, 'a, 'p, 'g) crates \<Rightarrow> 'm mac_crate \<Rightarrow> 'u \<Rightarrow> string \<Rightarrow> 'b \<Rightarrow> ('e, ('u, 'b) server_request) result" where
  "distribution L M cb secret post =
     bind_result (unwrap (new_from_slice M SHA1 (as_bytes secret))) (\<lambda>mac.
     let (signature, _) = finalize_reset M SHA1 (hmac_update M SHA1 mac CONTENT)
     in Inr \<lparr>req_uri = cb,
          req_headers = [(CONTENT_TYPE, as_bytes APPLICATION_ATOM_XML),
            (HUB_SIGNATURE, as_bytes ''sha1='' @ hex_encode signature)],
          req_body = post\<rparr>)"

definition distributes ::
  "('c, 'g, 'u, 'b, 'm) flow runtime \<Rightarrow> platform \<Rightarrow> (sleep \<Rightarrow> int \<Rightarrow> bool) \<Rightarrow> ('c, 'pe) pool \<Rightarrow> ('c, 'e, ('g, 'u, 'b, 'm) world) connection \<Rightarrow>
    ('u, 'a, 'p, 'g) crates \<Rightarrow> 'm mac_crate \<Rightarrow> features \<Rightarrow> bool \<Rightarrow> 'u service \<Rightarrow>
    (('b, 'm) content \<Rightarrow> u8 list option) \<Rightarrow> 'b \<Rightarrow> 'u \<Rightarrow> string \<Rightarrow>
    (('c, 'g, 'u, 'b, 'm) flow, unit, unit) action" where
  "distributes T P elapsed get D L M F debug svc to_bytes post cb secret =
     and_then (lift (distribution L M cb secret post)) (\<lambda>req.
     and_then (exchange T P elapsed get D L M F debug svc req) (\<lambda>resp.
     and_then (poll_subscriber P elapsed debug) (\<lambda>polled.
     case polled of
       Ready (Some (Inr upd)) \<Rightarrow>
         and_then (asserts (resp_status resp = OK)) (\<lambda>_.
         and_then (asserts (update_topic upd = TOPIC)) (\<lambda>_.
         and_then (lift (unwrap (to_bytes (update_content upd)))) (\<lambda>bytes.
         asserts (bytes = CONTENT))))
     | _ \<Rightarrow> lift (Inl Panic))))"

section \<open>The tests\<close>

text \<open>\<open>prepare_subscriber\<close>: the renewal task is spawned, that is woken for its first poll.\<close>

definition prepare_subscriber ::
  "('c, 'pe) pool \<Rightarrow> ('c, 'e, ('g, 'u, 'b, 'm) world) connection \<Rightarrow> ('u, 'a, 'p, 'g) crates \<Rightarrow> platform \<Rightarrow>
    clock \<Rightarrow> 'g \<Rightarrow> 'c \<Rightarrow> (('pe, 'e) service_error, 'u service \<times> ('c, 'g, 'u, 'b, 'm) flow) result" where
  "prepare_subscriber get D L P k g c =
     bind_result (unwrap (uri_parse (uri_of L) ''http://example.com/'')) (\<lambda>prefix.
     case build get D L P k (set_renewal_margin MARGIN builder_new) connection_new prefix g c of
       (Inl f, c) \<Rightarrow> Inl f
     | (Inr (this, svc, w, sleep), c) \<Rightarrow>
         Inr (svc, \<lparr>flow_clock = k, flow_acceptor = this, flow_task = Some sleep, flow_db = c,
           flow_world = w\<lparr>task_woken := True\<rparr>, flow_forms = []\<rparr>))"

text \<open>The patterns that a test matches a form with.\<close>

definition subscribe_form :: "'u form \<Rightarrow> ('s, unit, 'u \<times> string \<times> string) action" where
  "subscribe_form form = (case form of
     SubscribeForm cb topic secret \<Rightarrow> ret (cb, topic, secret) | UnsubscribeForm _ _ \<Rightarrow> lift (Inl Panic))"

definition unsubscribe_form :: "'u form \<Rightarrow> ('s, unit, 'u \<times> string) action" where
  "unsubscribe_form form = (case form of
     UnsubscribeForm cb topic \<Rightarrow> ret (cb, topic) | SubscribeForm _ _ _ \<Rightarrow> lift (Inl Panic))"

text \<open>There is no row with the id at the end of a callback's path; the test asks the database.\<close>

definition row_gone ::
  "('c, 'pe) pool \<Rightarrow> ('c, 'e, ('g, 'u, 'b, 'm) world) connection \<Rightarrow> ('u, 'a, 'p, 'g) crates \<Rightarrow> 'u \<Rightarrow>
    (('c, 'g, 'u, 'b, 'm) flow, unit, unit) action" where
  "row_gone get D L cb =
     and_then (lift (unwrap (decode (base64_of L)
       (rev (takeWhile (\<lambda>c. c \<noteq> CHR ''/'') (rev (uri_path (uri_of L) cb))))))) (\<lambda>i.
     and_then (unwrapped (on_fst get)) (\<lambda>_.
     and_then (unwrapped (on_fst (conn_get_topic D i))) (\<lambda>row. asserts (row = None))))"

text \<open>The parts of the test, in the order of its comments: the user subscribes to the topic.\<close>

definition flow_subscribes ::
  "('c, 'g, 'u, 'b, 'm) flow runtime \<Rightarrow> ('c, 'pe) pool \<Rightarrow> ('c, 'e, ('g, 'u, 'b, 'm) world) connection \<Rightarrow>
    ('u, 'a, 'p, 'g) crates \<Rightarrow> bool \<Rightarrow> 'u service \<Rightarrow>
    (('c, 'g, 'u, 'b, 'm) flow, unit, 'u \<times> string) action" where
  "flow_subscribes T get D L debug svc =
     and_then no_request (\<lambda>_.
     and_then (unwrapped (on_fst get)) (\<lambda>_.
     and_then (unwrapped (service_subscribe D L debug svc HUB TOPIC)) (\<lambda>req_task.
     and_then (rt_advance T DELAY) (\<lambda>_.
     and_then (accept_form T L ''/hub'' req_task) (\<lambda>form.
     and_then (subscribe_form form) (\<lambda>(cb, topic, secret).
     and_then (asserts (topic = TOPIC)) (\<lambda>_.
     and_then no_request (\<lambda>_. ret (cb, secret)))))))))"

text \<open>The subscription is renewed when the margin has passed.\<close>

definition flow_renews ::
  "('c, 'g, 'u, 'b, 'm) flow runtime \<Rightarrow> ('u, 'a, 'p, 'g) crates \<Rightarrow> 'u \<Rightarrow>
    (('c, 'g, 'u, 'b, 'm) flow, unit, 'u) action" where
  "flow_renews T L cb =
     and_then (rt_advance T MARGIN) (\<lambda>_.
     and_then (rt_advance T DELAY) (\<lambda>_.
     and_then (accept_request T L ''/hub'') (\<lambda>form.
     and_then (subscribe_form form) (\<lambda>(new_cb, topic, _).
     and_then (asserts (new_cb \<noteq> cb)) (\<lambda>_.
     and_then (asserts (topic = TOPIC)) (\<lambda>_.
     and_then no_request (\<lambda>_. ret new_cb)))))))"

text \<open>
  The subscriber unsubscribes from the old subscription. The source notes at the last assertion
  that the listener unexpectedly receives a subscription request.
\<close>

definition flow_unsubscribes ::
  "('c, 'g, 'u, 'b, 'm) flow runtime \<Rightarrow> ('u, 'a, 'p, 'g) crates \<Rightarrow> 'u \<Rightarrow>
    (('c, 'g, 'u, 'b, 'm) flow, unit, unit) action" where
  "flow_unsubscribes T L cb =
     and_then (rt_advance T DELAY) (\<lambda>_.
     and_then (accept_request T L ''/hub'') (\<lambda>form.
     and_then (unsubscribe_form form) (\<lambda>(unsubscribed, topic).
     and_then (asserts (unsubscribed = cb)) (\<lambda>_.
     and_then (asserts (topic = TOPIC)) (\<lambda>_. no_request)))))"

text \<open>The whole protocol at once.\<close>

definition entire_flow ::
  "('c, 'g, 'u, 'b, 'm) flow runtime \<Rightarrow> platform \<Rightarrow> (sleep \<Rightarrow> int \<Rightarrow> bool) \<Rightarrow> ('c, 'pe) pool \<Rightarrow> ('c, 'e, ('g, 'u, 'b, 'm) world) connection \<Rightarrow>
    ('u, 'a, 'p, 'g) crates \<Rightarrow> 'm mac_crate \<Rightarrow> features \<Rightarrow> bool \<Rightarrow> 'u service \<Rightarrow>
    (('b, 'm) content \<Rightarrow> u8 list option) \<Rightarrow> 'b \<Rightarrow> 'b \<Rightarrow>
    (('c, 'g, 'u, 'b, 'm) flow, unit, unit) action" where
  "entire_flow T P elapsed get D L M F debug svc to_bytes no_body post =
     (let verify_at = verify_intent_at T P elapsed get D L M F debug svc no_body;
          lease = as_secs (2 * MARGIN)
      in
     and_then (flow_subscribes T get D L debug svc) (\<lambda>(cb, secret).
     and_then (verify_at cb (VerifySubscribe TOPIC ''subscription_challenge'' lease)) (\<lambda>_.
     and_then (distributes T P elapsed get D L M F debug svc to_bytes post cb secret) (\<lambda>_.
     and_then (flow_renews T L cb) (\<lambda>new_cb.
     and_then (verify_at new_cb (VerifySubscribe TOPIC ''renewal_challenge'' lease)) (\<lambda>_.
     and_then (flow_unsubscribes T L cb) (\<lambda>_.
     and_then (verify_at cb (VerifyUnsubscribe TOPIC ''unsubscription_challenge'')) (\<lambda>_.
     and_then (no_update P elapsed debug) (\<lambda>_.
     row_gone get D L cb)))))))))"

section \<open>URIs that are sent as text\<close>

text \<open>
  The URIs of the tests: the prefix of the callbacks and the hub's are valid, and a callback,
  alone or with a query, reads back as it was written.
\<close>

locale example_uris = uri_spec U + form_spec E
  for U :: "('u, 'a, 'p) uri_crate" and E :: form_crate +
  fixes base :: 'u
  assumes parse_base: "uri_parse U ''http://example.com/'' = Some base"
    and base_path: "\<exists>p. path_and_query U base = Some p \<and> pq_as_str U p = ''/''"
    and parse_hub: "\<exists>u p. uri_parse U HUB = Some u \<and> path_and_query U u = Some p \<and> pq_as_str U p = ''/hub''"
    and parse_display: "into_parts U u = (fst (into_parts U base), Some p) \<Longrightarrow> pq_as_str U p = ''/'' @ s \<Longrightarrow>
      set s \<subseteq> set url_safe_alphabet \<Longrightarrow>
      uri_display U u = ''http://example.com/'' @ s \<and> uri_parse U (uri_display U u) = Some u"
    and parse_query: "into_parts U u = (fst (into_parts U base), Some p) \<Longrightarrow> pq_as_str U p = ''/'' @ s \<Longrightarrow>
      set s \<subseteq> set url_safe_alphabet \<Longrightarrow> form_to_string E fs = Some q \<Longrightarrow>
      \<exists>u'. uri_parse U (uri_display U u @ ''?'' @ q) = Some u' \<and> uri_path U u' = uri_path U u \<and>
        uri_query U u' = Some q"
begin

lemma base_prepared: "prepared U base"
  using base_path by (auto simp: prepared_def)

lemma base_uri_path: "uri_path U base = ''/''"
  using base_path uri_reads by (fastforce simp: path_of_def)

end

text \<open>An instance: a URI is cut after its scheme and authority.\<close>

definition scheme_length :: "string \<Rightarrow> nat" where
  "scheme_length s =
     (let k = length (takeWhile (\<lambda>c. c \<noteq> CHR '':'') s) in if take 3 (drop k s) = ''://'' then k + 3 else 0)"

definition parse_text :: "string \<Rightarrow> (string \<times> string option) option" where
  "parse_text s =
     (let k = scheme_length s; rest = drop k s; p = dropWhile (\<lambda>c. c \<noteq> CHR ''/'') rest
      in if s = '''' then None
         else Some (take k s @ takeWhile (\<lambda>c. c \<noteq> CHR ''/'') rest, if p \<noteq> '''' then Some p else if k = 0 then None else Some ''/''))"

definition test_crates :: "(string \<times> string option, string, string, u64) crates" where
  "test_crates = reference_crates\<lparr>uri_of := text_uri\<lparr>uri_parse := parse_text\<rparr>\<rparr>"

lemma parse_text_http:
  "parse_text (''http://example.com'' @ ''/'' @ p) = Some (''http://example.com'', Some (''/'' @ p))"
  by (simp add: parse_text_def scheme_length_def)

interpretation test_crates: crates_spec test_crates
proof (rule crates_spec.intro)
  show "uri_spec (uri_of test_crates)"
    using text_uri.uri_spec_axioms by (simp add: test_crates_def uri_spec_def)
qed (use reference_crates.crates_spec_axioms in \<open>simp_all add: test_crates_def crates_spec_def\<close>)

interpretation test_uris: example_uris "uri_of test_crates" "form_of test_crates" "(''http://example.com'', Some ''/'')"
proof (intro example_uris.intro example_uris_axioms.intro)
  let ?U = "uri_of test_crates"
  have U: "uri_parse ?U = parse_text" "uri_display ?U = uri_display text_uri" "into_parts ?U = (\<lambda>u. u)"
    "pq_as_str ?U = (\<lambda>p. p)" "uri_path ?U = uri_path text_uri" "uri_query ?U = uri_query text_uri"
    "path_and_query ?U = snd"
    by (simp_all add: test_crates_def text_uri_def)
  show "uri_spec ?U" by (rule test_crates.uri_laws)
  show "form_spec (form_of test_crates)" by (rule test_crates.form_laws)
  show "uri_parse ?U ''http://example.com/'' = Some (''http://example.com'', Some ''/'')"
    using parse_text_http [of "''''"] by (simp add: U)
  show "\<exists>p. path_and_query ?U (''http://example.com'', Some ''/'') = Some p \<and> pq_as_str ?U p = ''/''"
    by (simp add: U)
  show "\<exists>u p. uri_parse ?U HUB = Some u \<and> path_and_query ?U u = Some p \<and> pq_as_str ?U p = ''/hub''"
    using parse_text_http [of "''hub''"] by (simp add: U HUB_def)
  fix u :: "string \<times> string option" and p s
  assume u: "into_parts ?U u = (fst (into_parts ?U (''http://example.com'', Some ''/'')), Some p)" "pq_as_str ?U p = ''/'' @ s"
    and s: "set s \<subseteq> set url_safe_alphabet"
  then have eq: "u = (''http://example.com'', Some (''/'' @ s))" by (simp add: U)
  show "uri_display ?U u = ''http://example.com/'' @ s \<and> uri_parse ?U (uri_display ?U u) = Some u"
    using parse_text_http [of s] by (simp add: U eq text_uri_def)
  fix fs q assume "form_to_string (form_of test_crates) fs = Some q"
  have "\<forall>c \<in> set s. c \<noteq> CHR ''?''" using s by (fastforce simp: url_safe_alphabet_def)
  then have "path_of (''/'' @ s @ ''?'' @ q) = ''/'' @ s" "query_of (''/'' @ s @ ''?'' @ q) = Some q"
    "path_of (''/'' @ s) = ''/'' @ s"
    by (simp_all add: path_of_def query_of_def takeWhile_append dropWhile_append takeWhile_eq_all_conv)
  then show "\<exists>u'. uri_parse ?U (uri_display ?U u @ ''?'' @ q) = Some u' \<and> uri_path ?U u' = uri_path ?U u \<and>
      uri_query ?U u' = Some q"
    using parse_text_http [of "s @ ''?'' @ q"] by (simp add: U eq text_uri_def)
qed

section \<open>The test of the callback prefix\<close>

text \<open>A prefix is parsed and prepared; the result is compared with a text by its own text.\<close>

definition prefix_case :: "('u, 'a, 'p) uri_crate \<Rightarrow> string \<Rightarrow> string \<Rightarrow> (unit, unit) result" where
  "prefix_case U prefix expected =
     bind_result (unwrap (uri_parse U prefix)) (\<lambda>u.
     bind_result (prepare_callback_prefix U u) (\<lambda>uri. assert_that (uri_display U uri = expected)))"

definition callback_prefix_test :: "('u, 'a, 'p) uri_crate \<Rightarrow> (unit, unit) result" where
  "callback_prefix_test U =
     bind_result (prefix_case U ''http://example.com/'' ''http://example.com/'') (\<lambda>_.
     bind_result (prefix_case U ''http://example.com/websub/'' ''http://example.com/websub/'') (\<lambda>_.
     bind_result (prefix_case U ''http://example.com'' ''http://example.com/'') (\<lambda>_.
     prefix_case U ''http://example.com/websub'' ''http://example.com/websub/'')))"

text \<open>
  A URI of the host of the tests: its path is what follows the host, or the root if nothing does,
  and its text is the host followed by its path.
\<close>

locale host_uris = uri_spec U for U :: "('u, 'a, 'p) uri_crate" +
  assumes parse_host: "s = '''' \<or> (\<exists>t. s = CHR ''/'' # t) \<Longrightarrow> set s \<subseteq> insert CHR ''/'' (set url_safe_alphabet) \<Longrightarrow>
      \<exists>u p. uri_parse U (''http://example.com'' @ s) = Some u \<and> path_and_query U u = Some p \<and>
        pq_as_str U p = (if s = '''' then ''/'' else s)"
    and display_host: "s = '''' \<or> (\<exists>t. s = CHR ''/'' # t) \<Longrightarrow> uri_parse U (''http://example.com'' @ s) = Some u \<Longrightarrow>
      into_parts U u' = (fst (into_parts U u), Some p) \<Longrightarrow> uri_display U u' = ''http://example.com'' @ pq_as_str U p"
begin

lemma prefix_case_passes:
  assumes "s = '''' \<or> (\<exists>t. s = CHR ''/'' # t)" "set s \<subseteq> insert CHR ''/'' (set url_safe_alphabet)"
  shows "prefix_case U (''http://example.com'' @ s)
    (''http://example.com'' @ (if s = '''' then ''/'' else if last s = CHR ''/'' then s else s @ ''/'')) = Inr ()"
proof -
  let ?s = "if s = '''' then ''/'' else s"
  obtain u p where u: "uri_parse U (''http://example.com'' @ s) = Some u" "path_and_query U u = Some p"
    "pq_as_str U p = ?s" using parse_host [OF assms] by blast
  with assms(1) obtain t where "pq_as_str U p = CHR ''/'' # t" by auto
  from prepare_origin_form [OF uri_spec_axioms u(2) this, where ?'e = unit] obtain u' p' where
    u': "prepare_callback_prefix U u = (Inr u' :: (unit, 'u) result)" "path_and_query U u' = Some p'"
      "fst (into_parts U u') = fst (into_parts U u)"
      "pq_as_str U p' = (if last ?s = CHR ''/'' then ?s else ?s @ ''/'')" unfolding u(3) by metis
  then have "into_parts U u' = (fst (into_parts U u), Some p')" using path_and_query by (metis prod.collapse)
  from display_host [OF assms(1) u(1) this] show ?thesis
    using u(1) u'(1,4) by (auto simp: prefix_case_def assert_that_def simp del: append.simps)
qed

lemma callback_prefix_passes: "callback_prefix_test U = Inr ()"
proof -
  note cases = prefix_case_passes [of "''/''"] prefix_case_passes [of "''/websub/''"]
    prefix_case_passes [of "''''"] prefix_case_passes [of "''/websub''"]
  show ?thesis unfolding callback_prefix_test_def using cases by (simp add: url_safe_alphabet_def)
qed

end

interpretation test_hosts: host_uris "uri_of test_crates"
proof (intro host_uris.intro host_uris_axioms.intro)
  let ?U = "uri_of test_crates"
  show "uri_spec ?U" by (rule test_crates.uri_laws)
  fix s :: string assume s: "s = '''' \<or> (\<exists>t. s = CHR ''/'' # t)"
  then have parse: "uri_parse ?U (''http://example.com'' @ s) =
      Some (''http://example.com'', Some (if s = '''' then ''/'' else s))"
    by (auto simp: test_crates_def parse_text_def scheme_length_def)
  then show "\<exists>u p. uri_parse ?U (''http://example.com'' @ s) = Some u \<and> path_and_query ?U u = Some p \<and>
      pq_as_str ?U p = (if s = '''' then ''/'' else s)"
    by (simp add: test_crates_def text_uri_def del: append.simps)
  fix u u' p assume "uri_parse ?U (''http://example.com'' @ s) = Some u"
    and parts: "into_parts ?U u' = (fst (into_parts ?U u), Some p)"
  with parse have "fst u = ''http://example.com''" by (simp del: append.simps)
  with parts show "uri_display ?U u' = ''http://example.com'' @ pq_as_str ?U p"
    by (simp add: test_crates_def text_uri_def split_beta del: append.simps)
qed

lemma callback_prefix_test_passes: "callback_prefix_test (uri_of test_crates) = Inr ()"
  by (rule test_hosts.callback_prefix_passes)

end
