(* ===== verification/Bench.thy ===== *)
theory Bench
  imports Flow
begin

text \<open>
  What the steps of a test come to on a bench that satisfies the contracts: the time that passes,
  the polls of the renewal task, the requests that the subscriber answers and those it sends.
\<close>

section \<open>Steps of the runtime\<close>

lemma idles_later: "idles elapsed fl fl' \<Longrightarrow> instant_now (flow_clock fl) < instant_now (flow_clock fl')"
proof (induction rule: idles.induct)
  case (1 fl d n)
  then have "n \<noteq> 0" by (auto simp: task_ready_def intro: ccontr)
  then show ?case by (simp add: advance_clock_def)
qed

text \<open>While the clock stands still, the runtime only polls the task.\<close>

lemma busy_steps:
  assumes steps: "(runtime_step P elapsed get D L debug svc)\<^sup>*\<^sup>* fl fl'" and clock: "flow_clock fl' = flow_clock fl"
    and start: "I fl" and closed: "\<And>fl. I fl \<Longrightarrow> I (poll_task P elapsed get D L debug svc fl)"
  shows "I fl'"
proof -
  have "instant_now (flow_clock fl) \<le> instant_now (flow_clock fl') \<and>
      (instant_now (flow_clock fl') = instant_now (flow_clock fl) \<longrightarrow> I fl')"
    using steps
  proof induction
    case base
    then show ?case using start by simp
  next
    case (step y z)
    from step(2) show ?case
    proof cases
      case polls
      then show ?thesis using step(3) closed by simp
    next
      case idle
      then show ?thesis using idles_later [OF idle] step(3) by linarith
    qed
  qed
  with clock show ?thesis by simp
qed

section \<open>The bench\<close>

text \<open>An id whose callback leads back to it.\<close>

definition reversible :: "u64 \<Rightarrow> bool" where
  "reversible i \<longleftrightarrow> unat i < 2 ^ 56 \<or> 0 \<notin> set (to_le_bytes i)"

text \<open>The subscriber's acceptor between two requests.\<close>

definition idle :: "(channel, duplex_end) acceptor \<Rightarrow> bool" where
  "idle this \<longleftrightarrow> acc_backoff this = backoff_new \<and> chan_streams (incoming this) = [] \<and>
     chan_listening (incoming this) \<and> chan_connectors (incoming this) \<noteq> 0"

text \<open>
  A test starts \<open>S\<close> nanoseconds after the epoch. The margin of the subscriber is the tests'. For
  the first \<open>Z\<close> nanoseconds the runtime is busy, that is it always has work to do while the
  test waits: the clock moves only by the test's \<open>advance\<close>.
\<close>

locale flow_bench = subscriber_service L D subs up svc + example_uris "uri_of L" "form_of L" "callback svc" +
    tokio T P elapsed get D L debug svc
  for L :: "('u, 'a, 'p, 'g) crates" and D :: "('c, 'e, ('g, 'u, 'b, 'm) world) connection"
    and subs :: "'c \<Rightarrow> table" and up :: "'c \<Rightarrow> bool" and svc :: "'u service"
    and T :: "('c, 'g, 'u, 'b, 'm) flow runtime" and P :: platform and elapsed :: "sleep \<Rightarrow> int \<Rightarrow> bool"
    and get :: "('c, 'pe) pool" and debug :: bool +
  fixes K :: int and S Z :: nat
  assumes platform: "times_representable P K" and sleeps: "sleep_spec elapsed"
    and pool: "statement subs up get (\<lambda>m _ m'. m' = m)"
    and margin: "renewal_margin svc = 42"
    and start: "42 * nanos \<le> S" "S < 2 ^ 61 * nanos"
    and window: "Z \<le> 1000 * nanos"
    and busy_await: "system_time_now (flow_clock fl) \<le> S + Z \<Longrightarrow>
      flow_clock (snd (rt_await T fl)) = flow_clock fl"
    and busy_until: "system_time_now (flow_clock fl) \<le> S + Z \<Longrightarrow>
      flow_clock (snd (rt_until T c fl)) = flow_clock fl"
begin

definition cb_of :: "u64 \<Rightarrow> 'u" where
  "cb_of i = projr (make_callback L (callback svc) i :: (unit, 'u) result)"

lemma cb_of:
  "make_callback L (callback svc) i = (Inr (cb_of i) :: (unit, 'u) result)"
  "uri_path (uri_of L) (cb_of i) = ''/'' @ encode (memchr_of L) (base64_of L) (to_le_bytes i)"
  "uri_query (uri_of L) (cb_of i) = None"
  "uri_parse (uri_of L) (uri_display (uri_of L) (cb_of i)) = Some (cb_of i)"
  "form_to_string (form_of L) fs = Some q \<Longrightarrow>
     \<exists>u. uri_parse (uri_of L) (uri_display (uri_of L) (cb_of i) @ ''?'' @ q) = Some u \<and>
       uri_path (uri_of L) u = uri_path (uri_of L) (cb_of i) \<and> uri_query (uri_of L) u = Some q"
  "uri_parse (uri_of L) (''http://example.com/'' @ encode (memchr_of L) (base64_of L) (to_le_bytes i)) = Some (cb_of i)"
proof -
  let ?U = "uri_of L" and ?seg = "encode (memchr_of L) (base64_of L) (to_le_bytes i)"
  obtain p where p: "path_and_query ?U (callback svc) = Some p" "pq_as_str ?U p = ''/''"
    using base_path by blast
  obtain a where parts: "into_parts ?U (callback svc) = (a, Some p)"
    using path_and_query [of "callback svc"] p(1) by (metis prod.collapse)
  have seg: "set ?seg \<subseteq> set url_safe_alphabet"
    using url_safe_no_pad.display_alphabet [OF base64_laws] by (auto simp: encode_def Let_def)
  then have "set ?seg \<subseteq> insert CHR ''/'' (set url_safe_alphabet)" by blast
  from pq_append [OF _ this, of p] p(2) obtain p' where
    p': "pq_try_from ?U (''/'' @ ?seg) = Some p'" "pq_as_str ?U p' = ''/'' @ ?seg" by auto
  from replace_path_and_query [OF parts, of p'] obtain cb where
    cb: "from_parts ?U (a, Some p') = Some cb" "into_parts ?U cb = (a, Some p')" by blast
  have make: "(make_callback L (callback svc) i :: (unit, 'u) result) = Inr cb"
    using parts p p' cb(1) pq_display [of p] by (simp add: make_callback_def)
  then have eq: "cb_of i = cb" by (simp add: cb_of_def)
  with make show "make_callback L (callback svc) i = (Inr (cb_of i) :: (unit, 'u) result)" by simp
  obtain cb' where "(make_callback L (callback svc) i :: (unit, 'u) result) = Inr cb'"
    "uri_path ?U cb' = uri_path ?U (callback svc) @ ?seg" "uri_query ?U cb' = None"
    by (rule make_callback_prepared [OF callback_prepared])
  with make eq base_uri_path show "uri_path ?U (cb_of i) = ''/'' @ ?seg" "uri_query ?U (cb_of i) = None"
    by simp_all
  have cb_parts: "into_parts ?U cb = (fst (into_parts ?U (callback svc)), Some p')" using cb(2) parts by simp
  show "uri_parse ?U (uri_display ?U (cb_of i)) = Some (cb_of i)"
    unfolding eq by (rule parse_display [OF cb_parts p'(2) seg, THEN conjunct2])
  show "uri_parse ?U (''http://example.com/'' @ ?seg) = Some (cb_of i)"
    unfolding eq using parse_display [OF cb_parts p'(2) seg] by (elim conjE) (simp only:)
  show "\<exists>u. uri_parse ?U (uri_display ?U (cb_of i) @ ''?'' @ q) = Some u \<and>
       uri_path ?U u = uri_path ?U (cb_of i) \<and> uri_query ?U u = Some q"
    if "form_to_string (form_of L) fs = Some q"
    unfolding eq by (rule parse_query [OF cb_parts p'(2) seg that])
qed

lemma cb_resolves:
  assumes "reversible i" "uri_path (uri_of L) (req_uri req) = uri_path (uri_of L) (cb_of i)"
  shows "resolves L svc req i"
  using assms decode_encode_iff [OF memchr_laws base64_laws, of i]
  by (auto simp: resolves_def reversible_def cb_of(2) base_uri_path)

lemma cb_of_inj: "reversible i \<Longrightarrow> reversible j \<Longrightarrow> cb_of i = cb_of j \<Longrightarrow> i = j"
  using decode_encode_iff [OF memchr_laws base64_laws, of i] decode_encode_iff [OF memchr_laws base64_laws, of j]
    cb_of(2) [of i] cb_of(2) [of j] by (simp add: reversible_def)

lemma form_read:
  "form_of_fields (uri_of L) (form_fields (uri_of L) (SubscribeForm (cb_of i) topic secret)) =
     Some (SubscribeForm (cb_of i) topic secret)"
  "form_of_fields (uri_of L) (form_fields (uri_of L) (UnsubscribeForm (cb_of i) topic)) =
     Some (UnsubscribeForm (cb_of i) topic)"
  by (simp_all add: form_of_fields_def field_def cb_of(4))

end

section \<open>Time on the bench\<close>

context flow_bench
begin

definition clock_at :: "nat \<Rightarrow> clock" where
  "clock_at d = \<lparr>instant_now = int (S + d) + K, system_time_now = S + d\<rparr>"

definition secs_at :: "nat \<Rightarrow> u64" where
  "secs_at d = as_secs (now_unix (clock_at d))"

lemma margin_small: "unat (renewal_margin svc) < 2 ^ 62"
  by (simp add: margin)

lemma clock_at_advance: "advance_clock d' (clock_at d) = clock_at (d + d')"
  by (simp add: advance_clock_def clock_at_def)

lemma bounded: "d \<le> 1000 * nanos \<Longrightarrow> S + d < 2 ^ 62 * nanos"
proof -
  assume "d \<le> 1000 * nanos"
  with start(2) have "S + d < 2 ^ 61 * nanos + 1000 * nanos" by linarith
  also have "\<dots> \<le> 2 ^ 62 * nanos" by simp
  finally show ?thesis .
qed

lemma steady_at: "d \<le> 1000 * nanos \<Longrightarrow> steady K (clock_at d)"
  using bounded by (simp add: steady_def clock_at_def)

lemma secs_at: "d \<le> 1000 * nanos \<Longrightarrow> unat (secs_at d) = (S + d) div nanos"
  using as_secs_unat [OF bounded [of d]] by (simp add: secs_at_def clock_at_def now_unix_def)

lemma secs_at_bounds:
  assumes "d \<le> 1000 * nanos"
  shows "unat (secs_at d) * nanos \<le> S + d" "S + d < (unat (secs_at d) + 1) * nanos"
    "42 \<le> unat (secs_at d)" "unat (secs_at d) < 2 ^ 62"
proof -
  show "unat (secs_at d) * nanos \<le> S + d" "S + d < (unat (secs_at d) + 1) * nanos"
    unfolding secs_at [OF assms] using div_times_less_eq_dividend [of "S + d" nanos] dividend_less_div_times [of nanos "S + d"]
    by (simp_all add: algebra_simps)
  show "42 \<le> unat (secs_at d)" unfolding secs_at [OF assms] using start(1) by (simp add: less_eq_div_iff_mult_less_eq)
  show "unat (secs_at d) < 2 ^ 62" unfolding secs_at [OF assms] by (rule less_mult_imp_div_less [OF bounded [OF assms]])
qed

lemma margin_passed: "d \<le> 1000 * nanos \<Longrightarrow> renewal_margin svc \<le> secs_at d"
  using secs_at_bounds(3) [of d] by (simp add: margin word_le_nat_alt)

text \<open>Whether a deadline in whole seconds has passed.\<close>

lemma not_yet: "S + d < unat t * nanos \<Longrightarrow> \<not> elapsed (deadline K t) (instant_now (clock_at d))"
  using sleep_spec.not_early [OF sleeps, of "deadline K t" "instant_now (clock_at d)"]
  by (auto simp: deadline_def from_secs_def clock_at_def simp flip: of_nat_mult)

lemma passed: "unat t * nanos + 10 ^ 6 \<le> S + d \<Longrightarrow> elapsed (deadline K t) (instant_now (clock_at d))"
  by (rule sleep_spec.precise [OF sleeps]) (auto simp: deadline_def from_secs_def clock_at_def simp flip: of_nat_mult)

section \<open>Between two events\<close>

text \<open>
  Nothing happens: the table is \<open>m\<close>, the requests \<open>futs\<close> have been spawned and not been
  received, nor the updates \<open>us\<close>, the handle shows \<open>t\<close>, and the subscriber will notice that time.
\<close>

definition calm ::
  "nat \<Rightarrow> table \<Rightarrow> 'u response_future list \<Rightarrow> ('b, 'm, headers) update_data list \<Rightarrow> u64 \<Rightarrow> 'u form list \<Rightarrow>
    ('c, 'g, 'u, 'b, 'm) flow \<Rightarrow> bool" where
  "calm d m futs us t forms fl \<longleftrightarrow> d \<le> 1000 * nanos \<and> flow_clock fl = clock_at d \<and> idle (flow_acceptor fl) \<and>
     (\<exists>s. flow_task fl = Some s \<and> in_time K subs svc s (flow_db fl) (flow_world fl)) \<and>
     subs (flow_db fl) = m \<and> up (flow_db fl) \<and>
     spawned (flow_world fl) = futs \<and> sent (flow_world fl) = us \<and> \<not> closed (flow_world fl) \<and>
     next_tick (flow_world fl) = t \<and> flow_forms fl = forms"

lemma calm_advance:
  "calm d m futs us t forms fl \<Longrightarrow> d + d' \<le> 1000 * nanos \<Longrightarrow>
     calm (d + d') m futs us t forms (fl\<lparr>flow_clock := advance_clock d' (flow_clock fl)\<rparr>)"
  by (simp add: calm_def clock_at_advance)

text \<open>What a poll of the renewal task comes to when nothing is due.\<close>

lemma poll_waits:
  assumes k: "steady K k" and inv: "in_time K subs svc s c w"
    and wait: "next_tick w \<noteq> u64_MAX \<Longrightarrow> \<not> elapsed (deadline K (next_tick w)) (instant_now k)"
  obtains s' where "renew_subscriptions_poll P elapsed get D L debug svc k True (s, c, w\<lparr>task_woken := False\<rparr>) =
      (Inr StillPending, (s', c, w\<lparr>task_woken := False, task_registered := True\<rparr>))"
proof (cases "next_tick w = u64_MAX")
  case True
  with inv have "s = None" by (simp add: in_time_def on_schedule_def)
  with that [of None] scheduler_poll_idle [OF k, of "w\<lparr>task_woken := False\<rparr>" P elapsed
      "tick get D L debug svc (as_secs (now_unix k))" c] True
  show thesis by (simp add: renew_subscriptions_poll_def)
next
  case False
  have "on_schedule K (s, c, w)" using inv by (simp add: in_time_def)
  from ticking.poll_due [OF service_ticking [OF platform margin_small pool] k this False] wait [OF False] that
  show thesis by (simp add: renew_subscriptions_poll_def)
qed

lemma calm_polled:
  assumes "calm d m futs us t forms fl"
    and "t \<noteq> u64_MAX \<Longrightarrow> \<not> elapsed (deadline K t) (instant_now (clock_at d))"
  shows "calm d m futs us t forms (poll_task P elapsed get D L debug svc fl)"
    "\<not> task_woken (flow_world (poll_task P elapsed get D L debug svc fl))"
proof -
  let ?w = "flow_world fl" and ?c = "flow_db fl"
  obtain s where s: "flow_task fl = Some s" "in_time K subs svc s ?c ?w" using assms(1) by (auto simp: calm_def)
  have d: "d \<le> 1000 * nanos" "flow_clock fl = clock_at d" "next_tick ?w = t" using assms(1) by (simp_all add: calm_def)
  note k = steady_at [OF d(1)]
  obtain s' where poll: "renew_subscriptions_poll P elapsed get D L debug svc (clock_at d) True
      (s, ?c, ?w\<lparr>task_woken := False\<rparr>) =
      (Inr StillPending, (s', ?c, ?w\<lparr>task_woken := False, task_registered := True\<rparr>))"
    by (rule poll_waits [OF k s(2)]) (use assms(2) d(3) in simp_all)
  then have polled: "poll_task P elapsed get D L debug svc fl =
      fl\<lparr>flow_task := Some s', flow_db := ?c, flow_world := ?w\<lparr>task_woken := False, task_registered := True\<rparr>\<rparr>"
    using s(1) d(2) by (simp add: poll_task_def renewal_task_def)
  from poll_in_time [OF platform margin_small pool k s(2) poll]
  show "calm d m futs us t forms (poll_task P elapsed get D L debug svc fl)"
    unfolding polled using assms(1) by (simp add: calm_def)
  show "\<not> task_woken (flow_world (poll_task P elapsed get D L debug svc fl))" unfolding polled by simp
qed

end

context flow_bench
begin

text \<open>What a poll of the renewal task comes to when the time shown has come.\<close>

lemma calm_renews:
  assumes calm: "calm d m futs us t forms fl"
    and come: "t \<noteq> u64_MAX" "elapsed (deadline K t) (instant_now (clock_at d))"
    and few: "2 * card (dom m) < 2 ^ 64" and uris: "hubs_are_uris L m"
  obtains th m' futs' e n where "task_ready elapsed fl"
    "calm d m' (futs @ futs') us (handle_next_tick n) forms (poll_task P elapsed get D L debug svc fl)"
    "sint th = int (unat (secs_at d) + 43)" "renewed L (callback svc) th m m' futs'"
    "first_expiry m' e" "next_tick_after svc (secs_at d) e n"
proof -
  let ?w = "flow_world fl" and ?c = "flow_db fl"
  let ?w' = "?w\<lparr>task_woken := False, task_registered := True\<rparr>"
  obtain s where s: "flow_task fl = Some s" "in_time K subs svc s ?c ?w" using calm by (auto simp: calm_def)
  have fl: "d \<le> 1000 * nanos" "flow_clock fl = clock_at d" "next_tick ?w = t" "subs ?c = m" "up ?c"
    "spawned ?w = futs" using calm by (simp_all add: calm_def)
  note k = steady_at [OF fl(1)]
  have now: "unat (secs_at d) + unat (renewal_margin svc) + 1 < 2 ^ 63"
    using secs_at_bounds(4) [OF fl(1)] by (simp add: margin)
  obtain n c' g futs' e th where run: "tick get D L debug svc (secs_at d) (?c, ?w') =
      (Inr n, (c', ?w'\<lparr>thread_rng := g, spawned := spawned ?w' @ futs'\<rparr>))"
    and th: "sint th = int (unat (secs_at d) + unat (renewal_margin svc) + 1)"
    and renewed: "renewed L (callback svc) th (subs ?c) (subs c') futs'" "first_expiry (subs c') e" "up c'"
      "next_tick_after svc (secs_at d) e n"
    by (rule tick_total [OF pool fl(5) now few [folded fl(4)] uris [folded fl(4)]])
  let ?s' = "case n of None \<Rightarrow> None | Some t \<Rightarrow> Some (deadline K t)"
  let ?h = "?w'\<lparr>thread_rng := g, spawned := spawned ?w' @ futs', next_tick := handle_next_tick n\<rparr>"
  have poll: "renew_subscriptions_poll P elapsed get D L debug svc (clock_at d) True (s, ?c, ?w\<lparr>task_woken := False\<rparr>) =
      (Inr StillPending, (?s', c', ?h))"
    unfolding renewal_poll_due [where elapsed = elapsed, OF platform margin_small pool k s(2), unfolded fl(3), OF come] secs_at_def [symmetric]
    using run by (cases n) (simp_all add: run_tick_def handle_next_tick_def)
  from poll_in_time [OF platform margin_small pool k s(2) poll]
  have calm': "calm d (subs c') (futs @ futs') us (handle_next_tick n) forms
      (fl\<lparr>flow_task := Some ?s', flow_db := c', flow_world := ?h\<rparr>)"
    using calm renewed(3) by (simp add: calm_def)
  have "task_woken ?w \<or> s = Some (deadline K t)"
    using s(2) come(1) fl(3) by (auto simp: in_time_def on_schedule_def)
  then have ready: "task_ready elapsed fl" using s(1) fl(2) come(2) by (auto simp: task_ready_def)
  have "poll_task P elapsed get D L debug svc fl = fl\<lparr>flow_task := Some ?s', flow_db := c', flow_world := ?h\<rparr>"
    using s(1) fl(2) poll by (simp add: poll_task_def renewal_task_def)
  with ready calm' th renewed show thesis by (intro that) (simp_all add: margin fl(4))
qed

section \<open>Waiting\<close>

lemma advance_keeps:
  assumes "I (moved d fl)" "\<And>fl. I fl \<Longrightarrow> I (poll_task P elapsed get D L debug svc fl)"
  obtains fl' where "rt_advance T d fl = (Inr (), fl')" "I fl'"
proof -
  obtain r fl' where run: "rt_advance T d fl = (r, fl')" by (metis surj_pair)
  from advance [OF run] have "r = Inr ()" "I fl'" using busy_steps [of P elapsed get D L debug svc "moved d fl" fl' I] assms by auto
  with run that show thesis by simp
qed

lemma await_keeps:
  assumes "I fl" "\<And>fl. I fl \<Longrightarrow> I (poll_task P elapsed get D L debug svc fl)"
    and "system_time_now (flow_clock fl) \<le> S + Z"
  obtains fl' where "rt_await T fl = (Inr (), fl')" "I fl'"
proof -
  obtain r fl' where run: "rt_await T fl = (r, fl')" by (metis surj_pair)
  with busy_await [OF assms(3)] have "flow_clock fl' = flow_clock fl" by simp
  with await [OF run] have "r = Inr ()" "I fl'" using busy_steps [of P elapsed get D L debug svc fl fl' I] assms by auto
  with run that show thesis by simp
qed

text \<open>
  A test that waits until something happens sees it happen, if it has happened before, or if
  the task is ready and the poll of it makes it happen.
\<close>

lemma until_reaches:
  assumes "I fl" "\<And>fl. I fl \<Longrightarrow> I (poll_task P elapsed get D L debug svc fl)"
    and "\<And>fl. I fl \<Longrightarrow> c fl \<longleftrightarrow> J fl" "\<And>fl. J fl \<Longrightarrow> J (poll_task P elapsed get D L debug svc fl)"
    and "J fl \<or> task_ready elapsed fl \<and> J (poll_task P elapsed get D L debug svc fl)"
    and "system_time_now (flow_clock fl) \<le> S + Z"
  obtains fl' where "rt_until T c fl = (Inr (), fl')" "J fl'"
proof -
  obtain r fl' where run: "rt_until T c fl = (r, fl')" by (metis surj_pair)
  have clock: "flow_clock fl' = flow_clock fl" using busy_until [OF assms(6), of c] run by simp
  note law = until [OF run]
  have "I fl'" by (rule busy_steps [OF law [THEN conjunct1] clock, of I]) (rule assms(1,2))+
  have "J fl'"
  proof (rule ccontr)
    assume no: "\<not> J fl'"
    with \<open>I fl'\<close> assms(3) have "\<not> c fl'" by blast
    from assms(5) show False
    proof
      assume "J fl"
      from busy_steps [OF law [THEN conjunct1] clock, of J, OF this] assms(4) no show False by blast
    next
      assume "task_ready elapsed fl \<and> J (poll_task P elapsed get D L debug svc fl)"
      with law \<open>\<not> c fl'\<close> have "(runtime_step P elapsed get D L debug svc)\<^sup>*\<^sup>* (poll_task P elapsed get D L debug svc fl) fl'"
        and "J (poll_task P elapsed get D L debug svc fl)" by simp_all
      from busy_steps [of P elapsed get D L debug svc _ fl' J, OF this(1) _ this(2)] clock assms(4) no show False by simp
    qed
  qed
  with law assms(3) [OF \<open>I fl'\<close>] run that show thesis by simp
qed

text \<open>Nothing happens while nothing is due.\<close>

lemma calm_time: "calm d m futs us t forms fl \<Longrightarrow> d \<le> Z \<Longrightarrow> system_time_now (flow_clock fl) \<le> S + Z"
  by (simp add: calm_def clock_at_def)

lemma await_waits:
  assumes "calm d m futs us t forms fl" "d \<le> Z"
    and "t \<noteq> u64_MAX \<Longrightarrow> \<not> elapsed (deadline K t) (instant_now (clock_at d))"
  obtains fl' where "rt_await T fl = (Inr (), fl')" "calm d m futs us t forms fl'"
  using await_keeps [of "calm d m futs us t forms" fl, OF assms(1) calm_polled(1) [OF _ assms(3)] calm_time [OF assms(1,2)]]
  by blast

lemma advance_waits:
  assumes "calm d m futs us t forms fl" "d + d' \<le> 1000 * nanos"
    and "t \<noteq> u64_MAX \<Longrightarrow> \<not> elapsed (deadline K t) (instant_now (clock_at (d + d')))"
  obtains fl' where "rt_advance T d' fl = (Inr (), fl')" "calm (d + d') m futs us t forms fl'"
  using advance_keeps [of "calm (d + d') m futs us t forms" d' fl, OF calm_advance [OF assms(1,2)] calm_polled(1) [OF _ assms(3)]]
  by blast

text \<open>A request that has been spawned is received.\<close>

definition arrives ::
  "nat \<Rightarrow> table \<Rightarrow> 'u response_future \<Rightarrow> 'u response_future list \<Rightarrow> ('b, 'm, headers) update_data list \<Rightarrow> u64 \<Rightarrow>
    'u form list \<Rightarrow> ('c, 'g, 'u, 'b, 'm) flow \<Rightarrow> bool" where
  "arrives d m fut futs us t forms fl \<longleftrightarrow> (\<exists>fl'. rt_until T (\<lambda>fl. spawned (flow_world fl) \<noteq> []) fl = (Inr (), fl') \<and>
     calm d m (fut # futs) us t forms fl')"

lemma spawned_arrives:
  assumes "calm d m (fut # futs) us t forms fl" "d \<le> Z"
    and "t \<noteq> u64_MAX \<Longrightarrow> \<not> elapsed (deadline K t) (instant_now (clock_at d))"
  shows "arrives d m fut futs us t forms fl"
proof -
  let ?I = "calm d m (fut # futs) us t forms"
  have "spawned (flow_world fl) \<noteq> [] \<longleftrightarrow> ?I fl" if "?I fl" for fl :: "('c, 'g, 'u, 'b, 'm) flow"
    using that by (simp add: calm_def)
  from until_reaches [of ?I fl "\<lambda>fl. spawned (flow_world fl) \<noteq> []" ?I, OF assms(1) calm_polled(1) [OF _ assms(3)] this
      calm_polled(1) [OF _ assms(3)] disjI1 [OF assms(1)] calm_time [OF assms(1,2)]]
  show ?thesis unfolding arrives_def by blast
qed

end

context flow_bench
begin

section \<open>Requests and updates\<close>

text \<open>A poll of the stream of updates accepts the connections that were made.\<close>

lemma poll_accepts:
  assumes "acc_backoff this = backoff_new" "chan_listening (incoming this)" "chan_connectors (incoming this) \<noteq> 0"
  obtains this' where "idle this'"
    "subscriber_poll_next listener_poll_next elapsed P debug k 1 (this, w) =
      (Inr (case sent w of [] \<Rightarrow> Pending | upd # _ \<Rightarrow> Ready (Some (Inr upd))),
       (this', w\<lparr>sent := tl (sent w)\<rparr>))"
proof -
  let ?ch = "(incoming this)\<lparr>chan_streams := []\<rparr>"
  let ?acc = "this\<lparr>incoming := ?ch, acc_backoff := if chan_streams (incoming this) = [] then acc_backoff this
    else backoff_reset (acc_backoff this), served := served this @ chan_streams (incoming this)\<rparr>"
  have "accept_all listener_poll_next elapsed P debug k this = (Inr Pending, ?acc)"
    using accept_drains [where elapsed = elapsed and k = k and P = P and debug = debug and this = this and r = Pending,
        OF listener_feeds refl] assms
    by (simp add: backoff_poll_def backoff_new_def listener_poll_next_def)
  moreover have "idle ?acc" using assms by (simp add: idle_def backoff_new_def backoff_reset_def)
  ultimately show thesis
    by (intro that [of ?acc]) (simp_all add: subscriber_poll_next_def split: list.splits)
qed

end

context flow_bench
begin

lemma poll_calm:
  assumes "calm d m futs us t forms (fl\<lparr>flow_acceptor := a\<rparr>)"
    and "acc_backoff (flow_acceptor fl) = backoff_new" "chan_listening (incoming (flow_acceptor fl))"
    and "chan_connectors (incoming (flow_acceptor fl)) \<noteq> 0"
  obtains a' where "idle a'" "poll_subscriber P elapsed debug fl =
      (Inr (case us of [] \<Rightarrow> Pending | upd # _ \<Rightarrow> Ready (Some (Inr upd))),
       fl\<lparr>flow_acceptor := a', flow_world := (flow_world fl)\<lparr>sent := tl us\<rparr>\<rparr>)"
proof -
  obtain a' where "idle a'" and poll: "subscriber_poll_next listener_poll_next elapsed P debug (flow_clock fl) 1
      (flow_acceptor fl, flow_world fl) =
      (Inr (case sent (flow_world fl) of [] \<Rightarrow> Pending | upd # _ \<Rightarrow> Ready (Some (Inr upd))),
       (a', (flow_world fl)\<lparr>sent := tl (sent (flow_world fl))\<rparr>))"
    by (rule poll_accepts [OF assms(2-4)])
  moreover have "sent (flow_world fl) = us" using assms(1) by (simp add: calm_def)
  ultimately show thesis by (intro that [of a']) (simp_all add: poll_subscriber_def)
qed

lemma update_read:
  assumes "calm d m futs us t forms fl"
  obtains fl' where "poll_subscriber P elapsed debug fl =
      (Inr (case us of [] \<Rightarrow> Pending | upd # _ \<Rightarrow> Ready (Some (Inr upd))), fl')"
    "calm d m futs (tl us) t forms fl'"
proof -
  have "calm d m futs us t forms (fl\<lparr>flow_acceptor := flow_acceptor fl\<rparr>)" using assms by simp
  then obtain a' where a': "idle a'" and poll: "poll_subscriber P elapsed debug fl =
      (Inr (case us of [] \<Rightarrow> Pending | upd # _ \<Rightarrow> Ready (Some (Inr upd))),
       fl\<lparr>flow_acceptor := a', flow_world := (flow_world fl)\<lparr>sent := tl us\<rparr>\<rparr>)"
    by (rule poll_calm) (use assms in \<open>simp_all add: calm_def idle_def\<close>)
  have "in_time K subs svc s (flow_db fl) ((flow_world fl)\<lparr>sent := tl us\<rparr>) \<longleftrightarrow>
      in_time K subs svc s (flow_db fl) (flow_world fl)" for s
    by (simp add: in_time_def on_schedule_def sleep_covers_def covered_def)
  with a' assms poll show thesis
    by (intro that [of "fl\<lparr>flow_acceptor := a', flow_world := (flow_world fl)\<lparr>sent := tl us\<rparr>\<rparr>"])
      (simp_all add: calm_def)
qed

lemma no_update_calm:
  assumes "calm d m futs [] t forms fl"
  obtains fl' where "no_update P elapsed debug fl = (Inr (), fl')" "calm d m futs [] t forms fl'"
proof -
  obtain fl' where "poll_subscriber P elapsed debug fl = (Inr Pending, fl')" "calm d m futs [] t forms fl'"
    using update_read [OF assms] by auto
  then show thesis by (intro that [of fl']) (simp_all add: no_update_def and_then_def)
qed

text \<open>A request is answered, and the renewal task has nothing to do.\<close>

lemma exchanged:
  assumes calm: "calm d m futs [] t forms fl" and z: "d \<le> Z"
    and run: "serve get D L M F debug svc (secs_at d) req (flow_db fl, flow_world fl) = (Inr resp, (c', w'))"
    and world: "up c'" "\<not> closed w'"
    and early: "next_tick w' \<noteq> u64_MAX \<Longrightarrow> \<not> elapsed (deadline K (next_tick w')) (instant_now (clock_at d))"
  obtains fl' where "exchange T P elapsed get D L M F debug svc req fl = (Inr resp, fl')"
    "calm d (subs c') (spawned w') (sent w') (next_tick w') forms fl'"
proof -
  let ?a = "flow_acceptor fl" and ?ch = "incoming (flow_acceptor fl)"
  let ?fl1 = "fl\<lparr>flow_acceptor := ?a\<lparr>incoming := snd (connector_call ?ch)\<rparr>\<rparr>"
  have d: "d \<le> 1000 * nanos" "flow_clock fl = clock_at d" and idle: "idle ?a" using calm by (simp_all add: calm_def)
  obtain s where s: "flow_task fl = Some s" "in_time K subs svc s (flow_db fl) (flow_world fl)"
    using calm by (auto simp: calm_def)
  have "connects fl = (Inr (), ?fl1)"
    using idle by (simp add: connects_def connector_call_def idle_def Let_def)
  moreover obtain a' where polled: "no_update P elapsed debug ?fl1 = (Inr (), fl\<lparr>flow_acceptor := a'\<rparr>)" "idle a'"
  proof -
    have "calm d m futs [] t forms (?fl1\<lparr>flow_acceptor := ?a\<rparr>)" using calm by simp
    then obtain a' where "idle a'" "poll_subscriber P elapsed debug ?fl1 =
        (Inr Pending, ?fl1\<lparr>flow_acceptor := a', flow_world := (flow_world ?fl1)\<lparr>sent := tl []\<rparr>\<rparr>)"
      by (rule poll_calm [where us = "[]", unfolded list.case])
        (use idle in \<open>simp_all add: idle_def connector_call_def Let_def\<close>)
    moreover have "(flow_world fl)\<lparr>sent := []\<rparr> = flow_world fl" using calm by (simp add: calm_def)
    ultimately show thesis by (intro that [of a']) (simp_all add: no_update_def and_then_def)
  qed
  let ?fl3 = "fl\<lparr>flow_acceptor := a', flow_db := c', flow_world := w'\<rparr>"
  have "own_step listener_poll_next elapsed P K get D L M F debug svc
      (?a, Some s, flow_db fl, flow_world fl) (?a, Some s, c', w')"
    by (rule own_step.serves [of svc "clock_at d"])
      (use margin_passed [OF d(1)] run in \<open>simp_all add: secs_at_def\<close>)
  then have "in_time K subs svc s c' w'"
    by (rule step_in_time [OF platform margin_small pool system_step.own]) (use s(2) in simp)
  then have "calm d (subs c') (spawned w') (sent w') (next_tick w') forms ?fl3"
    using calm world s(1) polled(2) by (simp add: calm_def)
  from await_waits [OF this z early] obtain fl' where
    "rt_await T ?fl3 = (Inr (), fl')"
    "calm d (subs c') (spawned w') (sent w') (next_tick w') forms fl'" .
  moreover have "unwrapped (serve get D L M F debug svc (as_secs (now_unix (flow_clock fl))) req) (fl\<lparr>flow_acceptor := a'\<rparr>) =
      (Inr resp, ?fl3)"
    using run by (simp add: unwrapped_def d(2) secs_at_def)
  ultimately show thesis using polled(1) by (intro that [of fl']) (simp_all add: exchange_def and_then_def)
qed

end

section \<open>Verifications and distributions\<close>

lemma and_then_lift [simp]: "and_then (lift (Inr a)) k = k a" "and_then (lift (Inl f)) k = lift (Inl f)"
  by (simp_all add: fun_eq_iff and_then_def)

lemma asserts_True [simp]: "asserts True = ret ()"
  by (simp add: fun_eq_iff asserts_def assert_that_def)

context flow_bench
begin

lemma intent_sent:
  assumes "reversible i"
  obtains req q where "resolves L svc req i" "uri_query (uri_of L) (req_uri req) = Some q"
    "verify_of_fields (form_parse (form_of L) q) = Some query"
    "verify_intent_at T P elapsed get D L M F debug svc no_body (cb_of i) query =
      and_then (exchange T P elapsed get D L M F debug svc req) (\<lambda>resp.
      and_then (asserts (resp_status resp = OK)) (\<lambda>_. asserts (resp_body resp = verify_challenge query)))"
proof -
  obtain q where q: "form_to_string (form_of L) (verify_fields query) = Some q"
    "form_parse (form_of L) q = verify_fields query"
    using form_spec.form_roundtrip [OF form_laws] by blast
  from cb_of(5) [OF q(1), of i] obtain u where
    u: "uri_parse (uri_of L) (uri_display (uri_of L) (cb_of i) @ ''?'' @ q) = Some u"
    "uri_path (uri_of L) u = uri_path (uri_of L) (cb_of i)" "uri_query (uri_of L) u = Some q" by blast
  let ?req = "\<lparr>req_uri = u, req_headers = [], req_body = no_body\<rparr>"
  have "resolves L svc ?req i" by (rule cb_resolves [OF assms]) (simp add: u(2))
  with q u show thesis
    by (intro that [of ?req q]) (simp_all add: verify_roundtrip verify_intent_at_def)
qed

lemma intent_served:
  assumes "resolves L svc req i" "uri_query (uri_of L) (req_uri req) = Some q" "up c"
  obtains c1 where "subs c1 = subs c" "up c1"
    "\<forall>resp x. verify_intent D L debug svc now i q (c1, w) = (Inr resp, x) \<longrightarrow>
       serve get D L M F debug svc now req (c, w) = (Inr resp, x)"
proof -
  obtain c1 where c1: "subs c1 = subs c" "up c1"
    "(service_call get D L M F debug svc now req (c, w) :: ((_, _) service_error, response) result \<times> _) =
       handle_id D L M F debug svc now i req (c1, w)"
    using with_connection_up [OF pool assms(3)] unfolding service_call_resolves [OF assms(1)] by metis
  show thesis
    by (rule that [OF c1(1,2)]) (simp add: serve_def c1(3) handle_id_def assms(2) map_err_def)
qed

lemma verify_subscribes:
  assumes calm: "calm d m futs [] t forms fl" and z: "d \<le> Z" and i: "reversible i"
    and p: "pending i topic m = Some hub" "uri_parse (uri_of L) hub \<noteq> None"
    and lease: "43 \<le> unat lease" "unat lease \<le> 1000"
    and early: "t \<noteq> u64_MAX \<Longrightarrow> \<not> elapsed (deadline K t) (instant_now (clock_at d))"
  obtains fl' e t' old futs' where
    "verify_intent_at T P elapsed get D L M F debug svc no_body (cb_of i) (VerifySubscribe topic challenge lease) fl =
      (Inr (), fl')"
    "calm d (verified i e hub topic m) (futs @ futs') [] (min t t') forms fl'"
    "sint e = int (unat (secs_at d) + unat lease)" "unat t' = unat (secs_at d) + unat lease - 42"
    "distinct old" "set old = duplicates i hub topic m" "list_all2 (drops L (callback svc) hub topic) old futs'"
proof -
  let ?e = "lease_expiry (secs_at d) lease" and ?w = "flow_world fl" and ?c = "flow_db fl"
  let ?t = "?e - renewal_margin svc"
  have fl: "d \<le> 1000 * nanos" "subs ?c = m" "up ?c" "spawned ?w = futs" "sent ?w = []" "\<not> closed ?w" "next_tick ?w = t"
    using calm by (simp_all add: calm_def)
  note secs = secs_at_bounds [OF fl(1)]
  have "unat (secs_at d) + unat lease < 2 ^ 63" using secs(4) lease(2) by simp
  then have "int (unat (secs_at d) + unat lease) < int (2 ^ 63)" by (simp only: of_nat_less_iff)
  then have "int (unat (secs_at d) + unat lease) \<le> 2 ^ 63 - 1" by simp
  then have e: "sint ?e = int (unat (secs_at d) + unat lease)"
    unfolding sint_lease_expiry by (simp only: min_absorb2)
  then have margin_e: "int (unat (renewal_margin svc)) \<le> sint ?e" 
    unfolding e margin of_nat_le_iff using lease(1) by simp
  have "int (unat ?t) = int (unat (secs_at d) + unat lease) - int (unat (42 :: u64))"
    using refresh_time_late(2) [OF margin_e] unfolding e margin .
  then have "int (unat ?t + 42) = int (unat (secs_at d) + unat lease)" by simp
  then have "unat ?t + 42 = unat (secs_at d) + unat lease" by (simp only: of_nat_eq_iff)
  then have t: "unat ?t = unat (secs_at d) + unat lease - 42" by simp
  obtain req q where req: "resolves L svc req i" "uri_query (uri_of L) (req_uri req) = Some q"
      "verify_of_fields (form_parse (form_of L) q) = Some (VerifySubscribe topic challenge lease)"
    and sent: "verify_intent_at T P elapsed get D L M F debug svc no_body (cb_of i) (VerifySubscribe topic challenge lease) =
      and_then (exchange T P elapsed get D L M F debug svc req) (\<lambda>resp.
      and_then (asserts (resp_status resp = OK)) (\<lambda>_.
      asserts (resp_body resp = verify_challenge (VerifySubscribe topic challenge lease))))"
    by (rule intent_sent [OF i])
  obtain c1 where c1: "subs c1 = m" "up c1"
      "\<forall>resp x. verify_intent D L debug svc (secs_at d) i q (c1, ?w) = (Inr resp, x) \<longrightarrow>
         serve get D L M F debug svc (secs_at d) req (?c, ?w) = (Inr resp, x)"
    by (rule intent_served [where now = "secs_at d" and w = ?w and M = M and F = F,
        OF req(1,2) fl(3), unfolded fl(2)])
  obtain c' old futs' where run: "verify_intent D L debug svc (secs_at d) i q (c1, ?w) = (Inr (response_new challenge),
       (c', (hasten ?t ?w)\<lparr>spawned := spawned ?w @ futs'\<rparr>))"
    and after: "subs c' = verified i ?e hub topic (subs c1)" "up c'"
    and old: "distinct old" "set old = duplicates i hub topic (subs c1)" "list_all2 (drops L (callback svc) hub topic) old futs'"
    by (rule verify_pending [OF c1(2) req(3) p(1) [folded c1(1)] p(2) margin_e])
  let ?w' = "(hasten ?t ?w)\<lparr>spawned := spawned ?w @ futs'\<rparr>"
  have shown: "next_tick ?w' = min t ?t" by (simp add: next_tick_hasten fl(7))
  have "S + d < unat ?t * nanos" using secs(2) lease(1) unfolding t by (simp add: algebra_simps)
  then have "\<not> elapsed (deadline K ?t) (instant_now (clock_at d))" by (rule not_yet)
  then have early': "\<not> elapsed (deadline K (next_tick ?w')) (instant_now (clock_at d))" if "next_tick ?w' \<noteq> u64_MAX"
    using early that [unfolded shown] unfolding shown by (cases "t \<le> ?t") (simp_all add: min_def)
  obtain fl' where "exchange T P elapsed get D L M F debug svc req fl = (Inr (response_new challenge), fl')"
    "calm d (subs c') (spawned ?w') (sent ?w') (next_tick ?w') forms fl'"
    by (rule exchanged [OF calm z c1(3) [rule_format, OF run] after(2) _ early']) (use fl(6) in simp)
  then show thesis
    using sent after(1) old e t shown fl(4,5) c1(1)
    by (intro that [of fl' ?e futs' ?t old]) (simp_all add: and_then_def response_new_def)
qed

lemma verify_unsubscribes:
  assumes calm: "calm d m futs [] t forms fl" and z: "d \<le> Z" and i: "reversible i" and gone: "m i = None"
    and early: "t \<noteq> u64_MAX \<Longrightarrow> \<not> elapsed (deadline K t) (instant_now (clock_at d))"
  obtains fl' where
    "verify_intent_at T P elapsed get D L M F debug svc no_body (cb_of i) (VerifyUnsubscribe topic challenge) fl =
      (Inr (), fl')" "calm d m futs [] t forms fl'"
proof -
  let ?w = "flow_world fl" and ?c = "flow_db fl"
  have fl: "subs ?c = m" "up ?c" "spawned ?w = futs" "sent ?w = []" "\<not> closed ?w" "next_tick ?w = t"
    using calm by (simp_all add: calm_def)
  obtain req q where req: "resolves L svc req i" "uri_query (uri_of L) (req_uri req) = Some q"
      "verify_of_fields (form_parse (form_of L) q) = Some (VerifyUnsubscribe topic challenge)"
    and sent: "verify_intent_at T P elapsed get D L M F debug svc no_body (cb_of i) (VerifyUnsubscribe topic challenge) =
      and_then (exchange T P elapsed get D L M F debug svc req) (\<lambda>resp.
      and_then (asserts (resp_status resp = OK)) (\<lambda>_.
      asserts (resp_body resp = verify_challenge (VerifyUnsubscribe topic challenge))))"
    by (rule intent_sent [OF i])
  obtain c1 where c1: "subs c1 = m" "up c1"
      "\<forall>resp x. verify_intent D L debug svc (secs_at d) i q (c1, ?w) = (Inr resp, x) \<longrightarrow>
         serve get D L M F debug svc (secs_at d) req (?c, ?w) = (Inr resp, x)"
    by (rule intent_served [where now = "secs_at d" and w = ?w and M = M and F = F,
        OF req(1,2) fl(2), unfolded fl(1)])
  obtain r c' w' where run: "verify_intent D L debug svc (secs_at d) i q (c1, ?w) = (r, (c', w'))"
    by (metis prod_cases3)
  from verify_unsubscribe_cases [OF req(3) run] c1(1,2) gone
  have after: "subs c' = m" "w' = ?w" "up c'" "r = Inr (response_new challenge)" by simp_all
  note served = c1(3) [rule_format, OF run [unfolded after(2,4)]]
  obtain fl' where "exchange T P elapsed get D L M F debug svc req fl = (Inr (response_new challenge), fl')"
    "calm d (subs c') (spawned ?w) (sent ?w) (next_tick ?w) forms fl'"
    by (rule exchanged [OF calm z served after(3) fl(5)]) (use early fl(6) in simp)
  then show thesis
    using sent after(1) fl by (intro that [of fl']) (simp_all add: and_then_def response_new_def)
qed

end

lemma body_reads_to:
  assumes vb: "verified_body M tag keyed U contents good"
    and "body_answers B (Suc n) (body c) = (rs @ [Ready None], b')" "list_all (transfers good) rs"
    and "verifying keyed sig secret m (verifier c)"
    and "tag (sig_alg sig) secret (m @ data_bytes contents rs) = sig_digest sig"
  shows "reads_to M U B contents c (data_bytes contents rs)"
  using assms(2-5)
proof (induction rs arbitrary: n c m)
  case Nil
  then have "n = 0" using body_answers_length [OF Nil(1)] by simp
  with Nil(1) have "body_poll_data B (body c) = (Ready None, b')" by (simp split: prod.splits)
  from verified_body.poll_end [OF vb this Nil(3)] Nil(4) obtain c' where
    "poll_data M U B c = (Inr (Ready None), c')" by auto
  then show ?case by (simp add: reads_to.ended)
next
  case (Cons r rs)
  have "n = Suc (n - 1)" using body_answers_length [OF Cons(2)] by simp
  then obtain b where b: "body_poll_data B (body c) = (r, b)" "body_answers B (Suc (n - 1)) b = (rs @ [Ready None], b')"
    using Cons(2) by (cases n) (auto split: prod.splits)
  from Cons(3) have r: "transfers good r" "list_all (transfers good) rs" by simp_all
  from verified_body.poll_transfer [OF vb b(1) r(1) Cons(4)] obtain c' where
    c': "poll_data M U B c = (Inr (passed_on r), c')" "body c' = b"
    "verifying keyed sig secret (m @ data_bytes contents [r]) (verifier c')" by blast
  have "(m @ data_bytes contents [r]) @ data_bytes contents rs = m @ data_bytes contents (r # rs)"
    using r(1) by (cases r rule: passed_on.cases) simp_all
  with Cons(5) have "tag (sig_alg sig) secret ((m @ data_bytes contents [r]) @ data_bytes contents rs) = sig_digest sig"
    by simp
  from Cons(1) [OF b(2) [folded c'(2)] r(2) c'(3) this]
  have "reads_to M U B contents c' (data_bytes contents rs)" .
  with c'(1) r(1) show ?case
    by (cases r rule: passed_on.cases) (auto intro: reads_to.intros)
qed

context flow_bench
begin

lemma distributes_content:
  assumes calm: "calm d m futs [] t forms fl" and z: "d \<le> Z" and i: "reversible i"
    and row: "m i = Some s" "sub_topic s = TOPIC"
    and early: "t \<noteq> u64_MAX \<Longrightarrow> \<not> elapsed (deadline K t) (instant_now (clock_at d))"
    and mac: "mac_spec M tag keyed" "length (tag SHA1 (as_bytes (sub_secret s)) CONTENT) = output_size SHA1" "sha_1 F"
    and post: "buf_spec U contents good" "body_answers B (Suc n) post = (rs @ [Ready None], b')"
      "list_all (transfers good) rs" "data_bytes contents rs = CONTENT" and read: "collects M U B contents to_bytes"
  obtains fl' where
    "distributes T P elapsed get D L M F debug svc to_bytes post (cb_of i) (sub_secret s) fl = (Inr (), fl')"
    "calm d m futs [] t forms fl'"
proof -
  let ?secret = "as_bytes (sub_secret s)" and ?w = "flow_world fl" and ?c = "flow_db fl"
  let ?digest = "tag SHA1 ?secret CONTENT"
  let ?headers = "[(CONTENT_TYPE, as_bytes APPLICATION_ATOM_XML), (HUB_SIGNATURE, as_bytes ''sha1='' @ hex_encode ?digest)]"
  let ?req = "\<lparr>req_uri = cb_of i, req_headers = ?headers, req_body = post\<rparr>"
  have fl: "subs ?c = m" "up ?c" "spawned ?w = futs" "sent ?w = []" "\<not> closed ?w" "next_tick ?w = t"
    using calm by (simp_all add: calm_def)
  obtain mac0 where mac0: "new_from_slice M SHA1 ?secret = Some mac0" "keyed SHA1 ?secret [] mac0"
    using mac_spec.mac_new [OF mac(1)] by blast
  obtain digest mac1 where fin: "finalize_reset M SHA1 (hmac_update M SHA1 mac0 CONTENT) = (digest, mac1)"
    by (metis surj_pair)
  from mac_spec.mac_finalize [OF mac(1) mac_spec.hmac_update [OF mac(1) mac0(2), of CONTENT] fin]
  have "digest = ?digest" by simp
  with mac0 fin have dist: "distribution L M (cb_of i) (sub_secret s) post = (Inr ?req :: (unit, _) result)"
    by (simp add: distribution_def)
  have res: "resolves L svc ?req i" by (rule cb_resolves [OF i]) simp
  have query: "uri_query (uri_of L) (req_uri ?req) = None" by (simp add: cb_of(3))
  have spelled: "as_bytes ''sha1='' @ hex_encode ?digest = as_bytes (method_name SHA1) @ eq_sign # hex_encode ?digest"
    by (simp add: as_bytes_def eq_sign_def)
  have "parse F (memchr_of L) (hex_of L) (as_bytes ''sha1='' @ hex_encode ?digest) = Inr (Sha1 ?digest)"
    unfolding spelled
    using parse_known [OF memchr_laws, of F SHA1 "hex_of L" "hex_encode ?digest"] mac(2,3) by (simp add: decode_hex_eq [OF hex_laws])
  then have best: "best (parsed F L (get_all (req_headers ?req) HUB_SIGNATURE)) = Some (Sha1 ?digest)"
    by (simp add: parsed_def get_all_def HUB_SIGNATURE_def CONTENT_TYPE_def List.map_filter_simps best_def)
  obtain c' content where run: "service_call get D L M F debug svc (secs_at d) ?req (?c, ?w) =
      (Inr response_default :: ((_, _) service_error, response) result,
       (c', if closed ?w then ?w else ?w\<lparr>sent := sent ?w @ [\<lparr>update_topic = sub_topic s,
          update_headers = req_headers ?req, update_content = content\<rparr>]\<rparr>))"
    and after: "subs c' = subs ?c" "up c'"
    and content: "content_new M (req_body ?req) (Sha1 ?digest) ?secret = (Inr content :: (unit, _) result)"
    by (rule update_delivered [OF pool mac(1) fl(2) res query best row(1) [folded fl(1)]])
  let ?upd = "\<lparr>update_topic = TOPIC, update_headers = ?headers, update_content = content\<rparr>"
  let ?w' = "?w\<lparr>sent := [?upd]\<rparr>"
  have serve: "serve get D L M F debug svc (secs_at d) ?req (?c, ?w) = (Inr response_default, (c', ?w'))"
    using run fl(4,5) row(2) by (simp add: serve_def)
  obtain fl1 where fl1: "exchange T P elapsed get D L M F debug svc ?req fl = (Inr response_default, fl1)"
    "calm d (subs c') (spawned ?w') (sent ?w') (next_tick ?w') forms fl1"
    by (rule exchanged [OF calm z serve after(2)]) (use fl early in simp_all)
  then have "calm d m futs [?upd] t forms fl1" using fl after(1) by simp
  then obtain fl2 where fl2: "poll_subscriber P elapsed debug fl1 = (Inr (Ready (Some (Inr ?upd))), fl2)"
    "calm d m futs [] t forms fl2"
    by (rule update_read [where us = "[?upd]", unfolded list.case list.sel])
  obtain v where v: "(verify_with M (Sha1 ?digest) ?secret :: (unit, _) result) = Inr v"
    "verifying keyed (Sha1 ?digest) ?secret [] v"
    using mac_spec.verify_with_verifying [OF mac(1)] by blast
  with content have "content = \<lparr>body = post, verifier = v\<rparr>" by (simp add: content_new_def)
  then have "reads_to M U B contents content CONTENT"
    using body_reads_to [OF verified_body.intro [OF mac(1) post(1)], of B n content rs b' "Sha1 ?digest" ?secret "[]"]
      post(2-4) v(2) by simp
  with read have "to_bytes content = Some CONTENT" by (simp add: collects_def)
  with dist fl1(1) fl2 show thesis
    by (intro that [of fl2]) (simp_all add: distributes_def and_then_def response_default_def asserts_def assert_that_def)
qed

end

section \<open>The hub's requests\<close>

context flow_bench
begin

text \<open>The hub has read a form, and is left to serve the connection to its end.\<close>

lemma form_received:
  assumes calm: "calm d m futs us t forms fl" and fut: "posts_form L (callback svc) i form HUB topic fut"
    and form: "form = (\<lambda>cb. SubscribeForm cb topic secret) \<or> form = (\<lambda>cb. UnsubscribeForm cb topic)"
    and time: "d + DELAY \<le> 1000 * nanos"
      "t \<noteq> u64_MAX \<Longrightarrow> S + (d + DELAY) < unat t * nanos"
  obtains fl' where "accept_form T L ''/hub'' fut fl = and_then (rt_await T) (\<lambda>_. ret (form (cb_of i))) fl'"
    "calm (d + DELAY) m futs us t (forms @ [form (cb_of i)]) fl'"
proof -
  let ?req = "future_request fut" and ?fl = "fl\<lparr>flow_forms := flow_forms fl @ [form (cb_of i)]\<rparr>"
  have uri: "uri_parse (uri_of L) HUB = Some (request_uri ?req)"
    and type: "request_content_type ?req = APPLICATION_WWW_FORM_URLENCODED"
    and fields: "form_parse (form_of L) (request_body ?req) = form_fields (uri_of L) (form (cb_of i))"
    using fut cb_of(1) [of i] by (auto simp: posts_form_def)
  obtain p where p: "path_and_query (uri_of L) (request_uri ?req) = Some p" "pq_as_str (uri_of L) p = ''/hub''"
    using parse_hub uri by auto
  have read: "form_of_fields (uri_of L) (form_parse (form_of L) (request_body ?req)) = Some (form (cb_of i))"
    using form form_read unfolding fields by auto
  have "calm d m futs us t (forms @ [form (cb_of i)]) ?fl" using calm by (simp add: calm_def)
  then obtain fl1 where fl1: "rt_advance T DELAY ?fl = (Inr (), fl1)"
    "calm (d + DELAY) m futs us t (forms @ [form (cb_of i)]) fl1"
    by (rule advance_waits [OF _ time(1) not_yet [OF time(2)]])
  with p type read show thesis
    by (intro that [of fl1]) (simp_all add: accept_form_def Let_def and_then_def [of "\<lambda>fl. (Inr (), _ fl)"]
        and_then_def [of "rt_advance _ _"])
qed

lemma form_accepted:
  assumes calm: "calm d m futs us t forms fl" and fut: "posts_form L (callback svc) i form HUB topic fut"
    and form: "form = (\<lambda>cb. SubscribeForm cb topic secret) \<or> form = (\<lambda>cb. UnsubscribeForm cb topic)"
    and time: "d + DELAY \<le> Z"
      "t \<noteq> u64_MAX \<Longrightarrow> S + (d + DELAY) < unat t * nanos"
  obtains fl' where "accept_form T L ''/hub'' fut fl = (Inr (form (cb_of i)), fl')"
    "calm (d + DELAY) m futs us t (forms @ [form (cb_of i)]) fl'"
proof -
  obtain fl1 where fl1: "accept_form T L ''/hub'' fut fl = and_then (rt_await T) (\<lambda>_. ret (form (cb_of i))) fl1"
    "calm (d + DELAY) m futs us t (forms @ [form (cb_of i)]) fl1"
    by (rule form_received [OF calm fut form le_trans [OF time(1) window] time(2)])
  obtain fl' where "rt_await T fl1 = (Inr (), fl')" "calm (d + DELAY) m futs us t (forms @ [form (cb_of i)]) fl'"
    by (rule await_waits [OF fl1(2) time(1) not_yet [OF time(2)]])
  with fl1(1) show thesis by (intro that [of fl']) (simp_all add: and_then_def)
qed

text \<open>The request is the first to arrive.\<close>

lemma request_taken:
  assumes "arrives d m fut futs us t forms fl"
  obtains fl' where "accept_request T L path fl = accept_form T L path fut fl'" "calm d m futs us t forms fl'"
proof -
  obtain fl1 where fl1: "rt_until T (\<lambda>fl. spawned (flow_world fl) \<noteq> []) fl = (Inr (), fl1)"
    "calm d m (fut # futs) us t forms fl1" using assms by (auto simp: arrives_def)
  let ?fl2 = "fl1\<lparr>flow_world := (flow_world fl1)\<lparr>spawned := futs\<rparr>\<rparr>"
  have spawned: "spawned (flow_world fl1) = fut # futs" using fl1(2) by (simp add: calm_def)
  have "in_time K subs svc s (flow_db fl1) ((flow_world fl1)\<lparr>spawned := futs\<rparr>) \<longleftrightarrow>
      in_time K subs svc s (flow_db fl1) (flow_world fl1)" for s
    by (simp add: in_time_def on_schedule_def sleep_covers_def covered_def)
  with fl1(2) have "calm d m futs us t forms ?fl2" by (simp add: calm_def)
  with fl1(1) spawned show thesis
    by (intro that [of ?fl2]) (simp_all add: accept_request_def and_then_def)
qed

lemma request_accepted:
  assumes "arrives d m fut futs us t forms fl"
    and fut: "posts_form L (callback svc) i form HUB topic fut"
    and form: "form = (\<lambda>cb. SubscribeForm cb topic secret) \<or> form = (\<lambda>cb. UnsubscribeForm cb topic)"
    and time: "d + DELAY \<le> Z"
      "t \<noteq> u64_MAX \<Longrightarrow> S + (d + DELAY) < unat t * nanos"
  obtains fl' where "accept_request T L ''/hub'' fl = (Inr (form (cb_of i)), fl')"
    "calm (d + DELAY) m futs us t (forms @ [form (cb_of i)]) fl'"
proof -
  obtain fl1 where fl1: "accept_request T L ''/hub'' fl = accept_form T L ''/hub'' fut fl1" "calm d m futs us t forms fl1"
    by (rule request_taken [OF assms(1)])
  from form_accepted [OF fl1(2) fut form time] fl1(1) show thesis using that by metis
qed

end

section \<open>The renewal\<close>

lemma distinct_single: "distinct xs \<Longrightarrow> set xs = {x} \<Longrightarrow> xs = [x]"
  by (cases xs; cases "tl xs") auto

text \<open>What a tick leaves when one subscription is due.\<close>

lemma renewed_single:
  assumes "renewed L prefix th m m' futs" "m i = Some s" "expires_before th s"
    and "\<And>k s'. k \<noteq> i \<Longrightarrow> m k = Some s' \<Longrightarrow> \<not> expires_before th s'"
  obtains j secret fut where "futs = [fut]" "j \<notin> dom m"
    "m' = m(i \<mapsto> s\<lparr>sub_expires_at := None\<rparr>,
       j \<mapsto> \<lparr>sub_hub = sub_hub s, sub_topic = sub_topic s, sub_secret = secret, sub_expires_at = None\<rparr>)"
    "posts_form L prefix j (\<lambda>cb. SubscribeForm cb (sub_topic s) secret) (sub_hub s) (sub_topic s) fut"
proof -
  obtain xs news where xs: "distinct (map fst xs)" "set xs = expiring th m" "list_all2 (asks L prefix) xs news"
    and news: "fst ` set news \<inter> dom m = {}" "m' = deactivated th (insert_all xs news m)"
      "futs = map (\<lambda>(_, _, fut). fut) news"
    using assms(1) by (auto simp: renewed_def)
  have "expiring th m = {(i, sub_hub s, sub_topic s)}"
    using assms(2-4) by (force simp: expiring_def)
  with xs(1,2) have "xs = [(i, sub_hub s, sub_topic s)]" by (intro distinct_single) (simp_all add: distinct_map)
  with xs(3) obtain j secret fut where new: "news = [(j, secret, fut)]"
    "posts_form L prefix j (\<lambda>cb. SubscribeForm cb (sub_topic s) secret) (sub_hub s) (sub_topic s) fut"
    by (auto simp: list_all2_Cons1 asks_def)
  from new(1) news(1) have j: "j \<notin> dom m" by simp
  let ?new = "\<lparr>sub_hub = sub_hub s, sub_topic = sub_topic s, sub_secret = secret, sub_expires_at = None\<rparr>"
  have "m' k = (m(i \<mapsto> s\<lparr>sub_expires_at := None\<rparr>, j \<mapsto> ?new)) k" for k
  proof -
    have "\<not> expires_before th ?new" by (simp add: expires_before_def)
    then show ?thesis
      using assms(2,3) assms(4) [of k] j unfolding news(2) new(1) \<open>xs = _\<close>
      by (cases "k = i"; cases "m k"; auto simp: deactivated_def created_def)
  qed
  then have "m' = m(i \<mapsto> s\<lparr>sub_expires_at := None\<rparr>, j \<mapsto> ?new)" by (rule ext)
  with that new(2) j news(3) new(1) show thesis by simp
qed

context flow_bench
begin

lemma calm_renews_one:
  assumes calm: "calm d m futs us t forms fl"
    and come: "t \<noteq> u64_MAX" "elapsed (deadline K t) (instant_now (clock_at d))"
    and few: "2 * card (dom m) < 2 ^ 64" and uris: "hubs_are_uris L m"
    and due: "m i = Some s" "sub_expires_at s = Some e" "sint e \<le> int (unat (secs_at d) + 43)"
    and rest: "\<And>k s' e'. k \<noteq> i \<Longrightarrow> m k = Some s' \<Longrightarrow> sub_expires_at s' = Some e' \<Longrightarrow>
      int (unat (secs_at d) + 43) < sint e'"
  obtains j secret fut e' n where "task_ready elapsed fl" "j \<notin> dom m"
    "calm d (m(i \<mapsto> s\<lparr>sub_expires_at := None\<rparr>, j \<mapsto> \<lparr>sub_hub = sub_hub s, sub_topic = sub_topic s,
       sub_secret = secret, sub_expires_at = None\<rparr>)) (futs @ [fut]) us (handle_next_tick n) forms
       (poll_task P elapsed get D L debug svc fl)"
    "posts_form L (callback svc) j (\<lambda>cb. SubscribeForm cb (sub_topic s) secret) (sub_hub s) (sub_topic s) fut"
    "first_expiry (m(i \<mapsto> s\<lparr>sub_expires_at := None\<rparr>, j \<mapsto> \<lparr>sub_hub = sub_hub s, sub_topic = sub_topic s,
       sub_secret = secret, sub_expires_at = None\<rparr>)) e'"
    "next_tick_after svc (secs_at d) e' n"
proof -
  obtain th m' futs' e' n where polled: "task_ready elapsed fl"
      "calm d m' (futs @ futs') us (handle_next_tick n) forms (poll_task P elapsed get D L debug svc fl)"
    and th: "sint th = int (unat (secs_at d) + 43)" and renewed: "renewed L (callback svc) th m m' futs'"
    and after: "first_expiry m' e'" "next_tick_after svc (secs_at d) e' n"
    by (rule calm_renews [OF calm come few uris])
  have "expires_before th s" using due(2,3) by (simp add: expires_before_def th)
  moreover have "\<not> expires_before th s'" if "k \<noteq> i" "m k = Some s'" for k s'
    using rest [OF that] by (auto simp: expires_before_def th not_le split: option.splits)
  ultimately obtain j secret fut where "futs' = [fut]" "j \<notin> dom m"
    "m' = m(i \<mapsto> s\<lparr>sub_expires_at := None\<rparr>,
       j \<mapsto> \<lparr>sub_hub = sub_hub s, sub_topic = sub_topic s, sub_secret = secret, sub_expires_at = None\<rparr>)"
    "posts_form L (callback svc) j (\<lambda>cb. SubscribeForm cb (sub_topic s) secret) (sub_hub s) (sub_topic s) fut"
    by (rule renewed_single [OF renewed due(1)])
  with that polled after show thesis by blast
qed

end

section \<open>Steps of a test\<close>

lemma durations: "DELAY = 10 ^ 6" "MARGIN = 42 * nanos" "as_secs (2 * MARGIN) = 84"
  by (simp_all add: DELAY_def MARGIN_def as_secs_def)

lemma map_of_form [simp]:
  "subscribe_form (SubscribeForm cb topic secret) = ret (cb, topic, secret)"
  "unsubscribe_form (UnsubscribeForm cb topic) = ret (cb, topic)"
  by (simp_all add: subscribe_form_def unsubscribe_form_def)

lemma and_then_step: "m s = (Inr a, s') \<Longrightarrow> and_then m k s = k a s'"
  by (simp add: and_then_def)

context flow_bench
begin

lemma calm_quiet:
  assumes "calm d m futs us t forms fl" "same_handle (flow_world fl) w'" "\<not> closed w'" "up c'"
    and "expiries (subs c') \<subseteq> expiries m"
  shows "calm d (subs c') (spawned w') (sent w') t forms (fl\<lparr>flow_db := c', flow_world := w'\<rparr>)"
proof -
  obtain s where s: "flow_task fl = Some s" "in_time K subs svc s (flow_db fl) (flow_world fl)"
    using assms(1) by (auto simp: calm_def)
  have "in_time K subs svc s c' w'"
    using s(2) assms(1,2,5)
    by (auto simp: in_time_def on_schedule_def sleep_covers_def covered_def same_handle_def calm_def)
  with s(1) assms(1-4) show ?thesis by (simp add: calm_def same_handle_def)
qed

lemma connection_taken:
  assumes "calm d m futs us t forms fl"
  obtains a fl' where "unwrapped (on_fst get) fl = (Inr a, fl')" "calm d m futs us t forms fl'"
proof -
  have fl: "up (flow_db fl)" "subs (flow_db fl) = m" "spawned (flow_world fl) = futs" "sent (flow_world fl) = us"
    "\<not> closed (flow_world fl)" using assms by (simp_all add: calm_def)
  obtain r c' where run: "get (flow_db fl) = (r, c')" by (metis surj_pair)
  from pool run show thesis
  proof (cases rule: statementE)
    case (ok a)
    then have "calm d m futs us t forms (fl\<lparr>flow_db := c', flow_world := flow_world fl\<rparr>)"
      using calm_quiet [OF assms, of "flow_world fl" c'] fl by (simp add: same_handle_simps)
    with ok run show thesis by (intro that) (simp_all add: unwrapped_def on_fst_def)
  qed (use fl in simp)
qed

lemma no_request_calm: "calm d m [] us t forms fl \<Longrightarrow> no_request fl = (Inr (), fl)"
  by (simp add: no_request_def calm_def)

end

section \<open>What the hub has read stays in the log\<close>

definition logs :: "(('c, 'g, 'u, 'b, 'm) flow, 'e, 'r) action \<Rightarrow> bool" where
  "logs m \<longleftrightarrow> (\<forall>fl. set (flow_forms fl) \<subseteq> set (flow_forms (snd (m fl))))"

lemma logs_and_then [intro]: "logs m \<Longrightarrow> (\<And>a. logs (k a)) \<Longrightarrow> logs (and_then m k)"
  unfolding logs_def and_then_def by (fastforce split: prod.splits sum.splits)

lemma logs_simps [intro]:
  "logs (ret a)" "logs (lift r)" "logs (asserts b)" "logs no_request" "logs connects" "logs (unwrapped m)"
  "logs (poll_subscriber P elapsed debug)"
  by (auto simp: logs_def action_defs asserts_def no_request_def connects_def unwrapped_def poll_subscriber_def
      Let_def split: prod.splits sum.splits option.splits)

lemma logs_no_update [intro]: "logs (no_update P elapsed debug)"
  unfolding no_update_def by (intro logs_and_then logs_simps) (auto split: poll.split)

lemma logs_forms [intro]: "logs (subscribe_form form)" "logs (unsubscribe_form form)"
  by (auto simp: subscribe_form_def unsubscribe_form_def split: form.split)

lemma logs_row_gone [intro]: "logs (row_gone get D L cb)"
  unfolding row_gone_def by (intro logs_and_then logs_simps)

context tokio
begin

lemma steps_log: "(runtime_step P elapsed get D L debug svc)\<^sup>*\<^sup>* fl fl' \<Longrightarrow> flow_forms fl' = flow_forms fl"
  by (induction rule: rtranclp_induct)
    (auto simp: runtime_step.simps idles.simps poll_task_def split: prod.splits)

lemma logs_runtime [intro]: "logs (rt_advance T d)" "logs (rt_await T)" "logs (rt_until T c)"
proof -
  have "flow_forms (snd (rt_advance T d fl)) = flow_forms fl" for fl
    using advance [of d fl] steps_log [of "moved d fl" "snd (rt_advance T d fl)"]
    by (cases "rt_advance T d fl") simp
  then show "logs (rt_advance T d)" by (simp add: logs_def)
  have "flow_forms (snd (rt_await T fl)) = flow_forms fl" for fl
    using await [of fl] steps_log [of fl "snd (rt_await T fl)"] by (cases "rt_await T fl") simp
  then show "logs (rt_await T)" by (simp add: logs_def)
  have "flow_forms (snd (rt_until T c fl)) = flow_forms fl" for fl
    using until [of c fl] steps_log [of fl "snd (rt_until T c fl)"] by (cases "rt_until T c fl") simp
  then show "logs (rt_until T c)" by (simp add: logs_def)
qed

lemma logs_exchange [intro]: "logs (exchange T P elapsed get D L M F debug svc req)"
  unfolding exchange_def
  by (intro logs_and_then logs_simps logs_no_update logs_runtime) (simp add: logs_def unwrapped_def split: prod.splits)

lemma logs_accept_form [intro]: "logs (accept_form T L path fut)"
  unfolding accept_form_def Let_def
  by (intro logs_and_then logs_simps logs_runtime) (simp add: logs_def subset_insertI)

lemma logs_accept_request [intro]: "logs (accept_request T L path)"
proof -
  have "set (flow_forms fl) \<subseteq> set (flow_forms (snd (accept_form T L path fut (fl\<lparr>flow_world := w\<rparr>))))" for fl fut w
    using logs_accept_form [of path fut, unfolded logs_def, THEN spec [where x = "fl\<lparr>flow_world := w\<rparr>"]] by simp
  then show ?thesis
    unfolding accept_request_def
    by (intro logs_and_then logs_runtime) (auto simp: logs_def split: list.split)
qed

lemma logs_verify_intent_at [intro]: "logs (verify_intent_at T P elapsed get D L M F debug svc no_body cb query)"
  unfolding verify_intent_at_def by (intro logs_and_then logs_simps logs_exchange)

lemma logs_distributes [intro]: "logs (distributes T P elapsed get D L M F debug svc to_bytes post cb secret)"
  unfolding distributes_def
  by (intro logs_and_then logs_simps logs_exchange) (auto split: poll.split option.split sum.split)

lemma logs_flow [intro]: "logs (flow_renews T L cb)" "logs (flow_unsubscribes T L cb)"
  unfolding flow_renews_def flow_unsubscribes_def split_def
  by (intro logs_and_then logs_simps logs_accept_request logs_forms logs_runtime)+

end

context flow_bench
begin

text \<open>The hub was given a callback that does not lead back to its id.\<close>

definition lost :: "('c, 'g, 'u, 'b, 'm) flow \<Rightarrow> bool" where
  "lost fl \<longleftrightarrow> (\<exists>i topic secret. \<not> reversible i \<and> SubscribeForm (cb_of i) topic secret \<in> set (flow_forms fl))"

lemma lost_logs: "logs m \<Longrightarrow> lost fl \<Longrightarrow> lost (snd (m fl))"
  by (fastforce simp: lost_def logs_def)

end

context flow_bench
begin

text \<open>How a test starts.\<close>

lemma prepared_calm:
  assumes run: "prepare_subscriber get D L P (clock_at 0) g c0 = (Inr (svc, fl) :: (_, _) result)"
    and "subs c0 = m" "up c0"
  obtains e where "first_expiry m e" "calm 0 m [] [] (handle_next_tick (map_option (first_tick_at 42) e)) [] fl"
proof -
  obtain acc w s c where build: "build get D L P (clock_at 0) (set_renewal_margin MARGIN builder_new) connection_new
      (callback svc) g c0 = (Inr (acc, svc, w, s), c)"
    and fl: "fl = \<lparr>flow_clock = clock_at 0, flow_acceptor = acc, flow_task = Some s, flow_db = c,
      flow_world = w\<lparr>task_woken := True\<rparr>, flow_forms = []\<rparr>"
    using run parse_base by (auto simp: prepare_subscriber_def split: prod.splits sum.splits)
  have service: "build_service get D L P (clock_at 0) (set_renewal_margin MARGIN builder_new) (callback svc) g c0 =
      (Inr (svc, w, s), c)" and acc: "acc = \<lparr>incoming = connection_new, acc_backoff = backoff_new, served = []\<rparr>"
    using build by (auto simp: build_def and_then_Inr)
  have k: "steady K (clock_at 0)" by (rule steady_at) simp
  have time: "in_time K subs svc s c (w\<lparr>task_woken := True\<rparr>)" by (rule build_in_time [OF platform k pool service])
  obtain a c1 e where get: "get c0 = (Inr a, c1)" and expiry: "conn_get_next_expiry D c1 = (Inr e, c)"
    and w: "spawned w = []" "sent w = []" "\<not> closed w" "next_tick w = handle_next_tick (map_option (first_tick_at (renewal_margin svc)) e)"
    using service by (auto simp: build_service_def and_then_Inr map_err_Inr Let_def bind_result_Inr first_tick_at_def [abs_def])
  have c1: "subs c1 = m" "up c1"
    using pool get assms(2,3) by (cases rule: statementE; simp)+
  have c: "subs c = m" "up c" "first_expiry m e"
    using get_next_expiry expiry c1 by (cases rule: statementE; simp)+
  with fl time acc w k show thesis
    by (intro that [of e]) (simp_all add: calm_def idle_def connection_new_def margin)
qed


lemma lost_and_then: "lost (snd (m fl)) \<Longrightarrow> (\<And>a. logs (k a)) \<Longrightarrow> lost (snd (and_then m k fl))"
  using lost_logs by (fastforce simp: and_then_def split: prod.splits sum.splits)

end

section \<open>An instance\<close>

text \<open>The bench on the in-memory database, with a sleep that is as late as it may be.\<close>

definition test_svc :: "(string \<times> string option) service" where
  "test_svc = \<lparr>callback = (''http://example.com'', Some ''/''), renewal_margin = 42\<rparr>"

abbreviation mem_connection2 ::
  "(mem, unit sql_error, (u64, string \<times> string option, (unit + u8 list list) option poll list, u8 list \<times> u8 list) world) connection" where
  "mem_connection2 \<equiv> diesel2_connection mem_diesel counter_rng"

abbreviation test_runtime where
  "test_runtime \<equiv> eager_runtime wide_platform late_sleep (ret () :: (mem, unit) pool) mem_connection2 test_crates True test_svc"

interpretation test_bench: flow_bench test_crates mem_connection2 mem_table mem_up test_svc
  test_runtime wide_platform late_sleep "ret () :: (mem, unit) pool" True 0 "1700000000 * 10 ^ 9" "1000 * nanos"
proof (intro flow_bench.intro flow_bench_axioms.intro subscriber_service.intro subscriber_service_axioms.intro hub_clientI)
  have svc: "callback test_svc = (''http://example.com'', Some ''/'')" by (simp add: test_svc_def)
  show "crates_spec test_crates" by (rule test_crates.crates_spec_axioms)
  show "connection_ref mem_connection2 (rand_of test_crates) mem_table mem_up"
    using mem_connection by (simp add: test_crates_def reference_crates_def)
  show "example_uris (uri_of test_crates) (form_of test_crates) (callback test_svc)"
    unfolding svc by (rule test_uris.example_uris_axioms)
  show "prepared (uri_of test_crates) (callback test_svc)"
    unfolding svc by (rule test_uris.base_prepared)
  show "tokio test_runtime wide_platform late_sleep (ret () :: (mem, unit) pool) mem_connection2 test_crates True test_svc"
    by (rule eager.tokio_axioms)
qed (simp_all add: eager_runtime_def Let_def wide_platform late_sleep.sleep_spec_axioms always_statement test_svc_def)

text \<open>The test's subscriber over the in-memory database.\<close>

lemma test_prepared:
  assumes expiry: "conn_get_next_expiry mem_connection2 c = (Inr e, c)" and small: "\<And>x. e = Some x \<Longrightarrow> unat x < 2 ^ 62"
  obtains fl where "prepare_subscriber (ret () :: (mem, unit) pool) mem_connection2 test_crates wide_platform
     \<lparr>instant_now = 1700000000 * 10 ^ 9, system_time_now = 1700000000 * 10 ^ 9\<rparr> 7 c = Inr (test_svc, fl)"
proof -
  let ?k = "\<lparr>instant_now = 1700000000 * 10 ^ 9, system_time_now = 1700000000 * 10 ^ 9\<rparr> :: clock"
  let ?t = "handle_next_tick (map_option (\<lambda>e. saturating_sub (case u64_try_from e of None \<Rightarrow> 0 | Some e \<Rightarrow> e) 42) e)"
  let ?w = "\<lparr>thread_rng = 7, next_tick = ?t, task_registered = False, task_woken = False, spawned = [], sent = [], closed = False\<rparr>
    :: (u64, string \<times> string option, (unit + u8 list list) option poll list, u8 list \<times> u8 list) world"
  have uri: "uri_parse (uri_of test_crates) ''http://example.com/'' = Some (''http://example.com'', Some ''/'')"
    using parse_text_http [of "[]"] by (simp add: test_crates_def)
  have prefix: "prepare_callback_prefix (uri_of test_crates) (''http://example.com'', Some ''/'') =
      (Inr (''http://example.com'', Some ''/'') :: (_, _) result)"
    by (simp add: prepare_callback_prefix_def test_crates_def text_uri_def)
  have margin: "as_secs (builder_renewal_margin (set_renewal_margin MARGIN builder_new)) = 42"
    by (simp add: set_renewal_margin_def builder_new_def MARGIN_def as_secs_def)
  have k: "steady 0 ?k" by (simp add: steady_def)
  have "?t = u64_MAX \<or> unat ?t < 2 ^ 63"
    using small by (cases e) (force simp: handle_next_tick_def unat_saturating_sub u64_try_from_def)+
  then have "?t \<noteq> u64_MAX \<longrightarrow> representable wide_platform 0 ?t"
    using wide_platform by (auto simp: times_representable_def)
  then obtain s where "(renew_subscriptions_new wide_platform ?k ?w :: ((unit, unit sql_error) service_error, sleep option) result) = Inr s"
    using decode_next_tick_steady [OF k, of ?w wide_platform] by (auto simp: renew_subscriptions_new_def scheduler_new_def)
  then show thesis
    by (intro that) (simp add: prepare_subscriber_def uri build_def build_service_def and_then_def map_err_def expiry prefix margin
        test_svc_def Let_def)
qed

end
