(* ===== verification/Protocol.thy ===== *)
theory Protocol
  imports Bench
begin

text \<open>
  The test \<open>entire_flow\<close> (\<open>src/subscriber.rs\<close>): the life of a subscription, from the request of
  the user to the end of the row it was renewed from. It passes while the runtime is busy, and
  fails, as its source notes, when the runtime is idle before the listener is asked for the last time.
\<close>

section \<open>The parts of the test\<close>

context flow_bench
begin

lemma started:
  assumes "prepare_subscriber get D L P (clock_at 0) g c0 = (Inr (svc, fl) :: (_, _) result)"
    and "subs c0 = Map.empty" "up c0"
  shows "calm 0 Map.empty [] [] u64_MAX [] fl"
proof -
  obtain e where "first_expiry Map.empty e" and calm: "calm 0 Map.empty [] [] (handle_next_tick (map_option (first_tick_at 42) e)) [] fl"
    by (rule prepared_calm [OF assms])
  then have "e = None" by (cases e) (simp_all add: first_expiry_def)
  with calm show ?thesis by (simp add: handle_next_tick_def)
qed

text \<open>The rows of the topic.\<close>

definition feed_row :: "string \<Rightarrow> i64 option \<Rightarrow> sub" where
  "feed_row secret e = \<lparr>sub_hub = HUB, sub_topic = TOPIC, sub_secret = secret, sub_expires_at = e\<rparr>"

lemma subscribed:
  assumes calm: "calm 0 Map.empty [] [] u64_MAX [] fl" and z: "2 * DELAY \<le> Z"
  obtains i secret fl' where "flow_subscribes T get D L debug svc fl = (Inr (cb_of i, secret), fl')"
    "calm (2 * DELAY) [i \<mapsto> feed_row secret None] [] [] u64_MAX [SubscribeForm (cb_of i) TOPIC secret] fl'"
proof -
  obtain a fl1 where fl1: "unwrapped (on_fst get) fl = (Inr a, fl1)" "calm 0 Map.empty [] [] u64_MAX [] fl1"
    by (rule connection_taken [OF calm])
  then have up: "up (flow_db fl1)" and subs: "subs (flow_db fl1) = Map.empty" by (simp_all add: calm_def)
  then have free: "dom (subs (flow_db fl1)) \<noteq> UNIV" by simp
  obtain hub where hub: "uri_parse (uri_of L) HUB = Some hub" using parse_hub by blast
  from hub_subscribe_total [OF callback_prepared up free hub, of debug TOPIC "flow_world fl1"]
  obtain fut c' g i secret where run: "service_subscribe D L debug svc HUB TOPIC (flow_db fl1, flow_world fl1) =
      (Inr fut, (c', (flow_world fl1)\<lparr>thread_rng := g\<rparr>))"
    and c': "subs c' = created i HUB TOPIC secret (subs (flow_db fl1))" "up c'"
    and fut: "posts_form L (callback svc) i (\<lambda>cb. SubscribeForm cb TOPIC secret) HUB TOPIC fut"
    unfolding service_subscribe_def by blast
  let ?fl2 = "fl1\<lparr>flow_db := c', flow_world := (flow_world fl1)\<lparr>thread_rng := g\<rparr>\<rparr>"
  have row: "subs c' = [i \<mapsto> feed_row secret None]" using c'(1) subs by (simp add: created_def feed_row_def)
  have early: "0 + DELAY \<le> 1000 * nanos" "0 + DELAY + DELAY \<le> Z" using z by (simp_all add: durations)
  have "expiries (subs c') \<subseteq> expiries Map.empty" unfolding row by (auto simp: expiries_def feed_row_def split: if_splits)
  from calm_quiet [OF fl1(2) _ _ c'(2) this, of "(flow_world fl1)\<lparr>thread_rng := g\<rparr>"] fl1(2)
  have "calm 0 [i \<mapsto> feed_row secret None] [] [] u64_MAX [] ?fl2" by (simp add: calm_def row)
  then obtain fl3 where fl3: "rt_advance T DELAY ?fl2 = (Inr (), fl3)"
    "calm (0 + DELAY) [i \<mapsto> feed_row secret None] [] [] u64_MAX [] fl3"
    by (rule advance_waits [OF _ early(1)]) simp
  obtain fl4 where fl4: "accept_form T L ''/hub'' fut fl3 = (Inr (SubscribeForm (cb_of i) TOPIC secret), fl4)"
    "calm (0 + DELAY + DELAY) [i \<mapsto> feed_row secret None] [] [] u64_MAX ([] @ [SubscribeForm (cb_of i) TOPIC secret]) fl4"
    by (rule form_accepted [OF fl3(2) fut disjI1 [OF refl] early(2)]) simp_all
  have "unwrapped (service_subscribe D L debug svc HUB TOPIC) fl1 = (Inr fut, ?fl2)"
    using run by (simp add: unwrapped_def)
  then have "flow_subscribes T get D L debug svc fl = (Inr (cb_of i, secret), fl4)"
    using fl1(1) fl3(1) fl4 no_request_calm [OF calm] no_request_calm [OF fl4(2)]
    by (simp add: flow_subscribes_def and_then_step)
  with fl4(2) show thesis by (intro that) (simp_all add: mult_2)
qed

end

context flow_bench
begin

lemma feed_simps [simp]:
  "sub_hub (feed_row secret e) = HUB" "sub_topic (feed_row secret e) = TOPIC" "sub_secret (feed_row secret e) = secret"
  "sub_expires_at (feed_row secret e) = e" "(feed_row secret e)\<lparr>sub_expires_at := e'\<rparr> = feed_row secret e'"
  by (simp_all add: feed_row_def)

lemma feed_tables:
  "pending i TOPIC (m(i \<mapsto> feed_row secret None)) = Some HUB"
  "duplicates i HUB TOPIC [i \<mapsto> feed_row secret e'] = {}"
  "verified i e HUB TOPIC [i \<mapsto> feed_row secret None] = [i \<mapsto> feed_row secret (Some e)]"
  "j \<noteq> i \<Longrightarrow> duplicates j HUB TOPIC [i \<mapsto> feed_row secret e', j \<mapsto> feed_row secret' e''] = {i}"
  "j \<noteq> i \<Longrightarrow> verified j e HUB TOPIC [i \<mapsto> feed_row secret None, j \<mapsto> feed_row secret' None] = [j \<mapsto> feed_row secret' (Some e)]"
  by (auto simp: pending_def duplicates_def verified_def activated_def restrict_map_def fun_eq_iff split: if_splits)

text \<open>The tick that renews the only subscription, and what it leaves.\<close>

definition feed_renewed :: "nat \<Rightarrow> u64 \<Rightarrow> string \<Rightarrow> 'u form list \<Rightarrow> ('c, 'g, 'u, 'b, 'm) flow \<Rightarrow> bool" where
  "feed_renewed d i secret forms fl \<longleftrightarrow> (\<exists>j secret' fut. j \<noteq> i \<and>
     calm d [i \<mapsto> feed_row secret None, j \<mapsto> feed_row secret' None] [fut] [] u64_MAX forms fl \<and>
     posts_form L (callback svc) j (\<lambda>cb. SubscribeForm cb TOPIC secret') HUB TOPIC fut)"

lemma feed_renews:
  assumes calm: "calm d [i \<mapsto> feed_row secret (Some e)] [] [] t forms fl"
    and come: "t \<noteq> u64_MAX" "elapsed (deadline K t) (instant_now (clock_at d))"
      "sint e \<le> int (unat (secs_at d) + 43)"
  shows "task_ready elapsed fl \<and> feed_renewed d i secret forms (poll_task P elapsed get D L debug svc fl)"
proof -
  let ?m = "[i \<mapsto> feed_row secret (Some e)]" and ?s = "feed_row secret (Some e)"
  have few: "2 * card (dom ?m) < 2 ^ 64" by simp
  have uris: "hubs_are_uris L ?m" using parse_hub by (auto simp: hubs_are_uris_def split: if_splits)
  obtain j secret' fut e' n where polled: "task_ready elapsed fl" "j \<notin> dom ?m"
    "calm d (?m(i \<mapsto> ?s\<lparr>sub_expires_at := None\<rparr>, j \<mapsto> \<lparr>sub_hub = sub_hub ?s, sub_topic = sub_topic ?s,
       sub_secret = secret', sub_expires_at = None\<rparr>)) ([] @ [fut]) [] (handle_next_tick n) forms
       (poll_task P elapsed get D L debug svc fl)"
    "posts_form L (callback svc) j (\<lambda>cb. SubscribeForm cb (sub_topic ?s) secret') (sub_hub ?s) (sub_topic ?s) fut"
    "first_expiry (?m(i \<mapsto> ?s\<lparr>sub_expires_at := None\<rparr>, j \<mapsto> \<lparr>sub_hub = sub_hub ?s, sub_topic = sub_topic ?s,
       sub_secret = secret', sub_expires_at = None\<rparr>)) e'"
    "next_tick_after svc (secs_at d) e' n"
    by (rule calm_renews_one [OF calm come(1,2) few uris, of i ?s e]) (use come(3) in \<open>auto split: if_splits\<close>)
  from polled(2) have j: "j \<noteq> i" by auto
  have "e' = None"
    using polled(5) by (cases e') (auto simp: first_expiry_def split: if_splits)
  with polled(6) have "n = None" by (simp add: next_tick_after_def)
  with polled j show ?thesis
    unfolding feed_renewed_def by (intro conjI exI [of _ j] exI [of _ secret'] exI [of _ fut])
      (simp_all add: feed_row_def handle_next_tick_def)
qed

lemma feed_renewed_polled:
  "feed_renewed d i secret forms fl \<Longrightarrow> feed_renewed d i secret forms (poll_task P elapsed get D L debug svc fl)"
  unfolding feed_renewed_def using calm_polled(1) by blast

lemma feed_renewed_spawned: "feed_renewed d i secret forms fl \<Longrightarrow> spawned (flow_world fl) \<noteq> []"
  by (auto simp: feed_renewed_def calm_def)

text \<open>While the margin passes the task may have been polled or not.\<close>

definition feed_renewing :: "nat \<Rightarrow> u64 \<Rightarrow> string \<Rightarrow> i64 \<Rightarrow> u64 \<Rightarrow> 'u form list \<Rightarrow> ('c, 'g, 'u, 'b, 'm) flow \<Rightarrow> bool" where
  "feed_renewing d i secret e t forms fl \<longleftrightarrow>
     calm d [i \<mapsto> feed_row secret (Some e)] [] [] t forms fl \<or> feed_renewed d i secret forms fl"

lemma feed_renewing_polled:
  assumes "t \<noteq> u64_MAX" "sint e \<le> int (unat (secs_at d) + 43)" "feed_renewing d i secret e t forms fl"
  shows "feed_renewing d i secret e t forms (poll_task P elapsed get D L debug svc fl)"
  using assms feed_renews [of d i secret e t forms fl] calm_polled(1) [of d _ "[]" "[]" t forms fl] feed_renewed_polled
  unfolding feed_renewing_def by blast

lemma feed_renewing_moved:
  "feed_renewing d i secret e t forms fl \<Longrightarrow> d + d' \<le> 1000 * nanos \<Longrightarrow> feed_renewing (d + d') i secret e t forms (moved d' fl)"
  unfolding feed_renewing_def feed_renewed_def using calm_advance by blast

lemma renewal_due:
  assumes calm: "calm d [i \<mapsto> feed_row secret (Some e)] [] [] t forms fl" and z: "d + MARGIN + DELAY \<le> Z"
    and e: "sint e = int (unat (secs_at d) + 84)" "unat t = unat (secs_at d) + 42"
  obtains fl1 fl2 j secret' fut where "rt_advance T MARGIN fl = (Inr (), fl1)"
    "rt_advance T DELAY fl1 = (Inr (), fl2)" "j \<noteq> i"
    "arrives (d + MARGIN + DELAY) [i \<mapsto> feed_row secret None, j \<mapsto> feed_row secret' None] fut [] [] u64_MAX forms fl2"
    "posts_form L (callback svc) j (\<lambda>cb. SubscribeForm cb TOPIC secret') HUB TOPIC fut"
proof -
  let ?d1 = "d + MARGIN" and ?d2 = "d + MARGIN + DELAY" and ?c = "\<lambda>fl. spawned (flow_world fl) \<noteq> []"
  have bound: "d \<le> 1000 * nanos" "?d1 \<le> 1000 * nanos" "?d2 \<le> 1000 * nanos" using z window by linarith+
  note secs = secs_at_bounds [OF bound(1)]
  have t: "t \<noteq> u64_MAX" using secs(4) e(2) by auto
  have e_due: "sint e \<le> int (unat (secs_at d') + 43)" if "d' = ?d1 \<or> d' = ?d2" for d'
  proof -
    have "d' \<le> 1000 * nanos" using that bound by auto
    moreover have "(S + d + 42 * nanos) div nanos \<le> (S + d') div nanos"
      by (rule div_le_mono) (use that in \<open>auto simp: durations\<close>)
    ultimately have "unat (secs_at d) + 42 \<le> unat (secs_at d')" using bound(1) by (simp add: secs_at)
    then show ?thesis unfolding e(1) of_nat_le_iff by simp
  qed
  note closed = feed_renewing_polled [OF t e_due]
  have start: "feed_renewing ?d1 i secret e t forms (moved MARGIN fl)"
    by (rule feed_renewing_moved [OF _ bound(2)]) (simp add: feed_renewing_def calm)
  obtain fl1 where fl1: "rt_advance T MARGIN fl = (Inr (), fl1)" "feed_renewing ?d1 i secret e t forms fl1"
    by (rule advance_keeps [of "feed_renewing ?d1 i secret e t forms", OF start closed]) simp_all
  obtain fl2 where fl2: "rt_advance T DELAY fl1 = (Inr (), fl2)" "feed_renewing ?d2 i secret e t forms fl2"
    by (rule advance_keeps [of "feed_renewing ?d2 i secret e t forms", OF feed_renewing_moved [OF fl1(2) bound(3)] closed])
      simp_all
  have over: "elapsed (deadline K t) (instant_now (clock_at ?d2))"
    by (rule passed) (use secs(1) in \<open>simp add: e(2) durations algebra_simps\<close>)
  have reach: "feed_renewed ?d2 i secret forms fl2 \<or>
      task_ready elapsed fl2 \<and> feed_renewed ?d2 i secret forms (poll_task P elapsed get D L debug svc fl2)"
    using fl2(2) feed_renews [OF _ t over e_due [of ?d2]] unfolding feed_renewing_def by blast
  have iff: "?c fl \<longleftrightarrow> feed_renewed ?d2 i secret forms fl" if "feed_renewing ?d2 i secret e t forms fl"
    for fl :: "('c, 'g, 'u, 'b, 'm) flow"
    using that feed_renewed_spawned unfolding feed_renewing_def by (auto simp: calm_def)
  have now: "system_time_now (flow_clock fl2) \<le> S + Z"
    using fl2(2) calm_time [OF _ z] unfolding feed_renewing_def feed_renewed_def by blast
  obtain fl3 where "rt_until T ?c fl2 = (Inr (), fl3)" "feed_renewed ?d2 i secret forms fl3"
    by (rule until_reaches [of "feed_renewing ?d2 i secret e t forms" fl2 ?c "feed_renewed ?d2 i secret forms",
        OF fl2(2) closed iff feed_renewed_polled reach now]) simp_all
  with fl1(1) fl2(1) show thesis using that unfolding feed_renewed_def arrives_def by blast
qed

end

context flow_bench
begin

lemma renewed_flow:
  assumes calm: "calm (2 * DELAY) [i \<mapsto> feed_row secret (Some e)] [] [] t forms fl" and i: "reversible i"
    and z: "4 * DELAY + MARGIN \<le> Z"
    and e: "sint e = int (unat (secs_at (2 * DELAY)) + 84)" "unat t = unat (secs_at (2 * DELAY)) + 42"
  shows "(\<exists>fl' j secret'. flow_renews T L (cb_of i) fl = (Inr (cb_of j), fl') \<and>
      j \<noteq> i \<and> reversible j \<and> calm (4 * DELAY + MARGIN) [i \<mapsto> feed_row secret None, j \<mapsto> feed_row secret' None] [] [] u64_MAX
        (forms @ [SubscribeForm (cb_of j) TOPIC secret']) fl') \<or>
    lost (snd (flow_renews T L (cb_of i) fl))"
proof -
  let ?d = "2 * DELAY + MARGIN + DELAY"
  have d: "?d \<le> Z" "?d + DELAY \<le> Z" "?d + DELAY = 4 * DELAY + MARGIN"
    using z by simp_all
  obtain fl1 fl2 j secret' fut where wait: "rt_advance T MARGIN fl = (Inr (), fl1)"
    "rt_advance T DELAY fl1 = (Inr (), fl2)" and j: "j \<noteq> i"
    and fl2: "arrives ?d [i \<mapsto> feed_row secret None, j \<mapsto> feed_row secret' None] fut [] [] u64_MAX forms fl2"
    and fut: "posts_form L (callback svc) j (\<lambda>cb. SubscribeForm cb TOPIC secret') HUB TOPIC fut"
    by (rule renewal_due [OF calm d(1) e])
  obtain fl3 where fl3: "accept_request T L ''/hub'' fl2 =
      (Inr (SubscribeForm (cb_of j) TOPIC secret'), fl3)"
    "calm (?d + DELAY) [i \<mapsto> feed_row secret None, j \<mapsto> feed_row secret' None] [] [] u64_MAX
      (forms @ [SubscribeForm (cb_of j) TOPIC secret']) fl3"
    by (rule request_accepted [OF fl2 fut disjI1 [OF refl] d(2)]) simp_all
  have run: "flow_renews T L (cb_of i) fl =
      and_then (asserts (cb_of j \<noteq> cb_of i)) (\<lambda>_. ret (cb_of j)) fl3"
    using wait fl3(1) no_request_calm [OF fl3(2)]
    by (simp add: flow_renews_def and_then_step) (simp add: and_then_def asserts_def split: sum.splits)
  show ?thesis
  proof (cases "reversible j")
    case True
    then have "cb_of j \<noteq> cb_of i" using cb_of_inj [OF True i] j by blast
    with run fl3(2) j True show ?thesis unfolding d(3) by auto
  next
    case False
    have "lost fl3" using False fl3(2) by (auto simp: lost_def calm_def)
    then show ?thesis unfolding run by (intro disjI2 lost_logs logs_and_then logs_simps)
  qed
qed

lemma unsubscribed:
  assumes calm: "calm d m [fut] [] t forms fl" and fut: "posts_form L (callback svc) i (\<lambda>cb. UnsubscribeForm cb TOPIC) HUB TOPIC fut"
    and d: "d + 2 * DELAY \<le> Z" and early: "S + (d + 2 * DELAY) < unat t * nanos"
  obtains fl' where "flow_unsubscribes T L (cb_of i) fl = (Inr (), fl')"
    "calm (d + 2 * DELAY) m [] [] t (forms @ [UnsubscribeForm (cb_of i) TOPIC]) fl'"
proof -
  have sum: "d + DELAY + DELAY = d + 2 * DELAY" by simp
  have soon: "S + (d + DELAY) < unat t * nanos" "d + DELAY \<le> Z" using early d by simp_all
  obtain fl1 where fl1: "rt_advance T DELAY fl = (Inr (), fl1)"
    "calm (d + DELAY) m [fut] [] t forms fl1"
    by (rule advance_waits [OF calm le_trans [OF soon(2) window] not_yet [OF soon(1)]])
  obtain fl2 where fl2: "accept_request T L ''/hub'' fl1 = (Inr (UnsubscribeForm (cb_of i) TOPIC), fl2)"
    "calm (d + DELAY + DELAY) m [] [] t (forms @ [UnsubscribeForm (cb_of i) TOPIC]) fl2"
    by (rule request_accepted [OF spawned_arrives [OF fl1(2) soon(2) not_yet [OF soon(1)]] fut disjI2 [OF refl]])
      (use d early sum in simp_all)
  have "flow_unsubscribes T L (cb_of i) fl = (Inr (), fl2)"
    using fl1(1) fl2(1) no_request_calm [OF fl2(2)] by (simp add: flow_unsubscribes_def and_then_step)
  with fl2(2) that show thesis unfolding sum by blast
qed

lemma row_is_gone:
  assumes calm: "calm d m futs us t forms fl" and i: "reversible i" and gone: "m i = None"
  obtains fl' where "row_gone get D L (cb_of i) fl = (Inr (), fl')" "subs (flow_db fl') = m" "flow_forms fl' = forms"
proof -
  let ?seg = "encode (memchr_of L) (base64_of L) (to_le_bytes i)"
  have "set ?seg \<subseteq> set url_safe_alphabet"
    using url_safe_no_pad.display_alphabet [OF base64_laws] by (auto simp: encode_def Let_def)
  then have "\<forall>c \<in> set (rev ?seg). c \<noteq> CHR ''/''" by (fastforce simp: url_safe_alphabet_def)
  then have "takeWhile (\<lambda>c. c \<noteq> CHR ''/'') (rev (uri_path (uri_of L) (cb_of i))) = rev ?seg"
    by (simp add: cb_of(2) takeWhile_append)
  then have decoded: "decode (base64_of L) (rev (takeWhile (\<lambda>c. c \<noteq> CHR ''/'') (rev (uri_path (uri_of L) (cb_of i))))) = Some i"
    using i decode_encode_iff [OF memchr_laws base64_laws, of i] by (simp add: reversible_def)
  obtain a fl1 where fl1: "unwrapped (on_fst get) fl = (Inr a, fl1)" "calm d m futs us t forms fl1"
    by (rule connection_taken [OF calm])
  then have db: "up (flow_db fl1)" "subs (flow_db fl1) = m" "flow_forms fl1 = forms" by (simp_all add: calm_def)
  obtain r c' where run: "conn_get_topic D i (flow_db fl1) = (r, c')" by (metis surj_pair)
  from get_topic run show thesis
  proof (cases rule: statementE)
    case (ok row)
    with gone db(2) have "row = None" by simp
    with ok run fl1(1) decoded db show thesis
      by (intro that [of "fl1\<lparr>flow_db := c'\<rparr>"]) (simp_all add: row_gone_def and_then_step unwrapped_def on_fst_def)
  qed (use db in simp)
qed

end

context flow_bench
begin

text \<open>A lease of twice the margin: the task sleeps until the margin has passed.\<close>

lemma confirmed:
  assumes calm: "calm d m [] [] u64_MAX forms fl" and z: "d \<le> Z" and i: "reversible i" and p: "pending i TOPIC m = Some HUB"
  obtains fl' e t old futs where
    "verify_intent_at T P elapsed get D L M F debug svc no_body (cb_of i) (VerifySubscribe TOPIC challenge (as_secs (2 * MARGIN))) fl =
      (Inr (), fl')"
    "calm d (verified i e HUB TOPIC m) futs [] t forms fl'"
    "sint e = int (unat (secs_at d) + 84)" "unat t = unat (secs_at d) + 42" "S + d + 40 * nanos < unat t * nanos"
    "distinct old" "set old = duplicates i HUB TOPIC m" "list_all2 (drops L (callback svc) HUB TOPIC) old futs"
proof -
  have hub: "uri_parse (uri_of L) HUB \<noteq> None" using parse_hub by auto
  have lease: "43 \<le> unat (as_secs (2 * MARGIN))" "unat (as_secs (2 * MARGIN)) \<le> 1000"
    "unat (as_secs (2 * MARGIN)) = 84" unfolding durations(3) by simp_all
  obtain fl' e t old futs where
    "verify_intent_at T P elapsed get D L M F debug svc no_body (cb_of i) (VerifySubscribe TOPIC challenge (as_secs (2 * MARGIN))) fl =
      (Inr (), fl')"
    "calm d (verified i e HUB TOPIC m) ([] @ futs) [] (min u64_MAX t) forms fl'"
    and e: "sint e = int (unat (secs_at d) + unat (as_secs (2 * MARGIN)))"
      "unat t = unat (secs_at d) + unat (as_secs (2 * MARGIN)) - 42"
    and "distinct old" "set old = duplicates i HUB TOPIC m" "list_all2 (drops L (callback svc) HUB TOPIC) old futs"
    by (rule verify_subscribes [OF calm z i p hub lease(1,2)]) simp
  moreover have "S + d + 40 * nanos < unat t * nanos"
    using secs_at_bounds(2) [of d] calm unfolding e(2) lease(3) by (simp add: calm_def algebra_simps)
  ultimately show thesis using e unfolding lease(3) by (intro that [of fl' e futs t old]) simp_all
qed

text \<open>The hub confirms the renewal; the subscriber asks to end the old subscription.\<close>

lemma renewal_confirmed:
  assumes calm: "calm (4 * DELAY + MARGIN) [i \<mapsto> feed_row secret None, j \<mapsto> feed_row secret' None] [] [] u64_MAX forms fl"
    and z: "4 * DELAY + MARGIN \<le> Z" and j: "j \<noteq> i" "reversible j"
  obtains fl' e t fut where "verify_intent_at T P elapsed get D L M F debug svc no_body (cb_of j)
      (VerifySubscribe TOPIC ''renewal_challenge'' (as_secs (2 * MARGIN))) fl = (Inr (), fl')"
    "calm (4 * DELAY + MARGIN) [j \<mapsto> feed_row secret' (Some e)] [fut] [] t forms fl'"
    "posts_form L (callback svc) i (\<lambda>cb. UnsubscribeForm cb TOPIC) HUB TOPIC fut"
    "sint e = int (unat t + 42)" "unat t = unat (secs_at (4 * DELAY + MARGIN)) + 42"
    "S + (4 * DELAY + MARGIN) + 40 * nanos < unat t * nanos"
proof -
  let ?d = "4 * DELAY + MARGIN" and ?m = "[i \<mapsto> feed_row secret None, j \<mapsto> feed_row secret' None]"
  obtain fl1 e t old futs where fl1: "verify_intent_at T P elapsed get D L M F debug svc no_body (cb_of j)
      (VerifySubscribe TOPIC ''renewal_challenge'' (as_secs (2 * MARGIN))) fl = (Inr (), fl1)"
    "calm ?d (verified j e HUB TOPIC ?m) futs [] t forms fl1"
    and e: "sint e = int (unat (secs_at ?d) + 84)" "unat t = unat (secs_at ?d) + 42" "S + ?d + 40 * nanos < unat t * nanos"
    and old: "distinct old" "set old = duplicates j HUB TOPIC ?m" "list_all2 (drops L (callback svc) HUB TOPIC) old futs"
    by (rule confirmed [OF calm z j(2) feed_tables(1)])
  from old(1,2) j have "old = [i]" by (intro distinct_single) (simp_all add: feed_tables)
  with old(3) obtain fut where fut: "futs = [fut]" "posts_form L (callback svc) i (\<lambda>cb. UnsubscribeForm cb TOPIC) HUB TOPIC fut"
    by (auto simp: list_all2_Cons1 drops_def)
  have "calm ?d [j \<mapsto> feed_row secret' (Some e)] [fut] [] t forms fl1"
    using fl1(2) j unfolding fut(1) by (simp add: feed_tables)
  then show thesis using that [OF fl1(1) _ fut(2)] e by simp
qed

lemma flow_ends:
  assumes calm: "calm (4 * DELAY + MARGIN) [i \<mapsto> feed_row secret None, j \<mapsto> feed_row secret' None] [] [] u64_MAX forms fl"
    and i: "reversible i" and j: "j \<noteq> i" "reversible j" and z: "6 * DELAY + MARGIN \<le> Z"
  shows "\<exists>fl' secret e. and_then (verify_intent_at T P elapsed get D L M F debug svc no_body (cb_of j)
        (VerifySubscribe TOPIC ''renewal_challenge'' (as_secs (2 * MARGIN)))) (\<lambda>_.
      and_then (flow_unsubscribes T L (cb_of i)) (\<lambda>_.
      and_then (verify_intent_at T P elapsed get D L M F debug svc no_body (cb_of i)
        (VerifyUnsubscribe TOPIC ''unsubscription_challenge'')) (\<lambda>_.
      and_then (no_update P elapsed debug) (\<lambda>_. row_gone get D L (cb_of i))))) fl = (Inr (), fl') \<and>
    subs (flow_db fl') = [j \<mapsto> feed_row secret (Some e)]"
proof -
  let ?d = "4 * DELAY + MARGIN"
  have z4: "?d \<le> Z" and d: "?d + 2 * DELAY \<le> Z" using z by simp_all
  obtain fl1 e t fut where fl1: "verify_intent_at T P elapsed get D L M F debug svc no_body (cb_of j)
      (VerifySubscribe TOPIC ''renewal_challenge'' (as_secs (2 * MARGIN))) fl = (Inr (), fl1)"
    "calm ?d [j \<mapsto> feed_row secret' (Some e)] [fut] [] t forms fl1"
    and fut: "posts_form L (callback svc) i (\<lambda>cb. UnsubscribeForm cb TOPIC) HUB TOPIC fut"
    and t: "S + ?d + 40 * nanos < unat t * nanos"
    by (rule renewal_confirmed [OF calm z4 j])
  have later: "S + (?d + 2 * DELAY) < unat t * nanos" using t by (simp add: durations)
  obtain fl2 where fl2: "flow_unsubscribes T L (cb_of i) fl1 = (Inr (), fl2)"
    "calm (?d + 2 * DELAY) [j \<mapsto> feed_row secret' (Some e)] [] [] t (forms @ [UnsubscribeForm (cb_of i) TOPIC]) fl2"
    by (rule unsubscribed [OF fl1(2) fut d later])
  have gone: "[j \<mapsto> feed_row secret' (Some e)] i = None" using j by simp
  obtain fl3 where fl3: "verify_intent_at T P elapsed get D L M F debug svc no_body (cb_of i)
      (VerifyUnsubscribe TOPIC ''unsubscription_challenge'') fl2 = (Inr (), fl3)"
    "calm (?d + 2 * DELAY) [j \<mapsto> feed_row secret' (Some e)] [] [] t (forms @ [UnsubscribeForm (cb_of i) TOPIC]) fl3"
    by (rule verify_unsubscribes [OF fl2(2) d i gone not_yet [OF later]])
  obtain fl4 where fl4: "no_update P elapsed debug fl3 = (Inr (), fl4)"
    "calm (?d + 2 * DELAY) [j \<mapsto> feed_row secret' (Some e)] [] [] t (forms @ [UnsubscribeForm (cb_of i) TOPIC]) fl4"
    by (rule no_update_calm [OF fl3(2)])
  obtain fl5 where fl5: "row_gone get D L (cb_of i) fl4 = (Inr (), fl5)" "subs (flow_db fl5) = [j \<mapsto> feed_row secret' (Some e)]"
    by (rule row_is_gone [OF fl4(2) i gone])
  have "and_then (verify_intent_at T P elapsed get D L M F debug svc no_body (cb_of j)
        (VerifySubscribe TOPIC ''renewal_challenge'' (as_secs (2 * MARGIN)))) (\<lambda>_.
      and_then (flow_unsubscribes T L (cb_of i)) (\<lambda>_.
      and_then (verify_intent_at T P elapsed get D L M F debug svc no_body (cb_of i)
        (VerifyUnsubscribe TOPIC ''unsubscription_challenge'')) (\<lambda>_.
      and_then (no_update P elapsed debug) (\<lambda>_. row_gone get D L (cb_of i))))) fl = (Inr (), fl5)"
    using fl1(1) fl2(1) fl3(1) fl4(1) fl5(1) by (simp add: and_then_step)
  with fl5(2) show ?thesis by blast
qed

text \<open>The test until the hub has been asked to renew the subscription.\<close>

lemma flow_starts:
  assumes calm: "calm 0 Map.empty [] [] u64_MAX [] fl" and z: "4 * DELAY + MARGIN \<le> Z"
    and mac: "mac_spec M tag keyed" "\<And>k m. length (tag SHA1 k m) = output_size SHA1" "sha_1 F"
    and post: "buf_spec U contents good" "body_answers B (Suc n) post = (rs @ [Ready None], b')"
      "list_all (transfers good) rs" "data_bytes contents rs = CONTENT" and read: "collects M U B contents to_bytes"
  shows "(\<exists>fl' i j secret secret' forms. entire_flow T P elapsed get D L M F debug svc to_bytes no_body post fl =
      and_then (verify_intent_at T P elapsed get D L M F debug svc no_body (cb_of j)
        (VerifySubscribe TOPIC ''renewal_challenge'' (as_secs (2 * MARGIN)))) (\<lambda>_.
      and_then (flow_unsubscribes T L (cb_of i)) (\<lambda>_.
      and_then (verify_intent_at T P elapsed get D L M F debug svc no_body (cb_of i)
        (VerifyUnsubscribe TOPIC ''unsubscription_challenge'')) (\<lambda>_.
      and_then (no_update P elapsed debug) (\<lambda>_. row_gone get D L (cb_of i))))) fl' \<and>
      reversible i \<and> j \<noteq> i \<and> reversible j \<and>
      calm (4 * DELAY + MARGIN) [i \<mapsto> feed_row secret None, j \<mapsto> feed_row secret' None] [] [] u64_MAX forms fl') \<or>
    lost (snd (entire_flow T P elapsed get D L M F debug svc to_bytes no_body post fl))"
proof -
  note rest_logs = logs_and_then logs_simps logs_verify_intent_at logs_distributes logs_flow logs_no_update logs_row_gone
  obtain i secret fl1 where fl1: "flow_subscribes T get D L debug svc fl = (Inr (cb_of i, secret), fl1)"
    "calm (2 * DELAY) [i \<mapsto> feed_row secret None] [] [] u64_MAX [SubscribeForm (cb_of i) TOPIC secret] fl1"
    by (rule subscribed [OF calm]) (use z in simp)
  show ?thesis
  proof (cases "reversible i")
    case False
    with fl1 have "lost (snd (flow_subscribes T get D L debug svc fl))" by (auto simp: lost_def calm_def)
    then show ?thesis
      unfolding entire_flow_def Let_def split_def by (intro disjI2 lost_and_then rest_logs)
  next
    case i: True
    obtain fl2 e t old futs where fl2: "verify_intent_at T P elapsed get D L M F debug svc no_body (cb_of i)
        (VerifySubscribe TOPIC ''subscription_challenge'' (as_secs (2 * MARGIN))) fl1 = (Inr (), fl2)"
      "calm (2 * DELAY) (verified i e HUB TOPIC [i \<mapsto> feed_row secret None]) futs [] t [SubscribeForm (cb_of i) TOPIC secret] fl2"
      and e: "sint e = int (unat (secs_at (2 * DELAY)) + 84)" "unat t = unat (secs_at (2 * DELAY)) + 42"
        "S + 2 * DELAY + 40 * nanos < unat t * nanos"
      and old: "distinct old" "set old = duplicates i HUB TOPIC [i \<mapsto> feed_row secret None]"
        "list_all2 (drops L (callback svc) HUB TOPIC) old futs"
      by (rule confirmed [OF fl1(2) _ i feed_tables(1)]) (use z in simp)
    from old have "futs = []" by (simp add: feed_tables)
    with fl2(2) have calm2: "calm (2 * DELAY) [i \<mapsto> feed_row secret (Some e)] [] [] t [SubscribeForm (cb_of i) TOPIC secret] fl2"
      by (simp add: feed_tables)
    obtain fl3 where fl3:
      "distributes T P elapsed get D L M F debug svc to_bytes post (cb_of i) (sub_secret (feed_row secret (Some e))) fl2 = (Inr (), fl3)"
      "calm (2 * DELAY) [i \<mapsto> feed_row secret (Some e)] [] [] t [SubscribeForm (cb_of i) TOPIC secret] fl3"
      by (rule distributes_content [OF calm2 _ i _ feed_simps(2) not_yet mac(1,2,3) post read]) (use e(3) z in simp_all)
    have run: "entire_flow T P elapsed get D L M F debug svc to_bytes no_body post fl =
      and_then (flow_renews T L (cb_of i)) (\<lambda>new_cb.
      and_then (verify_intent_at T P elapsed get D L M F debug svc no_body new_cb
        (VerifySubscribe TOPIC ''renewal_challenge'' (as_secs (2 * MARGIN)))) (\<lambda>_.
      and_then (flow_unsubscribes T L (cb_of i)) (\<lambda>_.
      and_then (verify_intent_at T P elapsed get D L M F debug svc no_body (cb_of i)
        (VerifyUnsubscribe TOPIC ''unsubscription_challenge'')) (\<lambda>_.
      and_then (no_update P elapsed debug) (\<lambda>_. row_gone get D L (cb_of i)))))) fl3"
      using fl1(1) fl2(1) fl3(1) by (simp add: entire_flow_def Let_def and_then_step)
    from renewed_flow [OF fl3(2) i z e(1,2)] show ?thesis
    proof
      assume "lost (snd (flow_renews T L (cb_of i) fl3))"
      then show ?thesis unfolding run by (intro disjI2 lost_and_then rest_logs)
    next
      assume "\<exists>fl' j secret'. flow_renews T L (cb_of i) fl3 = (Inr (cb_of j), fl') \<and>
        j \<noteq> i \<and> reversible j \<and> calm (4 * DELAY + MARGIN) [i \<mapsto> feed_row secret None, j \<mapsto> feed_row secret' None] [] [] u64_MAX
          ([SubscribeForm (cb_of i) TOPIC secret] @ [SubscribeForm (cb_of j) TOPIC secret']) fl'"
      then obtain fl4 j secret' where fl4: "flow_renews T L (cb_of i) fl3 = (Inr (cb_of j), fl4)"
        and j: "j \<noteq> i" "reversible j" and calm4: "calm (4 * DELAY + MARGIN) [i \<mapsto> feed_row secret None, j \<mapsto> feed_row secret' None]
          [] [] u64_MAX ([SubscribeForm (cb_of i) TOPIC secret] @ [SubscribeForm (cb_of j) TOPIC secret']) fl4" by blast
      have "entire_flow T P elapsed get D L M F debug svc to_bytes no_body post fl =
        and_then (verify_intent_at T P elapsed get D L M F debug svc no_body (cb_of j)
          (VerifySubscribe TOPIC ''renewal_challenge'' (as_secs (2 * MARGIN)))) (\<lambda>_.
        and_then (flow_unsubscribes T L (cb_of i)) (\<lambda>_.
        and_then (verify_intent_at T P elapsed get D L M F debug svc no_body (cb_of i)
          (VerifyUnsubscribe TOPIC ''unsubscription_challenge'')) (\<lambda>_.
        and_then (no_update P elapsed debug) (\<lambda>_. row_gone get D L (cb_of i))))) fl4"
        using fl4 unfolding run by (simp add: and_then_step)
      with i j calm4 show ?thesis by blast
    qed
  qed
qed

end

section \<open>When the runtime is idle\<close>

context flow_bench
begin

text \<open>The task that has nothing to do sleeps until the time that the handle shows.\<close>

lemma settled_calm:
  assumes "calm d m futs us t forms fl" "t \<noteq> u64_MAX" "\<not> elapsed (deadline K t) (instant_now (clock_at d))"
  shows "calm d m futs us t forms (settled P elapsed get D L debug svc fl)"
    "flow_task (settled P elapsed get D L debug svc fl) = Some (Some (deadline K t))"
    "\<not> task_ready elapsed (settled P elapsed get D L debug svc fl)"
proof -
  let ?fl = "settled P elapsed get D L debug svc fl"
  show calm: "calm d m futs us t forms ?fl"
    using assms(1) calm_polled(1) [OF assms(1,3)] by (simp add: settled_def)
  have awake: "\<not> task_woken (flow_world ?fl)"
    using calm_polled(2) [OF assms(1,3)] by (simp add: settled_def task_ready_def)
  with calm assms(2) show task: "flow_task ?fl = Some (Some (deadline K t))"
    by (auto simp: calm_def in_time_def on_schedule_def)
  have "flow_clock ?fl = clock_at d" using calm by (simp add: calm_def)
  with awake task assms(3) show "\<not> task_ready elapsed ?fl" by (simp add: task_ready_def)
qed

text \<open>An idle runtime moves the clock to the time the task sleeps until.\<close>

lemma calm_idles:
  assumes calm: "calm d m futs us t forms fl" and t: "t \<noteq> u64_MAX" "\<not> elapsed (deadline K t) (instant_now (clock_at d))"
    and time: "unat t * nanos + 10 ^ 6 \<le> S + 1000 * nanos"
  obtains fl' d' where "idles elapsed (settled P elapsed get D L debug svc fl) fl'" "calm d' m futs us t forms fl'"
    "elapsed (deadline K t) (instant_now (clock_at d'))"
proof -
  let ?fl = "settled P elapsed get D L debug svc fl" and ?P = "\<lambda>n. elapsed (deadline K t) (instant_now (clock_at (d + n)))"
  note settled = settled_calm [OF calm t]
  have clock: "flow_clock ?fl = clock_at d" using settled(1) by (simp add: calm_def)
  have early: "S + d < unat t * nanos + 10 ^ 6" using passed [of t d] t(2) by (cases "S + d < unat t * nanos + 10 ^ 6") simp_all
  define n where "n = (LEAST n. ?P n)"
  let ?n = "unat t * nanos + 10 ^ 6 - (S + d)"
  have "?P ?n" by (rule passed) (use early in simp)
  then have n: "?P n" "n \<le> ?n" unfolding n_def by (rule LeastI, rule Least_le)
  have least: "\<forall>k < n. \<not> ?P k" unfolding n_def using not_less_Least by blast
  have at: "instant_now (clock_at (d + k)) = instant_now (flow_clock ?fl) + int k" for k
    using clock by (simp add: clock_at_def)
  have "idles elapsed ?fl (moved n ?fl)"
    using settled(3,2) n(1) least unfolding at by (rule idles.intros)
  moreover have "d + n \<le> 1000 * nanos" using n(2) early time by linarith
  then have "calm (d + n) m futs us t forms (moved n ?fl)" by (rule calm_advance [OF settled(1)])
  ultimately show thesis using n(1) by (rule that)
qed

text \<open>A task that waits to be woken has no sleep to be idle for.\<close>

lemma asleep_steps:
  assumes "(runtime_step P elapsed get D L debug svc)\<^sup>*\<^sup>* fl fl'" "calm d m futs us u64_MAX forms fl"
  shows "calm d m futs us u64_MAX forms fl'"
  using assms
proof induction
  case (step y z)
  then have y: "calm d m futs us u64_MAX forms y" by blast
  from step(2) show ?case
  proof cases
    case polls
    then show ?thesis using calm_polled(1) [OF y] by simp
  next
    case idle
    then obtain s where "flow_task y = Some (Some s)" by cases
    with y show ?thesis by (auto simp: calm_def in_time_def on_schedule_def)
  qed
qed

text \<open>Idle once, the runtime renews the subscription that was confirmed a moment ago.\<close>

lemma idle_renews:
  assumes calm: "calm d [i \<mapsto> feed_row secret (Some e)] [] [] t forms fl"
    and t: "t \<noteq> u64_MAX" "\<not> elapsed (deadline K t) (instant_now (clock_at d))" "unat t * nanos + 10 ^ 6 \<le> S + 1000 * nanos"
    and e: "sint e = int (unat t + 42)"
    and idle: "idle_at (clock_at d) T P elapsed get D L debug svc"
  obtains fl' d' j secret' fut where "rt_await T fl = (Inr (), fl')"
    "calm d' [i \<mapsto> feed_row secret None, j \<mapsto> feed_row secret' None] [fut] [] u64_MAX forms fl'" "j \<noteq> i"
    "posts_form L (callback svc) j (\<lambda>cb. SubscribeForm cb TOPIC secret') HUB TOPIC fut"
proof -
  obtain fl1 d' where fl1: "idles elapsed (settled P elapsed get D L debug svc fl) fl1"
    "calm d' [i \<mapsto> feed_row secret (Some e)] [] [] t forms fl1" "elapsed (deadline K t) (instant_now (clock_at d'))"
    by (rule calm_idles [OF calm t])
  have d': "d' \<le> 1000 * nanos" using fl1(2) by (simp add: calm_def)
  have "unat t * nanos \<le> S + d'" using not_yet [of d' t] fl1(3) by (cases "unat t * nanos \<le> S + d'") simp_all
  then have "unat t \<le> unat (secs_at d')" by (simp add: secs_at [OF d'] less_eq_div_iff_mult_less_eq)
  then have "sint e \<le> int (unat (secs_at d') + 43)" unfolding e of_nat_le_iff by simp
  with feed_renews [OF fl1(2) t(1) fl1(3)] obtain j secret' fut where j: "j \<noteq> i"
    "posts_form L (callback svc) j (\<lambda>cb. SubscribeForm cb TOPIC secret') HUB TOPIC fut"
    and calm': "calm d' [i \<mapsto> feed_row secret None, j \<mapsto> feed_row secret' None] [fut] [] u64_MAX forms
      (poll_task P elapsed get D L debug svc fl1)"
    unfolding feed_renewed_def by blast
  have "flow_clock fl = clock_at d" using calm by (simp add: calm_def)
  with idle fl1(1) have steps: "(runtime_step P elapsed get D L debug svc)\<^sup>*\<^sup>*
      (poll_task P elapsed get D L debug svc fl1) (snd (rt_await T fl))" unfolding idle_at_def by blast
  obtain r fl' where run: "rt_await T fl = (r, fl')" by (metis surj_pair)
  with asleep_steps [OF steps calm'] await [OF run] j show thesis by (intro that) simp_all
qed

text \<open>The last of the assertions on the listener, when the runtime has been idle before it.\<close>

lemma unsubscribed_idle:
  assumes calm: "calm d [j \<mapsto> feed_row secret (Some e)] [fut] [] t forms fl"
    and fut: "posts_form L (callback svc) i (\<lambda>cb. UnsubscribeForm cb TOPIC) HUB TOPIC fut"
    and d: "d + DELAY \<le> Z" and t: "S + (d + 2 * DELAY) < unat t * nanos" "unat t * nanos + 10 ^ 6 \<le> S + 1000 * nanos"
    and e: "sint e = int (unat t + 42)" and t_MAX: "t \<noteq> u64_MAX"
    and idle: "idle_at (clock_at (d + 2 * DELAY)) T P elapsed get D L debug svc"
  obtains fl' d' k secret' fut' where "flow_unsubscribes T L (cb_of i) fl = (Inl Panic, fl')" "k \<noteq> j"
    "calm d' [j \<mapsto> feed_row secret None, k \<mapsto> feed_row secret' None] [fut'] [] u64_MAX
      (forms @ [UnsubscribeForm (cb_of i) TOPIC]) fl'"
    "posts_form L (callback svc) k (\<lambda>cb. SubscribeForm cb TOPIC secret') HUB TOPIC fut'"
proof -
  let ?m = "[j \<mapsto> feed_row secret (Some e)]" and ?forms = "forms @ [UnsubscribeForm (cb_of i) TOPIC]"
  have sum: "d + DELAY + DELAY = d + 2 * DELAY" by simp
  have soon: "S + (d + DELAY) < unat t * nanos" "d + DELAY \<le> 1000 * nanos" "d + 2 * DELAY \<le> 1000 * nanos"
    using t d by linarith+
  obtain fl1 where fl1: "rt_advance T DELAY fl = (Inr (), fl1)" "calm (d + DELAY) ?m [fut] [] t forms fl1"
    by (rule advance_waits [OF calm soon(2) not_yet [OF soon(1)]])
  obtain fl2 where fl2: "accept_request T L ''/hub'' fl1 = accept_form T L ''/hub'' fut fl2"
    "calm (d + DELAY) ?m [] [] t forms fl2"
    by (rule request_taken [OF spawned_arrives [OF fl1(2) d not_yet [OF soon(1)]]])
  obtain fl3 where fl3: "accept_form T L ''/hub'' fut fl2 = and_then (rt_await T) (\<lambda>_. ret (UnsubscribeForm (cb_of i) TOPIC)) fl3"
    "calm (d + DELAY + DELAY) ?m [] [] t ?forms fl3"
    by (rule form_received [OF fl2(2) fut disjI2 [OF refl]]) (use soon t sum in simp_all)
  note calm3 = fl3(2) [unfolded sum]
  obtain fl4 d' k secret' fut' where fl4: "rt_await T fl3 = (Inr (), fl4)" and k: "k \<noteq> j"
    and calm4: "calm d' [j \<mapsto> feed_row secret None, k \<mapsto> feed_row secret' None] [fut'] [] u64_MAX ?forms fl4"
    and fut': "posts_form L (callback svc) k (\<lambda>cb. SubscribeForm cb TOPIC secret') HUB TOPIC fut'"
    by (rule idle_renews [OF calm3 t_MAX not_yet [OF t(1)] t(2) e idle])
  have "no_request fl4 = (Inl Panic, fl4)"
    using calm4 by (simp add: no_request_def calm_def asserts_def assert_that_def)
  then have "flow_unsubscribes T L (cb_of i) fl = (Inl Panic, fl4)"
    using fl1(1) fl2(1) fl3(1) fl4 by (simp add: flow_unsubscribes_def and_then_step)
  then show thesis using k calm4 fut' by (rule that)
qed

lemma flow_stops:
  assumes calm: "calm (4 * DELAY + MARGIN) [i \<mapsto> feed_row secret None, j \<mapsto> feed_row secret' None] [] [] u64_MAX forms fl"
    and j: "j \<noteq> i" "reversible j" and z: "5 * DELAY + MARGIN \<le> Z"
    and idle: "idle_at (clock_at (6 * DELAY + MARGIN)) T P elapsed get D L debug svc"
  shows "\<exists>fl' k secret fut. j \<noteq> k \<and> and_then (verify_intent_at T P elapsed get D L M F debug svc no_body (cb_of j)
        (VerifySubscribe TOPIC ''renewal_challenge'' (as_secs (2 * MARGIN)))) (\<lambda>_.
      and_then (flow_unsubscribes T L (cb_of i)) f) fl = (Inl Panic, fl') \<and>
    spawned (flow_world fl') = [fut] \<and> posts_form L (callback svc) k (\<lambda>cb. SubscribeForm cb TOPIC secret) HUB TOPIC fut \<and>
    subs (flow_db fl') = [j \<mapsto> feed_row secret' None, k \<mapsto> feed_row secret None]"
proof -
  let ?d = "4 * DELAY + MARGIN"
  have z4: "?d \<le> Z" "?d + DELAY \<le> Z" and sum: "?d + 2 * DELAY = 6 * DELAY + MARGIN" using z by simp_all
  have bound: "?d \<le> 1000 * nanos" using z4(1) window by linarith
  obtain fl1 e t fut where fl1: "verify_intent_at T P elapsed get D L M F debug svc no_body (cb_of j)
      (VerifySubscribe TOPIC ''renewal_challenge'' (as_secs (2 * MARGIN))) fl = (Inr (), fl1)"
    "calm ?d [j \<mapsto> feed_row secret' (Some e)] [fut] [] t forms fl1"
    and fut: "posts_form L (callback svc) i (\<lambda>cb. UnsubscribeForm cb TOPIC) HUB TOPIC fut"
    and e: "sint e = int (unat t + 42)" and t: "unat t = unat (secs_at ?d) + 42" "S + ?d + 40 * nanos < unat t * nanos"
    by (rule renewal_confirmed [OF calm z4(1) j])
  have later: "S + (?d + 2 * DELAY) < unat t * nanos" using t(2) by (simp add: durations)
  have "unat (secs_at ?d) * nanos \<le> S + ?d" by (rule secs_at_bounds(1) [OF bound])
  then have far: "unat t * nanos + 10 ^ 6 \<le> S + 1000 * nanos" unfolding t(1) by (simp add: durations algebra_simps)
  have t_MAX: "t \<noteq> u64_MAX" using secs_at_bounds(4) [OF bound] t(1) by auto
  obtain fl2 d' k secret fut' where "flow_unsubscribes T L (cb_of i) fl1 = (Inl Panic, fl2)" "k \<noteq> j"
    "calm d' [j \<mapsto> feed_row secret' None, k \<mapsto> feed_row secret None] [fut'] [] u64_MAX
      (forms @ [UnsubscribeForm (cb_of i) TOPIC]) fl2"
    "posts_form L (callback svc) k (\<lambda>cb. SubscribeForm cb TOPIC secret) HUB TOPIC fut'"
    by (rule unsubscribed_idle [OF fl1(2) fut z4(2) later far e t_MAX idle [folded sum]])
  then show ?thesis using fl1(1) by (auto simp: and_then_step calm_def and_then_def [of "flow_unsubscribes _ _ _"])
qed

end

section \<open>Instances\<close>

text \<open>What the runs below start from: an empty database, a body in one piece.\<close>

abbreviation empty_mem :: mem where
  "empty_mem \<equiv> \<lparr>mem_rows = [], mem_faults = []\<rparr>"

lemma empty_mem:
  "mem_table empty_mem = Map.empty" "mem_up empty_mem"
  "conn_get_next_expiry mem_connection2 empty_mem = (Inr None, empty_mem)"
  by (auto simp: mem_table_def mem_up_def diesel2_connection_def diesel2_get_next_expiry_def mem_diesel_def mem_query_def
      mem_select_def and_then_def)

abbreviation test_post :: "(unit + u8 list list) option poll list" where
  "test_post \<equiv> [Ready (Some (Inr [CONTENT]))]"

lemma test_post:
  "buf_spec rope_buf concat rope_good"
  "body_answers scripted_body (Suc 1) test_post = (test_post @ [Ready None], [])"
  "list_all (transfers rope_good) test_post" "data_bytes concat test_post = CONTENT"
  using rope.buf_spec_axioms by (simp_all add: scripted_body_def rope_good_def CONTENT_def as_bytes_def)

lemma test_mac:
  "mac_spec (buffered_mac constant_digest) constant_digest buffered"
  "\<forall>k m. length (constant_digest SHA1 k m) = output_size SHA1" "sha_1 all_features"
  using buffered_mac.mac_spec_axioms by (simp_all add: constant_digest_def all_features_def)

lemma test_start:
  "\<lparr>instant_now = int (1700000000 * 10 ^ 9) + 0, system_time_now = 1700000000 * 10 ^ 9\<rparr> =
   \<lparr>instant_now = 1700000000 * 10 ^ 9, system_time_now = 1700000000 * 10 ^ 9\<rparr>"
  by simp

text \<open>A runtime that is idle at the time \<open>k\<close>, as the renewal task sleeps.\<close>

definition wake_up :: "sleep \<Rightarrow> clock \<Rightarrow> nat" where
  "wake_up d k = nat (d + 10 ^ 6 - instant_now k)"

abbreviation test_settled where
  "test_settled \<equiv> settled wide_platform late_sleep (ret () :: (mem, unit) pool) mem_connection2 test_crates True test_svc"

abbreviation test_poll where
  "test_poll \<equiv> poll_task wide_platform late_sleep (ret () :: (mem, unit) pool) mem_connection2 test_crates True test_svc"

definition idle_runtime where
  "idle_runtime k = test_runtime\<lparr>rt_await := (\<lambda>fl. let fl = test_settled fl in (Inr (),
     case flow_task fl of
       Some (Some d) \<Rightarrow>
         if flow_clock fl = k \<and> \<not> task_ready late_sleep fl then test_poll (moved (wake_up d k) fl) else fl
     | _ \<Rightarrow> fl))\<rparr>"

lemma late_idles:
  "idles late_sleep fl fl' \<longleftrightarrow> \<not> task_ready late_sleep fl \<and>
     (\<exists>d. flow_task fl = Some (Some d) \<and> fl' = moved (wake_up d (flow_clock fl)) fl)"
proof
  assume "idles late_sleep fl fl'"
  then show "\<not> task_ready late_sleep fl \<and>
     (\<exists>d. flow_task fl = Some (Some d) \<and> fl' = moved (wake_up d (flow_clock fl)) fl)"
  proof cases
    case (1 d n)
    let ?n = "wake_up d (flow_clock fl)"
    have "\<not> ?n < n"
    proof
      assume "?n < n"
      with 1(5) have "\<not> late_sleep d (instant_now (flow_clock fl) + int ?n)" by blast
      then show False
        by (cases "instant_now (flow_clock fl) \<le> d + 10 ^ 6") (simp_all add: late_sleep_def wake_up_def)
    qed
    moreover have "?n \<le> n" using 1(4) by (simp add: late_sleep_def wake_up_def)
    ultimately have "n = ?n" by simp
    with 1 show ?thesis by simp
  qed
next
  assume "\<not> task_ready late_sleep fl \<and>
     (\<exists>d. flow_task fl = Some (Some d) \<and> fl' = moved (wake_up d (flow_clock fl)) fl)"
  then obtain d where d: "\<not> task_ready late_sleep fl" "flow_task fl = Some (Some d)"
    "fl' = moved (wake_up d (flow_clock fl)) fl" by blast
  show "idles late_sleep fl fl'"
    unfolding d(3) by (rule idles.intros [OF d(1,2)]) (auto simp: late_sleep_def wake_up_def)
qed

lemma woken_ready:
  "flow_task fl = Some (Some d) \<Longrightarrow> task_ready late_sleep (moved (wake_up d (flow_clock fl)) fl)"
  by (simp add: task_ready_def late_sleep_def wake_up_def advance_clock_def)

lemma idle_runtime_idle:
  "idle_at k (idle_runtime k) wide_platform late_sleep (ret () :: (mem, unit) pool) mem_connection2 test_crates True test_svc"
  by (auto simp: idle_at_def idle_runtime_def late_idles Let_def)

interpretation idle: tokio "idle_runtime k" wide_platform late_sleep "ret () :: (mem, unit) pool" mem_connection2 test_crates
  True test_svc
  for k
proof (unfold_locales, goal_cases)
  case (1 d fl r fl')
  then show ?case by (intro eager.advance) (simp add: idle_runtime_def)
next
  case (2 fl r fl')
  let ?step = "runtime_step wide_platform late_sleep (ret () :: (mem, unit) pool) mem_connection2 test_crates True test_svc"
  let ?fl = "test_settled fl"
  have jump: "?step\<^sup>*\<^sup>* ?fl (test_poll (moved (wake_up d (flow_clock ?fl)) ?fl))"
    if "flow_task ?fl = Some (Some d)" "\<not> task_ready late_sleep ?fl" for d
  proof -
    have "idles late_sleep ?fl (moved (wake_up d (flow_clock ?fl)) ?fl)" using that unfolding late_idles by blast
    from runtime_step.idle [OF this] runtime_step.polls [OF woken_ready [OF that(1)]]
    show ?thesis by (rule converse_rtranclp_into_rtranclp [OF _ r_into_rtranclp])
  qed
  have "?step\<^sup>*\<^sup>* fl ?fl" by (rule settled_steps)
  with 2 jump show ?case
    by (auto simp: idle_runtime_def Let_def split: option.splits if_splits intro: rtranclp_trans)
next
  case (3 c fl r fl')
  then have "rt_until test_runtime c fl = (r, fl')" by (simp add: idle_runtime_def)
  then show ?case by (rule eager.until)
qed

definition idle_clock :: clock where
  "idle_clock = \<lparr>instant_now = int (1700000000 * 10 ^ 9 + (MARGIN + 6 * DELAY)),
     system_time_now = 1700000000 * 10 ^ 9 + (MARGIN + 6 * DELAY)\<rparr>"

interpretation idle_bench: flow_bench test_crates mem_connection2 mem_table mem_up test_svc
  "idle_runtime idle_clock" wide_platform late_sleep "ret () :: (mem, unit) pool" True 0 "1700000000 * 10 ^ 9" "MARGIN + 5 * DELAY"
proof (intro flow_bench.intro flow_bench_axioms.intro)
  show "subscriber_service test_crates mem_connection2 mem_table mem_up test_svc"
    by (rule test_bench.subscriber_service_axioms)
  show "example_uris (uri_of test_crates) (form_of test_crates) (callback test_svc)"
    by (rule test_bench.example_uris_axioms)
  show "tokio (idle_runtime idle_clock) wide_platform late_sleep (ret () :: (mem, unit) pool) mem_connection2 test_crates
      True test_svc"
    by (rule idle.tokio_axioms)
  fix fl :: "(mem, u64, string \<times> string option, (unit + u8 list list) option poll list, u8 list \<times> u8 list) flow" and c
  assume early: "system_time_now (flow_clock fl) \<le> 1700000000 * 10 ^ 9 + (MARGIN + 5 * DELAY)"
  have "flow_clock fl \<noteq> idle_clock" using early by (auto simp: idle_clock_def durations)
  then show "flow_clock (snd (rt_await (idle_runtime idle_clock) fl)) = flow_clock fl"
    by (auto simp: idle_runtime_def Let_def split: option.split)
  show "flow_clock (snd (rt_until (idle_runtime idle_clock) c fl)) = flow_clock fl"
    by (simp add: idle_runtime_def eager_runtime_def Let_def)
qed (simp_all add: wide_platform late_sleep.sleep_spec_axioms always_statement test_svc_def durations)

section \<open>Properties\<close>

text \<open>
  C10: the protocol at once. The test \<open>entire_flow\<close> passes if the runtime is busy while the test
  waits, that is if tokio does not move the paused clock by itself: a subscription that the hub
  confirms is distributed to, renewed under a new id when the margin has passed, and the old one
  dropped; at the end there is one row, the new and active subscription. Even then the test may fail
  when an id was drawn whose callback does not lead back to it, and the hub has been given
  that callback. What happens when the runtime is idle is a property of its own.
\<close>

theorem entire_flow_passes:
  assumes "flow_bench L D subs up svc T P elapsed get debug K S Z" "MARGIN + 6 * DELAY \<le> Z"
    and "mac_spec M tag keyed" "\<forall>k m. length (tag SHA1 k m) = output_size SHA1" "sha_1 F"
    and "buf_spec U contents good" "body_answers B (Suc n) post = (rs @ [Ready None], b')"
      "list_all (transfers good) rs" "data_bytes contents rs = CONTENT" "collects M U B contents to_bytes"
    and "subs c0 = Map.empty" "up c0"
    and "prepare_subscriber get D L P \<lparr>instant_now = int S + K, system_time_now = S\<rparr> g c0 = Inr (svc, fl)"
    and "entire_flow T P elapsed get D L M F debug svc to_bytes no_body post fl = (r, fl')"
  shows "(r = Inr () \<and> (\<exists>j secret e. subs (flow_db fl') =
       [j \<mapsto> \<lparr>sub_hub = HUB, sub_topic = TOPIC, sub_secret = secret, sub_expires_at = Some e\<rparr>])) \<or>
    (\<exists>i cb topic secret. \<not> reversible i \<and> (make_callback L (callback svc) i :: (unit, 'u) result) = Inr cb \<and>
       SubscribeForm cb topic secret \<in> set (flow_forms fl'))"
proof -
  note bench = assms(1)
  have start: "flow_bench.clock_at K S 0 = \<lparr>instant_now = int S + K, system_time_now = S\<rparr>"
    by (simp add: flow_bench.clock_at_def [OF bench])
  have length: "length (tag SHA1 k m) = output_size SHA1" for k m using assms(4) by blast
  have z: "4 * DELAY + MARGIN \<le> Z" "6 * DELAY + MARGIN \<le> Z" using assms(2) by simp_all
  note calm = flow_bench.started [OF bench, unfolded start, OF assms(13,11,12)]
  from flow_bench.flow_starts [OF bench calm z(1) assms(3) length assms(5-10), of no_body]
  show ?thesis
  proof (elim disjE exE conjE)
    fix fl1 i j secret secret' forms
    assume run: "entire_flow T P elapsed get D L M F debug svc to_bytes no_body post fl =
      and_then (verify_intent_at T P elapsed get D L M F debug svc no_body (flow_bench.cb_of L svc j)
        (VerifySubscribe TOPIC ''renewal_challenge'' (as_secs (2 * MARGIN)))) (\<lambda>_.
      and_then (flow_unsubscribes T L (flow_bench.cb_of L svc i)) (\<lambda>_.
      and_then (verify_intent_at T P elapsed get D L M F debug svc no_body (flow_bench.cb_of L svc i)
        (VerifyUnsubscribe TOPIC ''unsubscription_challenge'')) (\<lambda>_.
      and_then (no_update P elapsed debug) (\<lambda>_. row_gone get D L (flow_bench.cb_of L svc i))))) fl1"
      and i: "reversible i" and j: "j \<noteq> i" "reversible j"
      and calm1: "flow_bench.calm subs up svc K S (4 * DELAY + MARGIN)
        [i \<mapsto> flow_bench.feed_row secret None, j \<mapsto> flow_bench.feed_row secret' None] [] [] u64_MAX forms fl1"
    from flow_bench.flow_ends [OF bench calm1 i j z(2), of M F no_body] show ?thesis
      unfolding run [symmetric] assms(14) by (auto simp: flow_bench.feed_row_def [OF bench])
  next
    assume "flow_bench.lost L svc (snd (entire_flow T P elapsed get D L M F debug svc to_bytes no_body post fl))"
    then show ?thesis
      using flow_bench.cb_of(1) [OF bench] assms(14) by (auto simp: flow_bench.lost_def [OF bench])
  qed
qed

theorem entire_flow_passes_witness:
  "\<exists>fl r fl'. prepare_subscriber (ret () :: (mem, unit) pool) mem_connection2 test_crates wide_platform
       \<lparr>instant_now = 1700000000 * 10 ^ 9, system_time_now = 1700000000 * 10 ^ 9\<rparr> 7 \<lparr>mem_rows = [], mem_faults = []\<rparr> =
     Inr (test_svc, fl) \<and>
   entire_flow test_runtime wide_platform late_sleep (ret () :: (mem, unit) pool) mem_connection2 test_crates
     (buffered_mac constant_digest) all_features True test_svc
     (read_all (buffered_mac constant_digest) rope_buf scripted_body concat) [] [Ready (Some (Inr [CONTENT]))] fl =
     (r, fl') \<and>
   (r = Inr () \<or> (\<exists>i cb topic secret. \<not> reversible i \<and> SubscribeForm cb topic secret \<in> set (flow_forms fl')))"
proof -
  obtain fl where fl: "prepare_subscriber (ret () :: (mem, unit) pool) mem_connection2 test_crates wide_platform
      \<lparr>instant_now = 1700000000 * 10 ^ 9, system_time_now = 1700000000 * 10 ^ 9\<rparr> 7 empty_mem = Inr (test_svc, fl)"
    by (rule test_prepared [OF empty_mem(3)]) simp_all
  obtain r fl' where run: "entire_flow test_runtime wide_platform late_sleep (ret () :: (mem, unit) pool) mem_connection2
      test_crates (buffered_mac constant_digest) all_features True test_svc
      (read_all (buffered_mac constant_digest) rope_buf scripted_body concat) [] test_post fl = (r, fl')"
    by (metis surj_pair)
  have z: "MARGIN + 6 * DELAY \<le> 1000 * nanos" by (simp add: durations)
  from entire_flow_passes [OF test_bench.flow_bench_axioms z test_mac test_post read_all_collects empty_mem(1,2),
      unfolded test_start, OF fl run]
  show ?thesis using fl run by blast
qed

text \<open>
  C11: the comment at the last assertion on the listener. When the runtime has no work to do while the
  hub serves the request to unsubscribe to its end, tokio moves the paused clock to its next
  timer, which is the renewal task's: the task renews the subscription that the hub confirmed
  a moment ago, a request to subscribe is sent under a third id, and the test \<open>entire_flow\<close> panics at
  \<open>assert!(listener.poll_next(cx).is_pending())\<close>, the request waiting. The exception is again a callback
  given to the hub that does not lead back to its id.
\<close>

theorem entire_flow_fails_idle:
  assumes "flow_bench L D subs up svc T P elapsed get debug K S Z" "MARGIN + 5 * DELAY \<le> Z"
    and "idle_at \<lparr>instant_now = int (S + (MARGIN + 6 * DELAY)) + K, system_time_now = S + (MARGIN + 6 * DELAY)\<rparr>
      T P elapsed get D L debug svc"
    and "mac_spec M tag keyed" "\<forall>k m. length (tag SHA1 k m) = output_size SHA1" "sha_1 F"
    and "buf_spec U contents good" "body_answers B (Suc n) post = (rs @ [Ready None], b')"
      "list_all (transfers good) rs" "data_bytes contents rs = CONTENT" "collects M U B contents to_bytes"
    and "subs c0 = Map.empty" "up c0"
    and "prepare_subscriber get D L P \<lparr>instant_now = int S + K, system_time_now = S\<rparr> g c0 = Inr (svc, fl)"
    and "entire_flow T P elapsed get D L M F debug svc to_bytes no_body post fl = (r, fl')"
  shows "(r = Inl Panic \<and> (\<exists>j k secret secret' fut. j \<noteq> k \<and> subs (flow_db fl') =
        [j \<mapsto> \<lparr>sub_hub = HUB, sub_topic = TOPIC, sub_secret = secret, sub_expires_at = None\<rparr>,
         k \<mapsto> \<lparr>sub_hub = HUB, sub_topic = TOPIC, sub_secret = secret', sub_expires_at = None\<rparr>] \<and>
        spawned (flow_world fl') = [fut] \<and>
        posts_form L (callback svc) k (\<lambda>cb. SubscribeForm cb TOPIC secret') HUB TOPIC fut)) \<or>
    (\<exists>i cb topic secret. \<not> reversible i \<and> (make_callback L (callback svc) i :: (unit, 'u) result) = Inr cb \<and>
       SubscribeForm cb topic secret \<in> set (flow_forms fl'))"
proof -
  note bench = assms(1)
  have start: "flow_bench.clock_at K S 0 = \<lparr>instant_now = int S + K, system_time_now = S\<rparr>"
    by (simp add: flow_bench.clock_at_def [OF bench])
  have length: "length (tag SHA1 k m) = output_size SHA1" for k m using assms(5) by blast
  have z: "4 * DELAY + MARGIN \<le> Z" "5 * DELAY + MARGIN \<le> Z" using assms(2) by simp_all
  have idle: "idle_at (flow_bench.clock_at K S (6 * DELAY + MARGIN)) T P elapsed get D L debug svc"
    using assms(3) by (simp add: flow_bench.clock_at_def [OF bench] add.commute)
  note calm = flow_bench.started [OF bench, unfolded start, OF assms(14,12,13)]
  from flow_bench.flow_starts [OF bench calm z(1) assms(4) length assms(6-11), of no_body]
  show ?thesis
  proof (elim disjE exE conjE)
    fix fl1 i j secret secret' forms
    assume run: "entire_flow T P elapsed get D L M F debug svc to_bytes no_body post fl =
      and_then (verify_intent_at T P elapsed get D L M F debug svc no_body (flow_bench.cb_of L svc j)
        (VerifySubscribe TOPIC ''renewal_challenge'' (as_secs (2 * MARGIN)))) (\<lambda>_.
      and_then (flow_unsubscribes T L (flow_bench.cb_of L svc i)) (\<lambda>_.
      and_then (verify_intent_at T P elapsed get D L M F debug svc no_body (flow_bench.cb_of L svc i)
        (VerifyUnsubscribe TOPIC ''unsubscription_challenge'')) (\<lambda>_.
      and_then (no_update P elapsed debug) (\<lambda>_. row_gone get D L (flow_bench.cb_of L svc i))))) fl1"
      and j: "j \<noteq> i" "reversible j"
      and calm1: "flow_bench.calm subs up svc K S (4 * DELAY + MARGIN)
        [i \<mapsto> flow_bench.feed_row secret None, j \<mapsto> flow_bench.feed_row secret' None] [] [] u64_MAX forms fl1"
    from flow_bench.flow_stops [OF bench calm1 j z(2) idle, of M F no_body]
    obtain fl2 k s fut where "(r, fl') = (Inl Panic, fl2)" "j \<noteq> k" "spawned (flow_world fl2) = [fut]"
      "posts_form L (callback svc) k (\<lambda>cb. SubscribeForm cb TOPIC s) HUB TOPIC fut"
      "subs (flow_db fl2) = [j \<mapsto> flow_bench.feed_row secret' None, k \<mapsto> flow_bench.feed_row s None]"
      unfolding assms(15) [symmetric] run by blast
    then show ?thesis unfolding flow_bench.feed_row_def [OF bench] by blast
  next
    assume "flow_bench.lost L svc (snd (entire_flow T P elapsed get D L M F debug svc to_bytes no_body post fl))"
    then show ?thesis
      using flow_bench.cb_of(1) [OF bench] assms(15) by (auto simp: flow_bench.lost_def [OF bench])
  qed
qed

theorem entire_flow_fails_idle_witness:
  "\<exists>fl r fl'. prepare_subscriber (ret () :: (mem, unit) pool) mem_connection2 test_crates wide_platform
       \<lparr>instant_now = 1700000000 * 10 ^ 9, system_time_now = 1700000000 * 10 ^ 9\<rparr> 7 \<lparr>mem_rows = [], mem_faults = []\<rparr> =
     Inr (test_svc, fl) \<and>
   entire_flow (idle_runtime idle_clock) wide_platform late_sleep (ret () :: (mem, unit) pool) mem_connection2 test_crates
     (buffered_mac constant_digest) all_features True test_svc
     (read_all (buffered_mac constant_digest) rope_buf scripted_body concat) [] [Ready (Some (Inr [CONTENT]))] fl =
     (r, fl') \<and>
   (r = Inl Panic \<or> (\<exists>i cb topic secret. \<not> reversible i \<and> SubscribeForm cb topic secret \<in> set (flow_forms fl')))"
proof -
  obtain fl where fl: "prepare_subscriber (ret () :: (mem, unit) pool) mem_connection2 test_crates wide_platform
      \<lparr>instant_now = 1700000000 * 10 ^ 9, system_time_now = 1700000000 * 10 ^ 9\<rparr> 7 empty_mem = Inr (test_svc, fl)"
    by (rule test_prepared [OF empty_mem(3)]) simp_all
  obtain r fl' where run: "entire_flow (idle_runtime idle_clock) wide_platform late_sleep (ret () :: (mem, unit) pool)
      mem_connection2 test_crates (buffered_mac constant_digest) all_features True test_svc
      (read_all (buffered_mac constant_digest) rope_buf scripted_body concat) [] test_post fl = (r, fl')"
    by (metis surj_pair)
  have k: "idle_clock = \<lparr>instant_now = int (1700000000 * 10 ^ 9 + (MARGIN + 6 * DELAY)) + 0,
      system_time_now = 1700000000 * 10 ^ 9 + (MARGIN + 6 * DELAY)\<rparr>"
    by (simp add: idle_clock_def)
  note idle = idle_runtime_idle [of idle_clock, unfolded arg_cong [OF k, of idle_at]]
  from entire_flow_fails_idle [OF idle_bench.flow_bench_axioms order_refl idle test_mac test_post read_all_collects
      empty_mem(1,2), unfolded test_start, OF fl run]
  show ?thesis using fl run by blast
qed

end
