(* ===== verification/MultiSubs.thy ===== *)
theory MultiSubs
  imports Bench
begin

text \<open>
  The test \<open>renew_multi_subs\<close> (\<open>src/subscriber.rs\<close>): two subscriptions that expire one after the
  other are renewed one after the other.
\<close>

section \<open>The test\<close>

definition TOPIC1 :: string where
  "TOPIC1 = ''http://example.com/topic/1''"

definition TOPIC2 :: string where
  "TOPIC2 = ''http://example.com/topic/2''"

text \<open>The rows that the test inserts, when it begins at a second of the Unix time.\<close>

definition multi_rows :: "u64 \<Rightarrow> table" where
  "multi_rows start =
     (let expiry1 = start + as_secs MARGIN + 1; expiry2 = expiry1 + as_secs MARGIN
      in [1 \<mapsto> \<lparr>sub_hub = HUB, sub_topic = TOPIC1, sub_secret = ''secret1'', sub_expires_at = Some expiry1\<rparr>,
          2 \<mapsto> \<lparr>sub_hub = HUB, sub_topic = TOPIC2, sub_secret = ''secret2'', sub_expires_at = Some expiry2\<rparr>])"

text \<open>The callback of an id, as the test writes it.\<close>

definition old_callback :: "('u, 'a, 'p, 'g) crates \<Rightarrow> u64 \<Rightarrow> ('e, 'u) result" where
  "old_callback L i =
     unwrap (uri_parse (uri_of L) (''http://example.com/'' @ encode (memchr_of L) (base64_of L) (to_le_bytes i)))"

text \<open>
  One renewal, which the test goes through for each of the rows: the subscriber asks for the
  topic anew, the hub verifies it, and the subscriber unsubscribes from the old subscription.
\<close>

definition renewal_round ::
  "('c, 'g, 'u, 'b, 'm) flow runtime \<Rightarrow> platform \<Rightarrow> (sleep \<Rightarrow> int \<Rightarrow> bool) \<Rightarrow> ('c, 'pe) pool \<Rightarrow> ('c, 'e, ('g, 'u, 'b, 'm) world) connection \<Rightarrow>
    ('u, 'a, 'p, 'g) crates \<Rightarrow> 'm mac_crate \<Rightarrow> features \<Rightarrow> bool \<Rightarrow> 'u service \<Rightarrow> 'b \<Rightarrow>
    u64 \<Rightarrow> string \<Rightarrow> string \<Rightarrow> u64 \<Rightarrow> (('c, 'g, 'u, 'b, 'm) flow, unit, 'u) action" where
  "renewal_round T P elapsed get D L M F debug svc no_body i topic challenge lease =
     and_then (accept_request T L ''/hub'') (\<lambda>form.
     and_then (subscribe_form form) (\<lambda>(cb, topic', _).
     and_then (asserts (topic' = topic)) (\<lambda>_.
     and_then no_request (\<lambda>_.
     and_then (verify_intent_at T P elapsed get D L M F debug svc no_body cb (VerifySubscribe topic challenge lease)) (\<lambda>_.
     and_then (lift (old_callback L i)) (\<lambda>old_cb.
     and_then (accept_request T L ''/hub'') (\<lambda>form.
     and_then (unsubscribe_form form) (\<lambda>(cb, topic').
     and_then (asserts (cb = old_cb)) (\<lambda>_.
     and_then (asserts (topic' = topic)) (\<lambda>_.
     and_then no_request (\<lambda>_. ret old_cb)))))))))))"

definition renew_multi_subs ::
  "('c, 'g, 'u, 'b, 'm) flow runtime \<Rightarrow> platform \<Rightarrow> (sleep \<Rightarrow> int \<Rightarrow> bool) \<Rightarrow> ('c, 'pe) pool \<Rightarrow> ('c, 'e, ('g, 'u, 'b, 'm) world) connection \<Rightarrow>
    ('u, 'a, 'p, 'g) crates \<Rightarrow> 'm mac_crate \<Rightarrow> features \<Rightarrow> bool \<Rightarrow> 'u service \<Rightarrow> 'b \<Rightarrow>
    (('c, 'g, 'u, 'b, 'm) flow, unit, unit) action" where
  "renew_multi_subs T P elapsed get D L M F debug svc no_body =
     (let verify_at = verify_intent_at T P elapsed get D L M F debug svc no_body;
          renews_row = renewal_round T P elapsed get D L M F debug svc no_body
      in
     and_then no_request (\<lambda>_.
     and_then (rt_advance T (2 * nanos)) (\<lambda>_.
     and_then (renews_row 1 TOPIC1 ''subscription_challenge1'' (2 * as_secs MARGIN + 2)) (\<lambda>old_cb1.
     and_then (verify_at old_cb1 (VerifyUnsubscribe TOPIC1 ''unsubscription_challenge1'')) (\<lambda>_.
     and_then (rt_advance T MARGIN) (\<lambda>_.
     and_then (renews_row 2 TOPIC2 ''subscription_challenge2'' (as_secs MARGIN + 1)) (\<lambda>old_cb2.
     verify_at old_cb1 (VerifyUnsubscribe TOPIC2 ''unsubscription_challenge2''))))))))"

section \<open>A renewal\<close>

context tokio
begin

lemma logs_round [intro]: "logs (renewal_round T P elapsed get D L M F debug svc no_body i topic challenge lease)"
  unfolding renewal_round_def split_def
  by (intro logs_and_then logs_simps logs_accept_request logs_forms logs_verify_intent_at)+

end

context flow_bench
begin

lemma old_callback: "old_callback L i = (Inr (cb_of i) :: ('f, 'u) result)"
  by (simp add: old_callback_def cb_of(6) del: append.simps)

lemma round_passes:
  assumes come: "arrives d m fut [] [] t forms fl"
    and fut: "posts_form L (callback svc) j (\<lambda>cb. SubscribeForm cb topic secret) HUB topic fut"
    and p: "pending j topic m = Some HUB" and dup: "duplicates j HUB topic m = {i}"
    and lease: "43 \<le> unat lease" "unat lease \<le> 1000"
    and time: "d + 2 * DELAY \<le> Z" "t \<noteq> u64_MAX \<Longrightarrow> S + (d + 2 * DELAY) < unat t * nanos"
      "S + (d + 2 * DELAY) < (unat (secs_at (d + DELAY)) + unat lease - 42) * nanos"
  shows "(\<exists>fl' e t'. renewal_round T P elapsed get D L M F debug svc no_body i topic challenge lease fl = (Inr (cb_of i), fl') \<and>
      calm (d + 2 * DELAY) (verified j e HUB topic m) [] [] (min t t')
        (forms @ [SubscribeForm (cb_of j) topic secret, UnsubscribeForm (cb_of i) topic]) fl' \<and>
      sint e = int (unat (secs_at (d + DELAY)) + unat lease) \<and>
      unat t' = unat (secs_at (d + DELAY)) + unat lease - 42) \<or>
    lost (snd (renewal_round T P elapsed get D L M F debug svc no_body i topic challenge lease fl))"
proof -
  have sum: "d + DELAY + DELAY = d + 2 * DELAY" by simp
  have d: "d + DELAY \<le> Z" using time(1) by simp
  have early: "S + (d + DELAY) < unat t * nanos" if "t \<noteq> u64_MAX" using time(2) [OF that] by simp
  obtain fl1 where fl1: "accept_request T L ''/hub'' fl = (Inr (SubscribeForm (cb_of j) topic secret), fl1)"
    "calm (d + DELAY) m [] [] t (forms @ [SubscribeForm (cb_of j) topic secret]) fl1"
    by (rule request_accepted [OF come fut disjI1 [OF refl] d early])
  show ?thesis
  proof (cases "reversible j")
    case False
    with fl1 have "lost (snd (accept_request T L ''/hub'' fl))" by (auto simp: lost_def calm_def)
    then show ?thesis
      unfolding renewal_round_def split_def
      by (intro disjI2 lost_and_then logs_and_then logs_simps logs_accept_request logs_forms logs_verify_intent_at)
  next
    case True
    have hub: "uri_parse (uri_of L) HUB \<noteq> None" using parse_hub by auto
    obtain fl2 e t' old futs where fl2:
      "verify_intent_at T P elapsed get D L M F debug svc no_body (cb_of j) (VerifySubscribe topic challenge lease) fl1 = (Inr (), fl2)"
      "calm (d + DELAY) (verified j e HUB topic m) ([] @ futs) [] (min t t') (forms @ [SubscribeForm (cb_of j) topic secret]) fl2"
      and e: "sint e = int (unat (secs_at (d + DELAY)) + unat lease)" "unat t' = unat (secs_at (d + DELAY)) + unat lease - 42"
      and old: "distinct old" "set old = duplicates j HUB topic m" "list_all2 (drops L (callback svc) HUB topic) old futs"
      by (rule verify_subscribes [OF fl1(2) d True p hub lease not_yet [OF early]])
    from old(1,2) dup have "old = [i]" by (intro distinct_single) simp_all
    with old(3) obtain fut' where fut': "futs = [fut']" "posts_form L (callback svc) i (\<lambda>cb. UnsubscribeForm cb topic) HUB topic fut'"
      by (auto simp: list_all2_Cons1 drops_def)
    have calm2: "calm (d + DELAY) (verified j e HUB topic m) [fut'] [] (min t t') (forms @ [SubscribeForm (cb_of j) topic secret]) fl2"
      using fl2(2) unfolding fut'(1) by simp
    have soon: "S + (d + DELAY) < unat (min t t') * nanos" if "min t t' \<noteq> u64_MAX"
      using time(2,3) that e(2) by (cases "t \<le> t'") (simp_all add: min_def)
    have early': "S + (d + DELAY + DELAY) < unat (min t t') * nanos" if "min t t' \<noteq> u64_MAX"
      unfolding sum using time(2,3) that e(2) by (cases "t \<le> t'") (simp_all add: min_def)
    obtain fl3 where fl3: "accept_request T L ''/hub'' fl2 = (Inr (UnsubscribeForm (cb_of i) topic), fl3)"
      "calm (d + DELAY + DELAY) (verified j e HUB topic m) [] [] (min t t')
        ((forms @ [SubscribeForm (cb_of j) topic secret]) @ [UnsubscribeForm (cb_of i) topic]) fl3"
      by (rule request_accepted [OF spawned_arrives [OF calm2 d not_yet [OF soon]] fut'(2) disjI2 [OF refl] time(1) [folded sum] early'])
    have "renewal_round T P elapsed get D L M F debug svc no_body i topic challenge lease fl = (Inr (cb_of i), fl3)"
      using fl1(1) fl2(1) fl3(1) no_request_calm [OF fl1(2)] no_request_calm [OF fl3(2)]
      by (simp add: renewal_round_def and_then_step old_callback)
    with fl3(2) e show ?thesis unfolding sum append_assoc append_Cons append_Nil by blast
  qed
qed

end

section \<open>The times of the test\<close>

lemma div_later:
  fixes S N :: nat
  assumes "S mod N + x < N"
  shows "(S + (c * N + x)) div N = S div N + c"
proof -
  have "S + (c * N + x) = (S mod N + x) + (S div N + c) * N"
    using div_mult_mod_eq [of S N] by (simp add: algebra_simps)
  also have "\<dots> div N = (S div N + c) + (S mod N + x) div N" using assms by simp
  finally show ?thesis using assms by simp
qed

context flow_bench
begin

lemma secs_later:
  assumes "S mod nanos + x < nanos" "c \<le> 900"
  shows "unat (secs_at (c * nanos + x)) = S div nanos + c"
proof -
  have "c * nanos + x \<le> 1000 * nanos" using assms by simp
  then show ?thesis by (simp only: secs_at div_later [OF assms(1)])
qed

lemma before_iff: "S mod nanos + x < nanos \<Longrightarrow> S + (c * nanos + x) < n * nanos \<longleftrightarrow> S div nanos + c < n"
  using div_later [of S nanos x c] div_less_iff_less_mult [of nanos "S + (c * nanos + x)" n] by simp

lemma start_small: "S div nanos < 2 ^ 61"
  using start(2) by (rule less_mult_imp_div_less)

text \<open>The rows.\<close>

definition row :: "string \<Rightarrow> string \<Rightarrow> i64 option \<Rightarrow> sub" where
  "row topic secret e = \<lparr>sub_hub = HUB, sub_topic = topic, sub_secret = secret, sub_expires_at = e\<rparr>"

lemma row_simps [simp]:
  "sub_hub (row topic secret e) = HUB" "sub_topic (row topic secret e) = topic" "sub_secret (row topic secret e) = secret"
  "sub_expires_at (row topic secret e) = e" "(row topic secret e)\<lparr>sub_expires_at := e'\<rparr> = row topic secret e'"
  by (simp_all add: row_def)

lemma topics [simp]: "TOPIC1 \<noteq> TOPIC2" "TOPIC2 \<noteq> TOPIC1"
  by (simp_all add: TOPIC1_def TOPIC2_def)

definition expiry1 :: i64 where
  "expiry1 = secs_at 0 + as_secs MARGIN + 1"

definition expiry2 :: i64 where
  "expiry2 = expiry1 + as_secs MARGIN"

lemma multi_rows_eq:
  "multi_rows (secs_at 0) = [1 \<mapsto> row TOPIC1 ''secret1'' (Some expiry1), 2 \<mapsto> row TOPIC2 ''secret2'' (Some expiry2)]"
  by (simp add: multi_rows_def expiry1_def expiry2_def row_def Let_def)

lemma sint_later: "n < 2 ^ 62 \<Longrightarrow> unat (x :: i64) = n \<Longrightarrow> sint x = int n"
  by (simp add: sint_nonneg_eq sint_nonneg_iff)

lemma expiries_at: "sint expiry1 = int (S div nanos + 43)" "sint expiry2 = int (S div nanos + 85)"
proof -
  have now: "unat (secs_at 0) = S div nanos" using secs_at [of 0] by simp
  have margin: "as_secs MARGIN = 42" by (simp add: MARGIN_def as_secs_def)
  have 1: "unat (secs_at 0 + 42) = S div nanos + 42"
    using unat_plus_no_wrap [of "secs_at 0" 42] start_small by (simp add: now)
  have 2: "unat expiry1 = S div nanos + 43"
    using unat_plus_no_wrap [of "secs_at 0 + 42" 1] start_small by (simp add: expiry1_def margin 1)
  have 3: "unat expiry2 = S div nanos + 85"
    using unat_plus_no_wrap [of expiry1 42] start_small by (simp add: expiry2_def margin 2)
  show "sint expiry1 = int (S div nanos + 43)" by (rule sint_later [OF _ 2]) (use start_small in simp)
  show "sint expiry2 = int (S div nanos + 85)" by (rule sint_later [OF _ 3]) (use start_small in simp)
qed

lemma multi_start:
  assumes "prepare_subscriber get D L P (clock_at 0) g c0 = (Inr (svc, fl) :: (_, _) result)"
    and "subs c0 = multi_rows (secs_at 0)" "up c0"
  obtains t where "calm 0 (multi_rows (secs_at 0)) [] [] t [] fl" "unat t = S div nanos + 1"
proof -
  obtain e where e: "first_expiry (multi_rows (secs_at 0)) e"
    and calm: "calm 0 (multi_rows (secs_at 0)) [] [] (handle_next_tick (map_option (first_tick_at 42) e)) [] fl"
    by (rule prepared_calm [OF assms])
  have "e = Some expiry1"
    using e expiries_at unfolding multi_rows_eq
    by (auto simp: first_expiry_def split: option.splits if_splits)
  moreover have "int (unat (first_tick_at 42 expiry1)) = int (S div nanos + 1)"
    using first_tick_due [of svc expiry1] by (simp add: margin due_def expiries_at)
  then have "unat (first_tick_at 42 expiry1) = S div nanos + 1" by (simp only: of_nat_eq_iff)
  ultimately show thesis using calm by (intro that) (simp_all add: handle_next_tick_def)
qed

end

section \<open>The two renewals\<close>

context flow_bench
begin

abbreviation rows0 :: table where
  "rows0 \<equiv> [1 \<mapsto> row TOPIC1 ''secret1'' (Some expiry1), 2 \<mapsto> row TOPIC2 ''secret2'' (Some expiry2)]"

abbreviation rows1 :: "u64 \<Rightarrow> string \<Rightarrow> i64 option \<Rightarrow> table" where
  "rows1 j s e \<equiv> [2 \<mapsto> row TOPIC2 ''secret2'' (Some expiry2), j \<mapsto> row TOPIC1 s e]"

lemma hubs_of_rows:
  "(\<And>i s. m i = Some s \<Longrightarrow> sub_hub s = HUB) \<Longrightarrow> hubs_are_uris L m"
  using parse_hub by (fastforce simp: hubs_are_uris_def)

lemma next_tick_value:
  assumes "first_expiry m e'" "next_tick_after svc now e' n" "\<exists>i s. m i = Some s \<and> sub_expires_at s = Some e"
    and "\<And>i s x. m i = Some s \<Longrightarrow> sub_expires_at s = Some x \<Longrightarrow> x = e" "sint e = int (N + 42)"
  obtains t where "n = Some t" "unat t = N"
proof -
  have "e' = Some e"
    using assms(1,3,4) by (cases e') (auto simp: first_expiry_def)
  with assms(2) obtain t where t: "n = Some t" "int (unat t) = sint e - int (unat (renewal_margin svc))"
    by (auto simp: next_tick_after_def)
  then have "int (unat t) = int N" by (simp add: assms(5) margin)
  with t(1) show thesis by (intro that) (simp_all only: of_nat_eq_iff)
qed

lemma row_new:
  "\<lparr>sub_hub = sub_hub (row topic s e), sub_topic = sub_topic (row topic s e), sub_secret = secret, sub_expires_at = None\<rparr> =
     row topic secret None"
  by (simp add: row_def)

lemma advance_renews_row:
  assumes calm: "calm d m [] [] t forms fl" and d: "d + d' \<le> Z"
    and t: "t \<noteq> u64_MAX" "unat t * nanos + 10 ^ 6 \<le> S + (d + d')"
    and few: "2 * card (dom m) < 2 ^ 64" and hubs: "\<forall>k s'. m k = Some s' \<longrightarrow> sub_hub s' = HUB"
    and due: "m i = Some (row topic s (Some e))" "sint e \<le> int (unat (secs_at (d + d')) + 43)"
    and rest: "\<forall>k s' e'. k \<noteq> i \<longrightarrow> m k = Some s' \<longrightarrow> sub_expires_at s' = Some e' \<longrightarrow>
      int (unat (secs_at (d + d')) + 43) < sint e'"
  obtains fl' j secret fut e' n where "rt_advance T d' fl = (Inr (), fl')" "j \<notin> dom m"
    "arrives (d + d') (m(i \<mapsto> row topic s None, j \<mapsto> row topic secret None)) fut [] [] (handle_next_tick n) forms fl'"
    "posts_form L (callback svc) j (\<lambda>cb. SubscribeForm cb topic secret) HUB topic fut"
    "first_expiry (m(i \<mapsto> row topic s None, j \<mapsto> row topic secret None)) e'"
    "next_tick_after svc (secs_at (d + d')) e' n"
proof -
  let ?d = "d + d'" and ?c = "\<lambda>fl. spawned (flow_world fl) \<noteq> []"
  have bound: "?d \<le> 1000 * nanos" using d window by linarith
  have uris: "hubs_are_uris L m" by (rule hubs_of_rows) (use hubs in blast)
  define R where "R fl \<longleftrightarrow> (\<exists>j secret fut e' n. j \<notin> dom m \<and>
    calm ?d (m(i \<mapsto> row topic s None, j \<mapsto> row topic secret None)) [fut] [] (handle_next_tick n) forms fl \<and>
    posts_form L (callback svc) j (\<lambda>cb. SubscribeForm cb topic secret) HUB topic fut \<and>
    first_expiry (m(i \<mapsto> row topic s None, j \<mapsto> row topic secret None)) e' \<and>
    next_tick_after svc (secs_at ?d) e' n)" for fl :: "('c, 'g, 'u, 'b, 'm) flow"
  have renews: "task_ready elapsed fl \<and> R (poll_task P elapsed get D L debug svc fl)" if fl: "calm ?d m [] [] t forms fl" for fl
  proof -
    obtain j secret fut e' n where "task_ready elapsed fl" "j \<notin> dom m"
      "calm ?d (m(i \<mapsto> row topic s None, j \<mapsto> row topic secret None)) ([] @ [fut]) [] (handle_next_tick n) forms
         (poll_task P elapsed get D L debug svc fl)"
      "posts_form L (callback svc) j (\<lambda>cb. SubscribeForm cb (sub_topic (row topic s (Some e))) secret)
         (sub_hub (row topic s (Some e))) (sub_topic (row topic s (Some e))) fut"
      "first_expiry (m(i \<mapsto> row topic s None, j \<mapsto> row topic secret None)) e'"
      "next_tick_after svc (secs_at ?d) e' n"
      by (rule calm_renews_one [OF fl t(1) passed [OF t(2)] few uris due(1)
            row_simps(4) due(2), unfolded row_new row_simps(5)]) (use rest in blast)
    then show ?thesis
      unfolding R_def
      by (intro conjI exI [of _ j] exI [of _ secret] exI [of _ fut] exI [of _ e'] exI [of _ n]) simp_all
  qed
  have later: "\<not> elapsed (deadline K (handle_next_tick n)) (instant_now (clock_at ?d))"
    if n: "next_tick_after svc (secs_at ?d) e' n" "handle_next_tick n \<noteq> u64_MAX" for e' n
  proof -
    obtain t' where t': "n = Some t'" "unat (secs_at ?d) + 1 < unat t'"
      using n by (cases e') (auto simp: next_tick_after_def handle_next_tick_def)
    then have "(unat (secs_at ?d) + 1) * nanos \<le> unat t' * nanos" by (intro mult_right_mono) simp_all
    with secs_at_bounds(2) [OF bound] have "S + ?d < unat t' * nanos" by linarith
    then show ?thesis using not_yet t'(1) by (simp add: handle_next_tick_def)
  qed
  have stays: "R (poll_task P elapsed get D L debug svc fl)" if "R fl" for fl
    using that calm_polled(1) [OF _ later] unfolding R_def by blast
  let ?I = "\<lambda>fl. calm ?d m [] [] t forms fl \<or> R fl"
  have closed: "?I (poll_task P elapsed get D L debug svc fl)" if "?I fl" for fl using that renews stays by blast
  have start: "?I (moved d' fl)" using calm_advance [OF calm bound] by blast
  obtain fl' where fl': "rt_advance T d' fl = (Inr (), fl')" "?I fl'"
    by (rule advance_keeps [of ?I, OF start closed])
  have spawned: "?c fl" if "R fl" for fl using that unfolding R_def by (auto simp: calm_def)
  have iff: "?c fl \<longleftrightarrow> R fl" if "?I fl" for fl :: "('c, 'g, 'u, 'b, 'm) flow"
    using that spawned by (auto simp: calm_def)
  have reach: "R fl' \<or> task_ready elapsed fl' \<and> R (poll_task P elapsed get D L debug svc fl')"
    using fl'(2) renews by blast
  have now: "system_time_now (flow_clock fl') \<le> S + Z" using fl'(2) calm_time [OF _ d] unfolding R_def by blast
  obtain fl3 where fl3: "rt_until T ?c fl' = (Inr (), fl3)" "R fl3"
    by (rule until_reaches [of ?I fl' ?c R, OF fl'(2) closed iff stays reach now])
  with fl'(1) show thesis using that unfolding R_def arrives_def by blast
qed

lemma first_renewal:
  assumes calm: "calm 0 rows0 [] [] t forms fl" and t: "unat t = S div nanos + 1" and z: "44 * nanos + 4 * DELAY \<le> Z"
  obtains fl' j secret fut t' where "rt_advance T (2 * nanos) fl = (Inr (), fl')" "j \<notin> {1, 2}"
    "arrives (2 * nanos) (rows0(1 \<mapsto> row TOPIC1 ''secret1'' None, j \<mapsto> row TOPIC1 secret None)) fut [] [] t' forms fl'"
    "posts_form L (callback svc) j (\<lambda>cb. SubscribeForm cb TOPIC1 secret) HUB TOPIC1 fut" "unat t' = S div nanos + 43"
proof -
  have t_MAX: "t \<noteq> u64_MAX" using t start_small by auto
  have due: "unat t * nanos + 10 ^ 6 \<le> S + (0 + 2 * nanos)"
    unfolding t using div_times_less_eq_dividend [of S nanos] by (simp add: algebra_simps)
  have now: "unat (secs_at (0 + 2 * nanos)) = S div nanos + 2" using secs_later [of 0 2] by simp
  have bound: "0 + 2 * nanos \<le> Z" using z by simp
  have few: "2 * card (dom rows0) < 2 ^ 64"
    and row1: "rows0 1 = Some (row TOPIC1 ''secret1'' (Some expiry1))" by simp_all
  have e1: "sint expiry1 \<le> int (unat (secs_at (0 + 2 * nanos)) + 43)" unfolding now expiries_at by simp
  have hubs: "\<forall>k s'. rows0 k = Some s' \<longrightarrow> sub_hub s' = HUB" by (auto split: if_splits)
  have rest: "\<forall>k s' e'. k \<noteq> 1 \<longrightarrow> rows0 k = Some s' \<longrightarrow> sub_expires_at s' = Some e' \<longrightarrow>
      int (unat (secs_at (0 + 2 * nanos)) + 43) < sint e'"
    unfolding now by (auto simp: expiries_at split: if_splits)
  obtain fl' j secret fut e' n where turn: "rt_advance T (2 * nanos) fl = (Inr (), fl')" "j \<notin> dom rows0"
    "arrives (0 + 2 * nanos) (rows0(1 \<mapsto> row TOPIC1 ''secret1'' None, j \<mapsto> row TOPIC1 secret None)) fut [] []
       (handle_next_tick n) forms fl'"
    "posts_form L (callback svc) j (\<lambda>cb. SubscribeForm cb TOPIC1 secret) HUB TOPIC1 fut"
    and after: "first_expiry (rows0(1 \<mapsto> row TOPIC1 ''secret1'' None, j \<mapsto> row TOPIC1 secret None)) e'"
    "next_tick_after svc (secs_at (0 + 2 * nanos)) e' n"
    by (rule advance_renews_row [OF calm bound t_MAX due few hubs row1 e1 rest])
  from turn(2) have j: "j \<notin> {1, 2}" by (auto split: if_splits)
  obtain t' where t': "n = Some t'" "unat t' = S div nanos + 43"
    by (rule next_tick_value [OF after, of expiry2]) (use j in \<open>auto simp: expiries_at split: if_splits\<close>)
  show thesis
    by (rule that [OF turn(1) j _ turn(4) t'(2)]) (use turn(3) t'(1) in \<open>simp add: handle_next_tick_def\<close>)
qed

end

context flow_bench
begin

lemma second_renewal:
  assumes calm: "calm (2 * nanos + 2 * DELAY) (rows1 j s (Some e)) [] [] t forms fl" and j: "j \<notin> {1, 2}"
    and t: "unat t = S div nanos + 43" and e: "sint e = int (S div nanos + 88)"
    and frac: "S mod nanos + 4 * DELAY < nanos" and z: "44 * nanos + 4 * DELAY \<le> Z"
  obtains fl' k secret fut t' where "rt_advance T MARGIN fl = (Inr (), fl')" "k \<notin> {2, j}"
    "arrives (44 * nanos + 2 * DELAY) ((rows1 j s (Some e))(2 \<mapsto> row TOPIC2 ''secret2'' None, k \<mapsto> row TOPIC2 secret None))
       fut [] [] t' forms fl'"
    "posts_form L (callback svc) k (\<lambda>cb. SubscribeForm cb TOPIC2 secret) HUB TOPIC2 fut" "unat t' = S div nanos + 46"
proof -
  let ?m = "rows1 j s (Some e)" and ?d = "2 * nanos + 2 * DELAY + MARGIN"
  have d: "?d = 44 * nanos + 2 * DELAY" by (simp add: MARGIN_def)
  have t_MAX: "t \<noteq> u64_MAX" using t start_small by auto
  have due: "unat t * nanos + 10 ^ 6 \<le> S + ?d"
    unfolding t d using div_times_less_eq_dividend [of S nanos] by (simp add: algebra_simps)
  have now: "unat (secs_at ?d) = S div nanos + 44" unfolding d by (rule secs_later) (use frac in simp_all)
  have bound: "?d \<le> Z" using z unfolding d by simp
  have "card (dom ?m) \<le> 2" using card_insert_le_m1 [of 2 "{2}" j] by simp
  then have few: "2 * card (dom ?m) < 2 ^ 64" by simp
  have row2: "?m 2 = Some (row TOPIC2 ''secret2'' (Some expiry2))" using j by simp
  have hubs: "\<forall>k s'. ?m k = Some s' \<longrightarrow> sub_hub s' = HUB" by auto
  have e2: "sint expiry2 \<le> int (unat (secs_at ?d) + 43)" unfolding now expiries_at by simp
  have rest: "\<forall>k s' e'. k \<noteq> 2 \<longrightarrow> ?m k = Some s' \<longrightarrow> sub_expires_at s' = Some e' \<longrightarrow>
      int (unat (secs_at ?d) + 43) < sint e'"
    unfolding now by (auto simp: e)
  obtain fl' k secret fut e' n where turn: "rt_advance T MARGIN fl = (Inr (), fl')" "k \<notin> dom ?m"
    "arrives ?d (?m(2 \<mapsto> row TOPIC2 ''secret2'' None, k \<mapsto> row TOPIC2 secret None)) fut [] [] (handle_next_tick n) forms fl'"
    "posts_form L (callback svc) k (\<lambda>cb. SubscribeForm cb TOPIC2 secret) HUB TOPIC2 fut"
    and after: "first_expiry (?m(2 \<mapsto> row TOPIC2 ''secret2'' None, k \<mapsto> row TOPIC2 secret None)) e'"
    "next_tick_after svc (secs_at ?d) e' n"
    by (rule advance_renews_row [OF calm bound t_MAX due few hubs row2 e2 rest])
  from turn(2) have k: "k \<notin> {2, j}" by auto
  obtain t' where t': "n = Some t'" "unat t' = S div nanos + 46"
    by (rule next_tick_value [OF after, of e]) (use k j in \<open>auto simp: e split: if_splits\<close>)
  show thesis
    by (rule that [OF turn(1) k _ turn(4) t'(2)]) (use turn(3) [unfolded d] t'(1) in \<open>simp add: handle_next_tick_def\<close>)
qed

text \<open>What the hub's verifications leave.\<close>

lemma rows_verified:
  "j \<notin> {1, 2} \<Longrightarrow> verified j e HUB TOPIC1 (rows0(1 \<mapsto> row TOPIC1 ''secret1'' None, j \<mapsto> row TOPIC1 s None)) = rows1 j s (Some e)"
  "j \<notin> {1, 2} \<Longrightarrow> k \<notin> {2, j} \<Longrightarrow>
     verified k e' HUB TOPIC2 ((rows1 j s (Some e))(2 \<mapsto> row TOPIC2 ''secret2'' None, k \<mapsto> row TOPIC2 s' None)) =
     [j \<mapsto> row TOPIC1 s (Some e), k \<mapsto> row TOPIC2 s' (Some e')]"
  by (auto simp: verified_def activated_def duplicates_def restrict_map_def fun_eq_iff split: if_splits)

lemma rows_duplicates:
  "j \<notin> {1, 2} \<Longrightarrow> duplicates j HUB TOPIC1 (rows0(1 \<mapsto> row TOPIC1 ''secret1'' None, j \<mapsto> row TOPIC1 s None)) = {1}"
  "j \<notin> {1, 2} \<Longrightarrow> k \<notin> {2, j} \<Longrightarrow>
     duplicates k HUB TOPIC2 ((rows1 j s (Some e))(2 \<mapsto> row TOPIC2 ''secret2'' None, k \<mapsto> row TOPIC2 s' None)) = {2}"
  by (auto simp: duplicates_def split: if_splits)

lemma row_pending: "pending i topic (m(i \<mapsto> row topic s None)) = Some HUB"
  by (simp add: pending_def)

end

context flow_bench
begin

lemma reversible_1: "reversible 1"
  by (simp add: reversible_def)

lemma leases: "2 * as_secs MARGIN + 2 = 86" "as_secs MARGIN + 1 = 43"
  by (simp_all add: MARGIN_def as_secs_def)

lemma multi_first:
  assumes come: "arrives (2 * nanos) (rows0(1 \<mapsto> row TOPIC1 ''secret1'' None, j \<mapsto> row TOPIC1 s None)) fut [] [] t forms fl"
    and z: "44 * nanos + 4 * DELAY \<le> Z" and j: "j \<notin> {1, 2}" and t: "unat t = S div nanos + 43" and frac: "S mod nanos + 4 * DELAY < nanos"
    and fut: "posts_form L (callback svc) j (\<lambda>cb. SubscribeForm cb TOPIC1 s) HUB TOPIC1 fut"
  shows "(\<exists>fl' e. renewal_round T P elapsed get D L M F debug svc no_body 1 TOPIC1 challenge (2 * as_secs MARGIN + 2) fl =
        (Inr (cb_of 1), fl') \<and> sint e = int (S div nanos + 88) \<and>
      calm (2 * nanos + 2 * DELAY) (rows1 j s (Some e)) [] [] t
        (forms @ [SubscribeForm (cb_of j) TOPIC1 s, UnsubscribeForm (cb_of 1) TOPIC1]) fl') \<or>
    lost (snd (renewal_round T P elapsed get D L M F debug svc no_body 1 TOPIC1 challenge (2 * as_secs MARGIN + 2) fl))"
proof -
  have now: "unat (secs_at (2 * nanos + DELAY)) = S div nanos + 2" by (rule secs_later) (use frac in simp_all)
  have frac2: "S mod nanos + 2 * DELAY < nanos" using frac by simp
  have before: "S + (2 * nanos + 2 * DELAY) < n * nanos \<longleftrightarrow> S div nanos + 2 < n" for n by (rule before_iff [OF frac2])
  have bound: "2 * nanos + 2 * DELAY \<le> Z" using z by simp
  have shown: "S + (2 * nanos + 2 * DELAY) < unat t * nanos" unfolding before t by simp
  have later: "S + (2 * nanos + 2 * DELAY) < (unat (secs_at (2 * nanos + DELAY)) + unat (86 :: u64) - 42) * nanos"
    unfolding before now by simp
  have lease: "43 \<le> unat (86 :: u64)" "unat (86 :: u64) \<le> 1000" by simp_all
  from round_passes [where M = M and F = F and no_body = no_body and challenge = challenge,
        OF come fut row_pending rows_duplicates(1) [OF j] lease bound shown later, unfolded rows_verified(1) [OF j] now]
  show ?thesis
  proof (elim disjE exE conjE)
    fix fl' e t'
    assume run: "renewal_round T P elapsed get D L M F debug svc no_body 1 TOPIC1 challenge 86 fl = (Inr (cb_of 1), fl')"
      and calm': "calm (2 * nanos + 2 * DELAY) (rows1 j s (Some e)) [] [] (min t t')
        (forms @ [SubscribeForm (cb_of j) TOPIC1 s, UnsubscribeForm (cb_of 1) TOPIC1]) fl'"
      and e: "sint e = int (S div nanos + 2 + unat (86 :: u64))" and t': "unat t' = S div nanos + 2 + unat (86 :: u64) - 42"
    have min: "min t t' = t" using t' by (simp add: min_def word_le_nat_alt t)
    have "sint e = int (S div nanos + 88)" using e by simp
    with run calm' [unfolded min] show ?thesis unfolding leases by blast
  qed (simp add: leases)
qed

lemma multi_second:
  assumes come: "arrives (44 * nanos + 2 * DELAY) ((rows1 j s (Some e))(2 \<mapsto> row TOPIC2 ''secret2'' None, k \<mapsto> row TOPIC2 s' None))
      fut [] [] t forms fl"
    and z: "44 * nanos + 4 * DELAY \<le> Z" and j: "j \<notin> {1, 2}" and k: "k \<notin> {2, j}" and t: "unat t = S div nanos + 46" and frac: "S mod nanos + 4 * DELAY < nanos"
    and fut: "posts_form L (callback svc) k (\<lambda>cb. SubscribeForm cb TOPIC2 s') HUB TOPIC2 fut"
  shows "(\<exists>fl' e' t'. renewal_round T P elapsed get D L M F debug svc no_body 2 TOPIC2 challenge (as_secs MARGIN + 1) fl =
        (Inr (cb_of 2), fl') \<and> S + (44 * nanos + 4 * DELAY) < unat t' * nanos \<and>
      calm (44 * nanos + 4 * DELAY) [j \<mapsto> row TOPIC1 s (Some e), k \<mapsto> row TOPIC2 s' (Some e')] [] [] t'
        (forms @ [SubscribeForm (cb_of k) TOPIC2 s', UnsubscribeForm (cb_of 2) TOPIC2]) fl') \<or>
    lost (snd (renewal_round T P elapsed get D L M F debug svc no_body 2 TOPIC2 challenge (as_secs MARGIN + 1) fl))"
proof -
  have sum: "44 * nanos + 2 * DELAY + DELAY = 44 * nanos + 3 * DELAY" "44 * nanos + 2 * DELAY + 2 * DELAY = 44 * nanos + 4 * DELAY"
    by simp_all
  have now: "unat (secs_at (44 * nanos + 3 * DELAY)) = S div nanos + 44" by (rule secs_later) (use frac in simp_all)
  have before: "S + (44 * nanos + 4 * DELAY) < n * nanos \<longleftrightarrow> S div nanos + 44 < n" for n by (rule before_iff [OF frac])
  have shown: "S + (44 * nanos + 4 * DELAY) < unat t * nanos" unfolding before t by simp
  have later: "S + (44 * nanos + 4 * DELAY) < (unat (secs_at (44 * nanos + 3 * DELAY)) + unat (43 :: u64) - 42) * nanos"
    unfolding before now by simp
  have lease: "43 \<le> unat (43 :: u64)" "unat (43 :: u64) \<le> 1000" by simp_all
  from round_passes [where M = M and F = F and no_body = no_body and challenge = challenge,
        OF come fut row_pending rows_duplicates(2) [OF j k] lease z [folded sum] shown [folded sum] later [folded sum],
        unfolded rows_verified(2) [OF j k] sum]
  show ?thesis
  proof (elim disjE exE conjE)
    fix fl' e' t'
    assume run: "renewal_round T P elapsed get D L M F debug svc no_body 2 TOPIC2 challenge 43 fl = (Inr (cb_of 2), fl')"
      and calm': "calm (44 * nanos + 4 * DELAY) [j \<mapsto> row TOPIC1 s (Some e), k \<mapsto> row TOPIC2 s' (Some e')] [] [] (min t t')
        (forms @ [SubscribeForm (cb_of k) TOPIC2 s', UnsubscribeForm (cb_of 2) TOPIC2]) fl'"
      and t': "unat t' = unat (secs_at (44 * nanos + 3 * DELAY)) + unat (43 :: u64) - 42"
    have "S + (44 * nanos + 4 * DELAY) < unat (min t t') * nanos"
      using shown later unfolding t' [symmetric] by (simp add: min_def)
    with run calm' show ?thesis unfolding leases by blast
  qed (simp add: leases)
qed

end

context flow_bench
begin

text \<open>How the test ends: it passes, or the hub was given a callback of an unlucky id.\<close>

definition multi_ends :: "(unit, unit) result \<times> ('c, 'g, 'u, 'b, 'm) flow \<Rightarrow> bool" where
  "multi_ends = (\<lambda>(r, fl). (r = Inr () \<and> (\<exists>j k s s' e e'. j \<notin> {1, 2} \<and> k \<notin> {1, 2, j} \<and>
      subs (flow_db fl) = [j \<mapsto> row TOPIC1 s (Some e), k \<mapsto> row TOPIC2 s' (Some e')])) \<or> lost fl \<or>
    (\<exists>topic secret. SubscribeForm (cb_of 1) topic secret \<in> set (flow_forms fl)))"

lemma multi_ends_lost: "lost (snd x) \<Longrightarrow> multi_ends x"
  by (cases x) (simp add: multi_ends_def)

lemma second_half:
  assumes calm: "calm (2 * nanos + 2 * DELAY) (rows1 j s (Some e)) [] [] t forms fl" and j: "j \<notin> {1, 2}"
    and t: "unat t = S div nanos + 43" and e: "sint e = int (S div nanos + 88)" and frac: "S mod nanos + 4 * DELAY < nanos"
    and z: "44 * nanos + 4 * DELAY \<le> Z"
  shows "multi_ends (and_then (rt_advance T MARGIN) (\<lambda>_.
      and_then (renewal_round T P elapsed get D L M F debug svc no_body 2 TOPIC2 challenge (as_secs MARGIN + 1)) (\<lambda>_.
      verify_intent_at T P elapsed get D L M F debug svc no_body (cb_of 1) (VerifyUnsubscribe TOPIC2 challenge'))) fl)"
    (is "multi_ends (and_then _ (\<lambda>_. and_then ?round (\<lambda>_. ?verify)) fl)")
proof -
  obtain fl1 k s' fut t' where fl1: "rt_advance T MARGIN fl = (Inr (), fl1)" and k: "k \<notin> {2, j}"
    and calm1: "arrives (44 * nanos + 2 * DELAY) ((rows1 j s (Some e))(2 \<mapsto> row TOPIC2 ''secret2'' None, k \<mapsto> row TOPIC2 s' None))
      fut [] [] t' forms fl1"
    and fut: "posts_form L (callback svc) k (\<lambda>cb. SubscribeForm cb TOPIC2 s') HUB TOPIC2 fut" and t': "unat t' = S div nanos + 46"
    by (rule second_renewal [OF calm j t e frac z])
  have run: "and_then (rt_advance T MARGIN) (\<lambda>_. and_then ?round (\<lambda>_. ?verify)) fl =
      and_then ?round (\<lambda>_. ?verify) fl1" using fl1 by (simp add: and_then_step)
  from multi_second [where M = M and F = F and no_body = no_body and challenge = challenge,
      OF calm1 z j k t' frac fut]
  show ?thesis
  proof
    assume "lost (snd (?round fl1))"
    then show ?thesis unfolding run by (intro multi_ends_lost lost_and_then logs_verify_intent_at)
  next
    assume "\<exists>fl' e' t'. ?round fl1 = (Inr (cb_of 2), fl') \<and> S + (44 * nanos + 4 * DELAY) < unat t' * nanos \<and>
      calm (44 * nanos + 4 * DELAY) [j \<mapsto> row TOPIC1 s (Some e), k \<mapsto> row TOPIC2 s' (Some e')] [] [] t'
        (forms @ [SubscribeForm (cb_of k) TOPIC2 s', UnsubscribeForm (cb_of 2) TOPIC2]) fl'"
    then obtain fl2 e' t2 forms2 where fl2: "?round fl1 = (Inr (cb_of 2), fl2)" and t2: "S + (44 * nanos + 4 * DELAY) < unat t2 * nanos"
      and calm2: "calm (44 * nanos + 4 * DELAY) [j \<mapsto> row TOPIC1 s (Some e), k \<mapsto> row TOPIC2 s' (Some e')] [] [] t2 forms2 fl2"
      and forms: "SubscribeForm (cb_of k) TOPIC2 s' \<in> set forms2" by auto
    then have run': "and_then ?round (\<lambda>_. ?verify) fl1 = ?verify fl2" by (simp add: and_then_step)
    show ?thesis
    proof (cases "k = 1")
      case True
      have "set (flow_forms fl2) \<subseteq> set (flow_forms (snd (?verify fl2)))"
        by (rule logs_verify_intent_at [unfolded logs_def, THEN spec])
      with forms calm2 True show ?thesis
        unfolding run run' by (cases "?verify fl2") (auto simp: multi_ends_def calm_def)
    next
      case False
      then have "[j \<mapsto> row TOPIC1 s (Some e), k \<mapsto> row TOPIC2 s' (Some e')] 1 = None" using j by simp
      from verify_unsubscribes [OF calm2 z reversible_1 this not_yet [OF t2]] obtain fl3 where
        fl3: "?verify fl2 = (Inr (), fl3)"
        "calm (44 * nanos + 4 * DELAY) [j \<mapsto> row TOPIC1 s (Some e), k \<mapsto> row TOPIC2 s' (Some e')] [] [] t2 forms2 fl3" .
      then have "subs (flow_db fl3) = [j \<mapsto> row TOPIC1 s (Some e), k \<mapsto> row TOPIC2 s' (Some e')]" by (simp add: calm_def)
      moreover have "k \<notin> {1, 2, j}" using k False by blast
      ultimately show ?thesis using j unfolding run run' fl3(1) multi_ends_def by blast
    qed
  qed
qed

lemma multi_passes:
  assumes calm: "calm 0 rows0 [] [] t [] fl" and t: "unat t = S div nanos + 1" and frac: "S mod nanos + 4 * DELAY < nanos"
    and z: "44 * nanos + 4 * DELAY \<le> Z"
  shows "multi_ends (renew_multi_subs T P elapsed get D L M F debug svc no_body fl)"
proof -
  let ?verify = "verify_intent_at T P elapsed get D L M F debug svc no_body"
  let ?round = "renewal_round T P elapsed get D L M F debug svc no_body"
  obtain fl1 j s fut t1 where fl1: "rt_advance T (2 * nanos) fl = (Inr (), fl1)"
    and j: "j \<notin> {1, 2}"
    and calm1: "arrives (2 * nanos) (rows0(1 \<mapsto> row TOPIC1 ''secret1'' None, j \<mapsto> row TOPIC1 s None)) fut [] [] t1 [] fl1"
    and fut: "posts_form L (callback svc) j (\<lambda>cb. SubscribeForm cb TOPIC1 s) HUB TOPIC1 fut" and t1: "unat t1 = S div nanos + 43"
    by (rule first_renewal [OF calm t z])
  have run: "renew_multi_subs T P elapsed get D L M F debug svc no_body fl =
      and_then (?round 1 TOPIC1 ''subscription_challenge1'' (2 * as_secs MARGIN + 2)) (\<lambda>old_cb1.
      and_then (?verify old_cb1 (VerifyUnsubscribe TOPIC1 ''unsubscription_challenge1'')) (\<lambda>_.
      and_then (rt_advance T MARGIN) (\<lambda>_.
      and_then (?round 2 TOPIC2 ''subscription_challenge2'' (as_secs MARGIN + 1)) (\<lambda>_.
      ?verify old_cb1 (VerifyUnsubscribe TOPIC2 ''unsubscription_challenge2''))))) fl1"
    using fl1 no_request_calm [OF calm] by (simp add: renew_multi_subs_def and_then_step Let_def)
  from multi_first [where M = M and F = F and no_body = no_body and challenge = "''subscription_challenge1''",
      OF calm1 z j t1 frac fut]
  show ?thesis
  proof
    assume "lost (snd (?round 1 TOPIC1 ''subscription_challenge1'' (2 * as_secs MARGIN + 2) fl1))"
    then show ?thesis
      unfolding run by (intro multi_ends_lost lost_and_then logs_and_then logs_simps logs_verify_intent_at logs_round logs_runtime)
  next
    assume "\<exists>fl' e. ?round 1 TOPIC1 ''subscription_challenge1'' (2 * as_secs MARGIN + 2) fl1 = (Inr (cb_of 1), fl') \<and>
      sint e = int (S div nanos + 88) \<and> calm (2 * nanos + 2 * DELAY) (rows1 j s (Some e)) [] [] t1
        ([] @ [SubscribeForm (cb_of j) TOPIC1 s, UnsubscribeForm (cb_of 1) TOPIC1]) fl'"
    then obtain fl2 e forms where fl2: "?round 1 TOPIC1 ''subscription_challenge1'' (2 * as_secs MARGIN + 2) fl1 = (Inr (cb_of 1), fl2)"
      and e: "sint e = int (S div nanos + 88)" and calm2: "calm (2 * nanos + 2 * DELAY) (rows1 j s (Some e)) [] [] t1 forms fl2"
      by blast
    have z2: "2 * nanos + 2 * DELAY \<le> Z" using z by simp
    have gone: "rows1 j s (Some e) 1 = None" using j by simp
    have "S mod nanos + 2 * DELAY < nanos" using frac by simp
    then have "S + (2 * nanos + 2 * DELAY) < unat t1 * nanos" by (subst before_iff) (simp_all add: t1)
    from verify_unsubscribes [OF calm2 z2 reversible_1 gone not_yet [OF this]] obtain fl3 where
      fl3: "?verify (cb_of 1) (VerifyUnsubscribe TOPIC1 ''unsubscription_challenge1'') fl2 = (Inr (), fl3)"
      and calm3: "calm (2 * nanos + 2 * DELAY) (rows1 j s (Some e)) [] [] t1 forms fl3" .
    show ?thesis
      using second_half [OF calm3 j t1 e frac z] fl2 fl3 unfolding run by (simp add: and_then_step)
  qed
qed

end

section \<open>Properties\<close>

text \<open>
  C12: several subscriptions. The test \<open>renew_multi_subs\<close> passes if the runtime is busy while the
  test waits and the test begins at any time but the last four milliseconds of a second: each of the
  two rows is renewed in the tick that is due to it and not in the other's, under an id that is
  neither of the first two nor the other's new one, and the old row is dropped. Besides, the
  test may fail when the hub was given a callback that does not lead back to its id (one id in
  about 37 has such a callback), or one of the id \<open>1\<close>, which is free again after the first renewal.
\<close>

theorem renew_multi_subs_passes:
  assumes "flow_bench L D subs up svc T P elapsed get debug K S Z" "44 * nanos + 4 * DELAY \<le> Z"
    and "S mod nanos + 4 * DELAY < nanos"
    and "subs c0 = multi_rows (as_secs S)" "up c0"
    and "prepare_subscriber get D L P \<lparr>instant_now = int S + K, system_time_now = S\<rparr> g c0 = Inr (svc, fl)"
    and "renew_multi_subs T P elapsed get D L M F debug svc no_body fl = (r, fl')"
  shows "(r = Inr () \<and> (\<exists>j k secret secret' e e'. j \<notin> {1, 2} \<and> k \<notin> {1, 2, j} \<and> subs (flow_db fl') =
       [j \<mapsto> \<lparr>sub_hub = HUB, sub_topic = TOPIC1, sub_secret = secret, sub_expires_at = Some e\<rparr>,
        k \<mapsto> \<lparr>sub_hub = HUB, sub_topic = TOPIC2, sub_secret = secret', sub_expires_at = Some e'\<rparr>])) \<or>
    (\<exists>i cb topic secret. (\<not> reversible i \<or> i = 1) \<and> (make_callback L (callback svc) i :: (unit, 'u) result) = Inr cb \<and>
       SubscribeForm cb topic secret \<in> set (flow_forms fl'))"
proof -
  note bench = assms(1)
  have start: "flow_bench.clock_at K S 0 = \<lparr>instant_now = int S + K, system_time_now = S\<rparr>"
    by (simp add: flow_bench.clock_at_def [OF bench])
  have now: "flow_bench.secs_at K S 0 = as_secs S"
    by (simp add: flow_bench.secs_at_def [OF bench] start now_unix_def)
  note rows = flow_bench.multi_rows_eq [OF bench, unfolded now]
  obtain t where t: "unat t = S div nanos + 1"
    and calm: "flow_bench.calm subs up svc K S 0 (multi_rows (as_secs S)) [] [] t [] fl"
    by (rule flow_bench.multi_start [OF bench, unfolded start now, OF assms(6,4,5)])
  from flow_bench.multi_passes [where M = M and F = F and no_body = no_body, OF bench calm [unfolded rows] t assms(3,2)]
  have "flow_bench.multi_ends L subs svc (r, fl')" unfolding assms(7) .
  then show ?thesis
    unfolding flow_bench.multi_ends_def [OF bench] flow_bench.lost_def [OF bench] flow_bench.row_def [OF bench] prod.case
    using flow_bench.cb_of(1) [OF bench] by blast
qed

text \<open>The rows in the in-memory database.\<close>

definition multi_mem :: mem where
  "multi_mem = \<lparr>mem_rows =
     [(1, \<lparr>sub_hub = HUB, sub_topic = TOPIC1, sub_secret = ''secret1'', sub_expires_at = Some 1700000043\<rparr>),
      (2, \<lparr>sub_hub = HUB, sub_topic = TOPIC2, sub_secret = ''secret2'', sub_expires_at = Some 1700000085\<rparr>)],
     mem_faults = []\<rparr>"

lemma multi_mem: "mem_table multi_mem = multi_rows (as_secs (1700000000 * 10 ^ 9))" "mem_up multi_mem"
  by (simp_all add: multi_mem_def mem_table_def mem_up_def multi_rows_def as_secs_def MARGIN_def Let_def fun_upd_twist)

lemma multi_expiry: "conn_get_next_expiry mem_connection2 multi_mem = (Inr (Some 1700000043), multi_mem)"
  by (simp add: multi_mem_def diesel2_connection_def diesel2_get_next_expiry_def mem_diesel_def mem_query_def mem_select_def
      and_then_def selected_def not_null_def)

theorem renew_multi_subs_passes_witness:
  "\<exists>fl r fl'. prepare_subscriber (ret () :: (mem, unit) pool) mem_connection2 test_crates wide_platform
       \<lparr>instant_now = 1700000000 * 10 ^ 9, system_time_now = 1700000000 * 10 ^ 9\<rparr> 7 multi_mem = Inr (test_svc, fl) \<and>
   renew_multi_subs test_runtime wide_platform late_sleep (ret () :: (mem, unit) pool) mem_connection2 test_crates
     (buffered_mac constant_digest) all_features True test_svc [] fl = (r, fl') \<and>
   (r = Inr () \<or> (\<exists>i cb topic secret. (\<not> reversible i \<or> i = 1) \<and> SubscribeForm cb topic secret \<in> set (flow_forms fl')))"
proof -
  obtain fl where fl: "prepare_subscriber (ret () :: (mem, unit) pool) mem_connection2 test_crates wide_platform
      \<lparr>instant_now = 1700000000 * 10 ^ 9, system_time_now = 1700000000 * 10 ^ 9\<rparr> 7 multi_mem = Inr (test_svc, fl)"
    by (rule test_prepared [OF multi_expiry]) simp_all
  obtain r fl' where run: "renew_multi_subs test_runtime wide_platform late_sleep (ret () :: (mem, unit) pool) mem_connection2 test_crates
      (buffered_mac constant_digest) all_features True test_svc [] fl = (r, fl')"
    by (metis surj_pair)
  have z: "44 * nanos + 4 * DELAY \<le> 1000 * nanos" by (simp add: durations)
  have frac: "1700000000 * 10 ^ 9 mod nanos + 4 * DELAY < nanos" by (simp add: DELAY_def)
  have start: "\<lparr>instant_now = int (1700000000 * 10 ^ 9) + 0, system_time_now = 1700000000 * 10 ^ 9\<rparr> =
    \<lparr>instant_now = 1700000000 * 10 ^ 9, system_time_now = 1700000000 * 10 ^ 9\<rparr>" by simp
  from renew_multi_subs_passes [OF test_bench.flow_bench_axioms z frac multi_mem, unfolded start, OF fl run]
  show ?thesis using fl run by blast
qed

end
