(* ===== verification/Feed.thy ===== *)
theory Feed
  imports Prelude "HOL-Library.AList"
begin

text \<open>
  \<open>example/src/feed.rs\<close>: the feeds the example subscriber reads. Atom and RSS documents are what
  the crates \<open>atom_syndication\<close> and \<open>rss\<close> parse them into; of their structs only the fields the
  code uses are kept. A \<open>BTreeMap\<close> is the list of its entries in the order of their keys.
\<close>

section \<open>Parsed documents\<close>

record atom_link =
  link_href :: string
  link_rel :: string

record atom_entry =
  aentry_title :: string
  aentry_id :: string
  aentry_links :: "atom_link list"
  aentry_summary :: "string option"
  aentry_content :: "string option option"
  aentry_updated :: int

record atom_feed =
  atom_title :: string
  atom_id :: string
  atom_links :: "atom_link list"
  atom_entries :: "atom_entry list"

record rss_guid =
  guid_value :: string
  guid_permalink :: bool

record rss_item =
  item_title :: "string option"
  item_link :: "string option"
  item_description :: "string option"
  item_content :: "string option"
  item_guid :: "rss_guid option"

type_synonym attrs = "(string \<times> string) list"

text \<open>An extension element is its attributes; the elements of a prefix are listed by their names.\<close>

record rss_channel =
  rss_title :: string
  rss_link :: string
  rss_items :: "rss_item list"
  rss_extensions :: "(string \<times> (string \<times> attrs list) list) list"
  rss_namespaces :: "(string \<times> string) list"

datatype raw_feed = AtomFeed atom_feed | RssChannel rss_channel

text \<open>The parsers of the two crates, on the bytes of a document.\<close>

record feed_crates =
  read_atom :: "u8 list \<Rightarrow> atom_feed option"
  read_rss :: "u8 list \<Rightarrow> rss_channel option"

section \<open>Feeds\<close>

datatype media_type = AtomType | RssType | XmlType

record feed_entry =
  entry_title :: "string option"
  entry_id :: "string option"
  entry_link :: "string option"
  entry_summary :: "string option"
  entry_content :: "string option"
  entry_updated :: "int option"

record feed =
  feed_title :: string
  feed_id :: string
  feed_entries :: "feed_entry list"

record feed_meta =
  meta_topic :: "string option"
  meta_hubs :: "string list"

definition NS_ATOM :: string where
  "NS_ATOM = ''http://www.w3.org/2005/Atom''"

definition entry_from_atom :: "atom_entry \<Rightarrow> feed_entry" where
  "entry_from_atom entry =
     (let links = aentry_links entry;
          link = (case links of [] \<Rightarrow> None | l # _ \<Rightarrow> Some l);
          link = (if (case link of None \<Rightarrow> False | Some l \<Rightarrow> link_rel l = ''alternate'') then link
                  else (case find (\<lambda>l. link_rel l = ''alternate'') (tl links) of
                          Some l \<Rightarrow> Some l | None \<Rightarrow> link))
      in \<lparr>entry_title = Some (aentry_title entry), entry_id = Some (aentry_id entry),
          entry_link = map_option link_href link, entry_summary = aentry_summary entry,
          entry_content = (case aentry_content entry of None \<Rightarrow> None | Some c \<Rightarrow> c),
          entry_updated = Some (aentry_updated entry)\<rparr>)"

definition entry_from_rss :: "rss_item \<Rightarrow> feed_entry" where
  "entry_from_rss item =
     (let guid = item_guid item;
          link = (case item_link item of
                    Some l \<Rightarrow> Some l
                  | None \<Rightarrow> (case guid of
                      Some g \<Rightarrow> if guid_permalink g then Some (guid_value g) else None
                    | None \<Rightarrow> None))
      in \<lparr>entry_title = item_title item, entry_id = map_option guid_value guid, entry_link = link,
          entry_summary = item_description item, entry_content = item_content item,
          entry_updated = None\<rparr>)"

definition feed_from_atom :: "atom_feed \<Rightarrow> feed" where
  "feed_from_atom f = \<lparr>feed_title = atom_title f, feed_id = atom_id f,
     feed_entries = map entry_from_atom (atom_entries f)\<rparr>"

definition feed_from_rss :: "rss_channel \<Rightarrow> feed" where
  "feed_from_rss c = \<lparr>feed_title = rss_title c, feed_id = rss_link c,
     feed_entries = map entry_from_rss (rss_items c)\<rparr>"

fun feed_from_raw :: "raw_feed \<Rightarrow> feed" where
  "feed_from_raw (AtomFeed f) = feed_from_atom f"
| "feed_from_raw (RssChannel c) = feed_from_rss c"

fun raw_feed_parse :: "feed_crates \<Rightarrow> media_type \<Rightarrow> u8 list \<Rightarrow> raw_feed option" where
  "raw_feed_parse X AtomType content = map_option AtomFeed (read_atom X content)"
| "raw_feed_parse X RssType content = map_option RssChannel (read_rss X content)"
| "raw_feed_parse X XmlType content =
     (case map_option AtomFeed (read_atom X content) of
        Some f \<Rightarrow> Some f
      | None \<Rightarrow> map_option RssChannel (read_rss X content))"

definition feed_parse :: "feed_crates \<Rightarrow> media_type \<Rightarrow> u8 list \<Rightarrow> feed option" where
  "feed_parse X kind content = map_option feed_from_raw (raw_feed_parse X kind content)"

section \<open>Topic and hubs\<close>

text \<open>The loop over the links of an Atom feed; \<open>mem::take\<close> leaves the empty string behind.\<close>

fun take_links :: "atom_link list \<Rightarrow> feed_meta \<Rightarrow> feed_meta \<times> atom_link list" where
  "take_links [] meta = (meta, [])"
| "take_links (link # links) meta =
     (let (meta, link) =
        (if link_rel link = ''self'' then
           (if meta_topic meta = None
            then (meta\<lparr>meta_topic := Some (link_href link)\<rparr>, link\<lparr>link_href := []\<rparr>)
            else (meta, link))
         else if link_rel link = ''hub'' then
           (meta\<lparr>meta_hubs := meta_hubs meta @ [link_href link]\<rparr>, link\<lparr>link_href := []\<rparr>)
         else (meta, link))
      in case take_links links meta of (meta, links) \<Rightarrow> (meta, link # links))"

text \<open>\<open>BTreeMap::get\<close> and \<open>BTreeMap::remove\<close>.\<close>

definition attr_remove :: "string \<Rightarrow> attrs \<Rightarrow> string option \<times> attrs" where
  "attr_remove k attrs = (map_of attrs k, filter (\<lambda>(k', _). k' \<noteq> k) attrs)"

text \<open>Whether a \<open>link\<close> element is in the Atom namespace: by its own declaration, or the channel's.\<close>

definition link_is_atom :: "string \<Rightarrow> bool \<Rightarrow> attrs \<Rightarrow> bool" where
  "link_is_atom prefix prefix_is_atom elm =
     (case find (\<lambda>(k, _). k = ''xmlns:'' @ prefix) elm of
        Some (_, ns) \<Rightarrow> ns = NS_ATOM
      | None \<Rightarrow> prefix_is_atom)"

fun take_elements :: "string \<Rightarrow> bool \<Rightarrow> attrs list \<Rightarrow> feed_meta \<Rightarrow> feed_meta \<times> attrs list" where
  "take_elements prefix prefix_is_atom [] meta = (meta, [])"
| "take_elements prefix prefix_is_atom (elm # elms) meta =
     (let (meta, elm) =
        (if \<not> link_is_atom prefix prefix_is_atom elm then (meta, elm)
         else case map_of elm ''rel'' of
             None \<Rightarrow> (meta, elm)
           | Some rel \<Rightarrow>
               if rel = ''hub'' then
                 (case attr_remove ''href'' elm of
                    (Some href, elm) \<Rightarrow> (meta\<lparr>meta_hubs := meta_hubs meta @ [href]\<rparr>, elm)
                  | (None, elm) \<Rightarrow> (meta, elm))
               else if rel = ''self'' then
                 (if meta_topic meta = None
                  then (case attr_remove ''href'' elm of (href, elm) \<Rightarrow> (meta\<lparr>meta_topic := href\<rparr>, elm))
                  else (meta, elm))
               else (meta, elm))
      in case take_elements prefix prefix_is_atom elms meta of (meta, elms) \<Rightarrow> (meta, elm # elms))"

fun take_meta_rss ::
  "(string \<times> (string \<times> attrs list) list) list \<Rightarrow> (string \<times> string) list \<Rightarrow> feed_meta \<Rightarrow>
    feed_meta \<times> (string \<times> (string \<times> attrs list) list) list" where
  "take_meta_rss [] namespaces meta = (meta, [])"
| "take_meta_rss ((prefix, elements) # extensions) namespaces meta =
     (let (meta, elements) =
        (case map_of elements ''link'' of
           None \<Rightarrow> (meta, elements)
         | Some elms \<Rightarrow>
             (case take_elements prefix (map_of namespaces prefix = Some NS_ATOM) elms meta of
                (meta, elms) \<Rightarrow> (meta, AList.update ''link'' elms elements)))
      in case take_meta_rss extensions namespaces meta of
           (meta, extensions) \<Rightarrow> (meta, (prefix, elements) # extensions))"

definition no_meta :: feed_meta where
  "no_meta = \<lparr>meta_topic = None, meta_hubs = []\<rparr>"

fun take_meta :: "raw_feed \<Rightarrow> feed_meta \<times> raw_feed" where
  "take_meta (AtomFeed f) =
     (case take_links (atom_links f) no_meta of (meta, links) \<Rightarrow> (meta, AtomFeed (f\<lparr>atom_links := links\<rparr>)))"
| "take_meta (RssChannel c) =
     (case take_meta_rss (rss_extensions c) (rss_namespaces c) no_meta of
        (meta, extensions) \<Rightarrow> (meta, RssChannel (c\<lparr>rss_extensions := extensions\<rparr>)))"

section \<open>Media types\<close>

text \<open>What the \<open>mime\<close> crate reads a media type into, in lower case.\<close>

record mime =
  mime_type :: string
  mime_subtype :: string
  mime_suffix :: "string option"

definition media_type_from_str :: "(string \<Rightarrow> mime option) \<Rightarrow> string \<Rightarrow> media_type option" where
  "media_type_from_str parse s =
     (case parse s of
        None \<Rightarrow> None
      | Some mime \<Rightarrow>
          if mime_type mime = ''application'' \<and> mime_subtype mime = ''atom'' \<and> mime_suffix mime = Some ''xml''
          then Some AtomType
          else if mime_type mime = ''application'' \<and>
            (mime_subtype mime = ''rss'' \<or> mime_subtype mime = ''rdf'') \<and> mime_suffix mime = Some ''xml''
          then Some RssType
          else if (mime_type mime = ''application'' \<or> mime_type mime = ''text'') \<and> mime_subtype mime = ''xml''
          then Some XmlType
          else None)"

section \<open>What the metadata is\<close>

text \<open>
  The namespace of an element's prefix: the one the element declares for it, or the one that the
  channel declares.
\<close>

definition element_namespace :: "(string \<times> string) list \<Rightarrow> string \<Rightarrow> attrs \<Rightarrow> string option" where
  "element_namespace namespaces prefix elm =
     (case map_of elm (''xmlns:'' @ prefix) of Some ns \<Rightarrow> Some ns | None \<Rightarrow> map_of namespaces prefix)"

text \<open>
  The links of a document, each with its relation and its target, if it has one: those of an
  Atom feed in the order of the document; those of an RSS channel that are elements of the Atom
  namespace, grouped by prefix in the order of the map of extensions.
\<close>

definition rss_links :: "rss_channel \<Rightarrow> (string option \<times> string option) list" where
  "rss_links c = concat (map (\<lambda>(prefix, elements).
     case map_of elements ''link'' of
       None \<Rightarrow> []
     | Some elms \<Rightarrow> map (\<lambda>elm. (map_of elm ''rel'', map_of elm ''href''))
         (filter (\<lambda>elm. element_namespace (rss_namespaces c) prefix elm = Some NS_ATOM) elms))
     (rss_extensions c))"

fun raw_links :: "raw_feed \<Rightarrow> (string option \<times> string option) list" where
  "raw_links (AtomFeed f) = map (\<lambda>l. (Some (link_rel l), Some (link_href l))) (atom_links f)"
| "raw_links (RssChannel c) = rss_links c"

definition targets :: "string \<Rightarrow> (string option \<times> string option) list \<Rightarrow> string list" where
  "targets rel links = List.map_filter (\<lambda>(r, href). if r = Some rel then href else None) links"

text \<open>Reading more links into metadata that has been read so far.\<close>

definition read_links :: "(string option \<times> string option) list \<Rightarrow> feed_meta \<Rightarrow> feed_meta" where
  "read_links links meta = \<lparr>
     meta_topic = (case meta_topic meta of Some t \<Rightarrow> Some t
       | None \<Rightarrow> (case targets ''self'' links of [] \<Rightarrow> None | t # _ \<Rightarrow> Some t)),
     meta_hubs = meta_hubs meta @ targets ''hub'' links\<rparr>"

lemma targets_simps [simp]:
  "targets rel [] = []"
  "targets rel ((r, href) # links) =
     (if r = Some rel then (case href of None \<Rightarrow> [] | Some h \<Rightarrow> [h]) else []) @ targets rel links"
  "targets rel (xs @ ys) = targets rel xs @ targets rel ys"
  by (simp_all add: targets_def List.map_filter_simps List.map_filter_def split: option.split)

lemma read_links_append: "read_links (xs @ ys) meta = read_links ys (read_links xs meta)"
  by (simp add: read_links_def split: option.split list.split)

lemma read_links_nil [simp]: "read_links [] meta = meta"
  by (simp add: read_links_def split: option.split)

lemma read_links_Cons: "read_links (x # xs) meta = read_links xs (read_links [x] meta)"
  using read_links_append [of "[x]" xs meta] by simp

lemma read_link:
  "read_links [(r, None)] meta = meta"
  "read_links [(r, Some h)] meta =
     (if r = Some ''self'' then (if meta_topic meta = None then meta\<lparr>meta_topic := Some h\<rparr> else meta)
      else if r = Some ''hub'' then meta\<lparr>meta_hubs := meta_hubs meta @ [h]\<rparr> else meta)"
  by (auto simp: read_links_def split: option.split)

lemma no_topic_update: "meta_topic meta = None \<Longrightarrow> meta\<lparr>meta_topic := None\<rparr> = (meta :: feed_meta)"
  by (cases meta) simp

lemma fst_keep [simp]: "fst (case p of (a, b) \<Rightarrow> (a, f b)) = fst p"
  by (simp split: prod.split)

lemma take_links_reads:
  "fst (take_links links meta) = read_links (map (\<lambda>l. (Some (link_rel l), Some (link_href l))) links) meta"
proof (induction links arbitrary: meta)
  case (Cons link links)
  then show ?case
    by (simp add: read_links_Cons [of _ "map _ links"] read_link)
qed simp

lemma link_is_atom_iff:
  "link_is_atom prefix (map_of namespaces prefix = Some NS_ATOM) elm \<longleftrightarrow>
     element_namespace namespaces prefix elm = Some NS_ATOM"
proof -
  have "map_option snd (find (\<lambda>(k, _). k = key) elm) = map_of elm key" for key
    by (induction elm) auto
  from this [of "''xmlns:'' @ prefix"] show ?thesis
    by (auto simp: link_is_atom_def element_namespace_def split: option.splits)
qed

lemma rss_links_eq:
  "rss_links c = concat (map (\<lambda>(prefix, elements).
     case map_of elements ''link'' of
       None \<Rightarrow> []
     | Some elms \<Rightarrow> map (\<lambda>elm. (map_of elm ''rel'', map_of elm ''href''))
         (filter (link_is_atom prefix (map_of (rss_namespaces c) prefix = Some NS_ATOM)) elms))
     (rss_extensions c))"
  unfolding rss_links_def link_is_atom_iff [symmetric] by (rule refl)

lemma take_elements_reads:
  "fst (take_elements prefix b elms meta) =
     read_links (map (\<lambda>elm. (map_of elm ''rel'', map_of elm ''href'')) (filter (link_is_atom prefix b) elms)) meta"
proof (induction elms arbitrary: meta)
  case (Cons elm elms)
  have step: "fst (take_elements prefix b (elm # elms) meta) = fst (take_elements prefix b elms
      (if link_is_atom prefix b elm then read_links [(map_of elm ''rel'', map_of elm ''href'')] meta else meta))"
    by (cases "map_of elm ''rel''"; cases "map_of elm ''href''") (auto simp: read_link attr_remove_def Let_def no_topic_update)
  show ?case
    unfolding step Cons
    by (simp add: read_links_Cons [of _ "map _ (filter _ elms)"])
qed simp

lemma take_meta_rss_reads:
  "fst (take_meta_rss extensions namespaces meta) = read_links (concat (map (\<lambda>(prefix, elements).
     case map_of elements ''link'' of
       None \<Rightarrow> []
     | Some elms \<Rightarrow> map (\<lambda>elm. (map_of elm ''rel'', map_of elm ''href''))
         (filter (link_is_atom prefix (map_of namespaces prefix = Some NS_ATOM)) elms)) extensions)) meta"
proof (induction extensions namespaces meta rule: take_meta_rss.induct)
  case (2 prefix elements extensions namespaces meta)
  show ?case
  proof (cases "map_of elements ''link''")
    case None
    with 2 show ?thesis by simp
  next
    case (Some elms)
    obtain meta' elms' where t: "take_elements prefix (map_of namespaces prefix = Some NS_ATOM) elms meta = (meta', elms')"
      by fastforce
    with take_elements_reads [of prefix "map_of namespaces prefix = Some NS_ATOM" elms meta] Some 2
    show ?thesis by (simp add: read_links_append)
  qed
qed simp

text \<open>An entry links to its first alternate link, or else to its first one.\<close>

lemma entry_link_alternate:
  "entry_link (entry_from_atom entry) = map_option link_href
     (case find (\<lambda>l. link_rel l = ''alternate'') (aentry_links entry) of
        Some l \<Rightarrow> Some l
      | None \<Rightarrow> (case aentry_links entry of [] \<Rightarrow> None | l # _ \<Rightarrow> Some l))"
  by (cases "aentry_links entry") (auto simp: entry_from_atom_def Let_def split: option.split)

lemma take_meta_result:
  "fst (take_meta raw) = \<lparr>meta_topic = (case targets ''self'' (raw_links raw) of [] \<Rightarrow> None | t # _ \<Rightarrow> Some t),
     meta_hubs = targets ''hub'' (raw_links raw)\<rparr>"
proof (cases raw)
  case (AtomFeed f)
  with take_links_reads [of "atom_links f" no_meta] show ?thesis
    by (simp add: read_links_def no_meta_def split: prod.split)
next
  case (RssChannel c)
  with take_meta_rss_reads [of "rss_extensions c" "rss_namespaces c" no_meta] show ?thesis
    by (simp add: read_links_def no_meta_def rss_links_eq split: prod.split)
qed

lemma take_meta_keeps: "feed_from_raw (snd (take_meta raw)) = feed_from_raw raw"
  by (cases raw) (simp_all add: feed_from_atom_def feed_from_rss_def split: prod.split)

section \<open>Properties\<close>

text \<open>
  C38: the metadata of a feed is the target of its first self link and the targets of all its hub
  links. In Atom the links are in the order of the document; in RSS they are the \<open>link\<close> elements
  whose own or channel-wide declaration of their prefix names the Atom namespace, and they come
  grouped by prefix, in the order of the map of extensions. Taking the metadata leaves the feed
  that is read from the document as it was.
\<close>

theorem take_meta_reads:
  "fst (take_meta raw) = \<lparr>meta_topic = (case targets ''self'' (raw_links raw) of [] \<Rightarrow> None | t # _ \<Rightarrow> Some t),
     meta_hubs = targets ''hub'' (raw_links raw)\<rparr> \<and>
   feed_from_raw (snd (take_meta raw)) = feed_from_raw raw"
  using take_meta_result take_meta_keeps by blast

end
