(* ===== verification/Example.thy ===== *)
theory Example
  imports Subscriber Feed
begin

text \<open>
  \<open>example/src/cmd\<close>: the commands of the example subscriber. \<open>subscribe\<close> and \<open>unsubscribe\<close> are
  processes of their own that share the database with \<open>run\<close>, which serves and prints updates.
\<close>

section \<open>The process\<close>

text \<open>
  What the commands use of their HTTP client, of header values, of media types and of the
  authority of a URI. A request is answered with a status, headers and a body, or an error; an
  error is its text. Posting answers only whether the client failed.
\<close>

type_synonym answer = "status \<times> headers \<times> (string + u8 list)"

record 'u client_crates =
  feed_of :: feed_crates
  mime_parse :: "string \<Rightarrow> mime option"
  header_to_str :: "u8 list \<Rightarrow> string option"
  header_debug :: "u8 list \<Rightarrow> string"
  http_get :: "'u \<Rightarrow> string + answer"
  http_post :: "'u response_future \<Rightarrow> string option"
  uri_port :: "'u \<Rightarrow> nat option"
  uri_scheme :: "'u \<Rightarrow> string option"
  uri_host :: "'u \<Rightarrow> string option"

record ('g, 'u) command_world = "'g thread" +
  awaited :: "'u response_future list"

datatype 'e command_error = DatabaseError 'e | HttpError string | UriError | BadStatus status

definition CONTENT_TYPE :: string where
  "CONTENT_TYPE = ''content-type''"

definition header_get :: "headers \<Rightarrow> string \<Rightarrow> u8 list option" where
  "header_get hs name = map_of hs name"

definition parse_media_type :: "'u client_crates \<Rightarrow> u8 list \<Rightarrow> media_type option" where
  "parse_media_type X v =
     (case header_to_str X v of None \<Rightarrow> None | Some s \<Rightarrow> media_type_from_str (mime_parse X) s)"

section \<open>\<open>subscribe\<close>\<close>

definition await_request ::
  "'u client_crates \<Rightarrow> 'u response_future \<Rightarrow> ('c \<times> ('g, 'u, 'z) command_world_scheme, 'e command_error, unit) action" where
  "await_request X fut = (\<lambda>(c, w).
     (case http_post X fut of None \<Rightarrow> Inr () | Some e \<Rightarrow> Inl (Err (HttpError e)),
      (c, w\<lparr>awaited := awaited w @ [fut]\<rparr>)))"

definition request_subscription ::
  "('c, 'e, ('g, 'u, 'z) command_world_scheme) connection \<Rightarrow> ('u, 'a, 'p, 'g) crates \<Rightarrow> 'u client_crates \<Rightarrow>
    bool \<Rightarrow> 'u \<Rightarrow> string \<Rightarrow> string \<Rightarrow>
    ('c \<times> ('g, 'u, 'z) command_world_scheme, 'e command_error, unit) action" where
  "request_subscription D L X debug prefix hub topic =
     and_then (map_err DatabaseError (hub_subscribe D L debug prefix hub topic)) (await_request X)"

definition subscribe_main ::
  "('c, 'e, ('g, 'u, 'z) command_world_scheme) connection \<Rightarrow> ('u, 'a, 'p, 'g) crates \<Rightarrow> 'u client_crates \<Rightarrow>
    bool \<Rightarrow> 'u \<Rightarrow> string option \<Rightarrow> string \<Rightarrow>
    ('c \<times> ('g, 'u, 'z) command_world_scheme, 'e command_error, unit) action" where
  "subscribe_main D L X debug prefix hub opt_topic =
     (case hub of
        Some hub \<Rightarrow> request_subscription D L X debug prefix hub opt_topic
      | None \<Rightarrow>
          (case uri_parse (uri_of L) opt_topic of
             None \<Rightarrow> lift (Inl (Err UriError))
           | Some uri \<Rightarrow>
               (case http_get X uri of
                  Inl e \<Rightarrow> lift (Inl (Err (HttpError e)))
                | Inr (st, headers, resp) \<Rightarrow>
                    if st \<noteq> OK then lift (Inl (Err (BadStatus st)))
                    else
                      let mime = (case header_get headers CONTENT_TYPE of
                                    None \<Rightarrow> XmlType
                                  | Some v \<Rightarrow> (case parse_media_type X v of None \<Rightarrow> XmlType | Some m \<Rightarrow> m))
                      in case resp of
                           Inl e \<Rightarrow> lift (Inl (Err (HttpError e)))
                         | Inr bytes \<Rightarrow>
                             and_then (lift (unwrap (raw_feed_parse (feed_of X) mime bytes))) (\<lambda>raw.
                               let meta = fst (take_meta raw);
                                   topic = (case meta_topic meta of None \<Rightarrow> opt_topic | Some t \<Rightarrow> t)
                               in for_each (meta_hubs meta) (\<lambda>hub.
                                    request_subscription D L X debug prefix hub topic)))))"

section \<open>\<open>unsubscribe\<close>\<close>

text \<open>The requests are spawned as the rows are deleted, and awaited after the transaction.\<close>

definition unsubscribe_rows ::
  "('c, 'x, ('g, 'u, 'z) command_world_scheme) diesel \<Rightarrow> 'g rng_core \<Rightarrow> ('u, 'a, 'p, 'g) crates \<Rightarrow>
    'u \<Rightarrow> string \<Rightarrow> cond list \<Rightarrow>
    ('c \<times> ('g, 'u, 'z) command_world_scheme, 'x sql_error, unit) action" where
  "unsubscribe_rows Q R L prefix topic conds =
     and_then (on_fst (load Q conds False)) (\<lambda>rows.
     for_each rows (\<lambda>(i, s).
       and_then (on_fst (hub_unsubscribe (diesel2_connection Q R) L prefix i (sub_hub s) topic)) (\<lambda>fut.
       (\<lambda>(c, w). (Inr (), (c, w\<lparr>awaited := awaited w @ [fut]\<rparr>))))))"

text \<open>The tasks end in some order; the first error among them ends the command.\<close>

definition join_all :: "'u client_crates \<Rightarrow> 'u response_future list \<Rightarrow> ('e command_error, unit) result" where
  "join_all X futs = (case List.map_filter (http_post X) futs of [] \<Rightarrow> Inr () | e # _ \<Rightarrow> Inl (Err (HttpError e)))"

definition unsubscribe_main ::
  "('c, 'x, ('g, 'u, 'z) command_world_scheme) diesel \<Rightarrow> 'g rng_core \<Rightarrow> ('u, 'a, 'p, 'g) crates \<Rightarrow>
    'u client_crates \<Rightarrow> 'u \<Rightarrow> string option \<Rightarrow> string \<Rightarrow>
    ('c \<times> ('g, 'u, 'z) command_world_scheme, 'x sql_error command_error, unit) action" where
  "unsubscribe_main Q R L X prefix hub topic =
     and_then (map_err DatabaseError (diesel2_transaction Q
       (case hub of
          Some hub \<Rightarrow> unsubscribe_rows Q R L prefix topic [HubEq hub, TopicEq topic]
        | None \<Rightarrow> unsubscribe_rows Q R L prefix topic [TopicEq topic])))
       (\<lambda>_. \<lambda>(c, w). (join_all X (awaited w), (c, w)))"

section \<open>\<open>run\<close>\<close>

datatype listen_on = TcpAddress string | UnixPath string | HostPort string nat

definition bind_address :: "'u client_crates \<Rightarrow> 'u \<Rightarrow> string option \<Rightarrow> ('e, listen_on) result" where
  "bind_address X prefix bind =
     (case bind of
        Some bind \<Rightarrow>
          (case strip_prefix ''tcp://'' bind of
             Some addr \<Rightarrow> Inr (TcpAddress addr)
           | None \<Rightarrow>
               (case strip_prefix ''unix://'' bind of
                  Some path \<Rightarrow> Inr (UnixPath path)
                | None \<Rightarrow> Inl Panic))
      | None \<Rightarrow>
          bind_result (case uri_port X prefix of
              Some p \<Rightarrow> Inr p
            | None \<Rightarrow>
                (case uri_scheme X prefix of
                   Some s \<Rightarrow> if s = ''https'' then Inr 443 else if s = ''http'' then Inr 80 else Inl Panic
                 | None \<Rightarrow> Inl Panic)) (\<lambda>port.
          bind_result (unwrap (uri_host X prefix)) (\<lambda>host. Inr (HostPort host port))))"

text \<open>The lines printed for an entry and for an update; \<open>to_bytes\<close> reads a body to its end.\<close>

definition entry_line :: "feed_entry \<Rightarrow> string" where
  "entry_line e = ''Entry:'' @
     (case entry_title e of None \<Rightarrow> '''' | Some t \<Rightarrow> '' '' @ t) @
     (case entry_id e of None \<Rightarrow> '''' | Some i \<Rightarrow> '' (ID: '' @ i @ '')'') @
     (case entry_link e of None \<Rightarrow> '''' | Some l \<Rightarrow> '' (link: '' @ l @ '')'')"

definition update_lines ::
  "'u client_crates \<Rightarrow> (('b, 'm) content \<Rightarrow> string + u8 list) \<Rightarrow> ('b, 'm, headers) update_data \<Rightarrow> string list" where
  "update_lines X to_bytes upd =
     (case (case header_get (update_headers upd) CONTENT_TYPE of
              Some v \<Rightarrow> (case parse_media_type X v of
                  Some mime \<Rightarrow> Inr mime
                | None \<Rightarrow> Inl (''Topic '' @ update_topic upd @ '': unsupported media type `'' @ header_debug X v @ ''`''))
            | None \<Rightarrow> Inr XmlType) of
        Inl line \<Rightarrow> [line]
      | Inr mime \<Rightarrow>
          (case to_bytes (update_content upd) of
             Inl e \<Rightarrow> [''error reading request body: '' @ e]
           | Inr bytes \<Rightarrow>
               (case feed_parse (feed_of X) mime bytes of
                  None \<Rightarrow> [''failed to parse request body as feed'']
                | Some feed \<Rightarrow>
                    (''Feed: '' @ feed_title feed @ '' ('' @ feed_id feed @ '')'') #
                      map entry_line (feed_entries feed))))"

text \<open>The items of the subscriber's stream are printed until it ends or yields an error.\<close>

fun print_all ::
  "'u client_crates \<Rightarrow> (('b, 'm) content \<Rightarrow> string + u8 list) \<Rightarrow>
    ('x + ('b, 'm, headers) update_data) list \<Rightarrow> 'x option \<times> string list" where
  "print_all X to_bytes [] = (None, [])"
| "print_all X to_bytes (Inl e # _) = (Some e, [])"
| "print_all X to_bytes (Inr upd # items) =
     (case print_all X to_bytes items of (r, lines) \<Rightarrow> (r, update_lines X to_bytes upd @ lines))"

section \<open>A subscription for every hub\<close>

text \<open>What one hub is asked: the topic, for some id that was free, with the secret that was stored.\<close>

definition asked ::
  "('u, 'a, 'p, 'g) crates \<Rightarrow> 'u \<Rightarrow> table \<Rightarrow> table \<Rightarrow> string \<Rightarrow> string \<Rightarrow> 'u response_future \<Rightarrow> bool" where
  "asked L prefix m m' topic hub fut \<longleftrightarrow> (\<exists>i secret. m i = None \<and>
     m' i = Some \<lparr>sub_hub = hub, sub_topic = topic, sub_secret = secret, sub_expires_at = None\<rparr> \<and>
     posts_form L prefix i (\<lambda>cb. SubscribeForm cb topic secret) hub topic fut)"

lemma asked_mono: "asked L prefix m1 m2 topic hub fut \<Longrightarrow> m0 \<subseteq>\<^sub>m m1 \<Longrightarrow> asked L prefix m0 m2 topic hub fut"
  unfolding asked_def map_le_def by (metis domIff)

lemma not_full: "card (dom (m :: table)) < 2 ^ 64 \<Longrightarrow> dom m \<noteq> UNIV"
  by (auto simp: card_word)

lemma request_one:
  assumes "hub_client L D subs up" "prepared (uri_of L) prefix" "http_post X = (\<lambda>_. None)"
    and "up c" "card (dom (subs c)) < 2 ^ 64" "uri_parse (uri_of L) hub \<noteq> None"
  obtains c1 g fut where "request_subscription D L X debug prefix hub topic (c, w) =
      (Inr (), (c1, w\<lparr>thread_rng := g, awaited := awaited w @ [fut]\<rparr>))"
    "up c1" "subs c \<subseteq>\<^sub>m subs c1" "card (dom (subs c1)) = Suc (card (dom (subs c)))"
    "asked L prefix (subs c) (subs c1) topic hub fut"
proof -
  obtain u where u: "uri_parse (uri_of L) hub = Some u" using assms(6) by blast
  from hub_client.hub_subscribe_total [OF assms(1,2,4) not_full [OF assms(5)] u, of debug topic w] obtain fut c1 g i secret where
    run: "hub_subscribe D L debug prefix hub topic (c, w) = (Inr fut, (c1, w\<lparr>thread_rng := g\<rparr>))"
    and i: "i \<notin> dom (subs c)" "subs c1 = created i hub topic secret (subs c)" "up c1"
    and fut: "posts_form L prefix i (\<lambda>cb. SubscribeForm cb topic secret) hub topic fut"
    by (elim exE conjE) (rule that)
  show thesis
  proof (rule that)
    show "request_subscription D L X debug prefix hub topic (c, w) =
        (Inr (), (c1, w\<lparr>thread_rng := g, awaited := awaited w @ [fut]\<rparr>))"
      using run assms(3) by (simp add: request_subscription_def await_request_def and_then_def map_err_def)
    show "up c1" by (rule i(3))
    show "subs c \<subseteq>\<^sub>m subs c1" using i by (auto simp: map_le_def created_def)
    show "card (dom (subs c1)) = Suc (card (dom (subs c)))" using i by simp
    show "asked L prefix (subs c) (subs c1) topic hub fut"
      unfolding asked_def using i(1,2) fut by (intro exI [of _ i] exI [of _ secret]) (auto simp: created_def)
  qed
qed

lemma request_all:
  assumes "hub_client L D subs up" "prepared (uri_of L) prefix" "http_post X = (\<lambda>_. None)"
    and "up c" "card (dom (subs c)) + length hubs \<le> 2 ^ 64"
    and "\<And>hub. hub \<in> set hubs \<Longrightarrow> uri_parse (uri_of L) hub \<noteq> None"
  shows "\<exists>c' g futs. for_each hubs (\<lambda>hub. request_subscription D L X debug prefix hub topic) (c, w) =
      (Inr (), (c', w\<lparr>thread_rng := g, awaited := awaited w @ futs\<rparr>)) \<and>
    up c' \<and> subs c \<subseteq>\<^sub>m subs c' \<and> list_all2 (asked L prefix (subs c) (subs c') topic) hubs futs"
  using assms(4-6)
proof (induction hubs arbitrary: c w)
  case Nil
  then show ?case by (intro exI [of _ c] exI [of _ "thread_rng w"] exI [of _ "[]"]) simp
next
  case (Cons hub hubs)
  have few: "card (dom (subs c)) < 2 ^ 64" using Cons.prems(2) by simp
  obtain c1 g1 fut where one: "request_subscription D L X debug prefix hub topic (c, w) =
      (Inr (), (c1, w\<lparr>thread_rng := g1, awaited := awaited w @ [fut]\<rparr>))"
    "up c1" "subs c \<subseteq>\<^sub>m subs c1" "card (dom (subs c1)) = Suc (card (dom (subs c)))"
    "asked L prefix (subs c) (subs c1) topic hub fut"
    by (rule request_one [OF assms(1-3) Cons.prems(1) few, of hub]) (use Cons.prems(3) in simp)
  let ?w1 = "w\<lparr>thread_rng := g1, awaited := awaited w @ [fut]\<rparr>"
  have "card (dom (subs c1)) + length hubs \<le> 2 ^ 64" using one(4) Cons.prems(2) by simp
  from Cons.IH [OF one(2) this, of ?w1] Cons.prems(3) obtain c' g futs where rest:
    "for_each hubs (\<lambda>hub. request_subscription D L X debug prefix hub topic) (c1, ?w1) =
      (Inr (), (c', ?w1\<lparr>thread_rng := g, awaited := awaited ?w1 @ futs\<rparr>))"
    "up c'" "subs c1 \<subseteq>\<^sub>m subs c'" "list_all2 (asked L prefix (subs c1) (subs c') topic) hubs futs"
    by auto
  have "asked L prefix (subs c) (subs c') topic hub fut"
    using one(5) rest(3) unfolding asked_def map_le_def by (metis domI)
  moreover have "list_all2 (asked L prefix (subs c) (subs c') topic) hubs futs"
    using rest(4) asked_mono [OF _ one(3)] by (rule list_all2_mono)
  ultimately show ?case
    using one(1) rest map_le_trans [OF one(3) rest(3)]
    by (intro exI [of _ c'] exI [of _ g] exI [of _ "fut # futs"]) (simp add: and_then_def)
qed

section \<open>Properties\<close>

text \<open>
  \<open>subscribe\<close> without a hub asks every hub that the feed of the topic names, in the order of the
  feed, for the topic that the feed names as its own, or else the one given; each gets the
  secret and the callback of a row of its own, and no row that was there changes.
\<close>

theorem subscribe_asks_every_hub:
  assumes "hub_client L D subs up" "prepared (uri_of L) prefix" "http_post X = (\<lambda>_. None)" "up c"
    and "uri_parse (uri_of L) opt_topic = Some uri" "http_get X uri = Inr (OK, headers, Inr bytes)"
    and "raw_feed_parse (feed_of X) (case header_get headers CONTENT_TYPE of None \<Rightarrow> XmlType
        | Some v \<Rightarrow> (case parse_media_type X v of None \<Rightarrow> XmlType | Some m \<Rightarrow> m)) bytes = Some raw"
    and "hubs = targets ''hub'' (raw_links raw)"
    and "topic = (case targets ''self'' (raw_links raw) of [] \<Rightarrow> opt_topic | t # _ \<Rightarrow> t)"
    and "card (dom (subs c)) + length hubs \<le> 2 ^ 64"
    and "\<And>hub. hub \<in> set hubs \<Longrightarrow> uri_parse (uri_of L) hub \<noteq> None"
  shows "\<exists>c' g futs. subscribe_main D L X debug prefix None opt_topic (c, w) =
      (Inr (), (c', w\<lparr>thread_rng := g, awaited := awaited w @ futs\<rparr>)) \<and>
    subs c \<subseteq>\<^sub>m subs c' \<and> list_all2 (asked L prefix (subs c) (subs c') topic) hubs futs"
proof -
  from request_all [OF assms(1-4,10,11), of debug topic w] obtain c' g futs where run:
    "for_each hubs (\<lambda>hub. request_subscription D L X debug prefix hub topic) (c, w) =
      (Inr (), (c', w\<lparr>thread_rng := g, awaited := awaited w @ futs\<rparr>))"
    "subs c \<subseteq>\<^sub>m subs c'" "list_all2 (asked L prefix (subs c) (subs c') topic) hubs futs" by auto
  have meta: "meta_hubs (fst (take_meta raw)) = hubs"
    "(case meta_topic (fst (take_meta raw)) of None \<Rightarrow> opt_topic | Some t \<Rightarrow> t) = topic"
    by (simp_all add: take_meta_result assms(8,9) split: list.split)
  have "subscribe_main D L X debug prefix None opt_topic (c, w) =
      for_each hubs (\<lambda>hub. request_subscription D L X debug prefix hub topic) (c, w)"
    by (simp add: subscribe_main_def assms(5-7) and_then_def unwrap_def Let_def meta del: take_meta.simps)
  with run show ?thesis by (intro exI [of _ c'] exI [of _ g] exI [of _ futs]) simp
qed

text \<open>A feed document that names one hub, and a process that reads it as Atom.\<close>

definition mem_feed :: raw_feed where
  "mem_feed = AtomFeed \<lparr>atom_title = '''', atom_id = '''', atom_links =
     [\<lparr>link_href = ''h'', link_rel = ''hub''\<rparr>, \<lparr>link_href = ''t'', link_rel = ''self''\<rparr>], atom_entries = []\<rparr>"

definition mem_client :: "(string \<times> string option) client_crates" where
  "mem_client = \<lparr>feed_of = \<lparr>read_atom = (\<lambda>_. case mem_feed of AtomFeed f \<Rightarrow> Some f | _ \<Rightarrow> None), read_rss = (\<lambda>_. None)\<rparr>,
     mime_parse = (\<lambda>_. None), header_to_str = (\<lambda>_. None), header_debug = (\<lambda>_. ''''),
     http_get = (\<lambda>_. Inr (OK, [], Inr [])), http_post = (\<lambda>_. None), uri_port = (\<lambda>_. None),
     uri_scheme = (\<lambda>_. None), uri_host = (\<lambda>_. None)\<rparr>"

theorem subscribe_asks_every_hub_witness:
  "\<exists>c g fut. subscribe_main (diesel2_connection mem_diesel counter_rng) reference_crates mem_client True
      (callback mem_svc) None ''feed'' (\<lparr>mem_rows = [], mem_faults = []\<rparr>, \<lparr>thread_rng = 7, awaited = []\<rparr>) =
      (Inr () :: (unit sql_error command_error, unit) result, (c, \<lparr>thread_rng = g, awaited = [fut]\<rparr>)) \<and>
    asked reference_crates (callback mem_svc) (\<lambda>_. None) (mem_table c) ''t'' ''h'' fut"
proof -
  let ?c = "\<lparr>mem_rows = [], mem_faults = []\<rparr>" and ?w = "\<lparr>thread_rng = 7, awaited = []\<rparr> :: (u64, string \<times> string option) command_world"
  have client: "hub_client reference_crates (diesel2_connection mem_diesel counter_rng) mem_table mem_up"
    by (intro hub_clientI reference_crates.crates_spec_axioms) (rule mem_connection)
  have c: "mem_up ?c" "mem_table ?c = (\<lambda>_. None)" by (simp_all add: mem_up_def mem_table_def)
  have post: "http_post mem_client = (\<lambda>_. None)"
    and get: "http_get mem_client (''feed'', None) = Inr (OK, [], Inr [])"
    and topic: "uri_parse (uri_of reference_crates) ''feed'' = Some (''feed'', None)"
    and raw: "raw_feed_parse (feed_of mem_client) (case header_get [] CONTENT_TYPE of None \<Rightarrow> XmlType
        | Some v \<Rightarrow> (case parse_media_type mem_client v of None \<Rightarrow> XmlType | Some m \<Rightarrow> m)) [] = Some mem_feed"
    by (simp_all add: mem_client_def header_get_def mem_feed_def reference_crates_def text_uri_def)
  have links: "[''h''] = targets ''hub'' (raw_links mem_feed)"
    "''t'' = (case targets ''self'' (raw_links mem_feed) of [] \<Rightarrow> ''feed'' | t # _ \<Rightarrow> t)"
    by (simp_all add: mem_feed_def)
  have few: "card (dom (mem_table ?c)) + length [''h''] \<le> 2 ^ 64" by (simp add: c)
  have uri: "hub \<in> set [''h''] \<Longrightarrow> uri_parse (uri_of reference_crates) hub \<noteq> None" for hub
    by (simp add: reference_crates_def text_uri_def)
  from subscribe_asks_every_hub [OF client, OF mem_svc.callback_prepared, OF post, OF c(1), OF topic, OF get,
      OF raw, OF links, OF few, OF uri, of True ?w]
  show ?thesis unfolding c(2) by (auto simp: list_all2_Cons1)
qed

text \<open>
  C27: the commands use the callback as it is given, while \<open>run\<close> appends a slash to one that does
  not end with it: then no callback that \<open>subscribe\<close> or \<open>unsubscribe\<close> asks a hub for is one of the
  server's, every request to it, verification or update, is answered with 404, and no such
  subscription is ever confirmed.
\<close>

theorem unprepared_callback_unreachable:
  assumes "crates_spec L" "path_and_query (uri_of L) u = Some p" "pq_as_str (uri_of L) p = CHR ''/'' # s"
    and "CHR ''?'' \<notin> set (pq_as_str (uri_of L) p)" "last (pq_as_str (uri_of L) p) \<noteq> CHR ''/''"
    and "(prepare_callback_prefix (uri_of L) u :: (unit, 'u) result) = Inr u'"
    and "(make_callback L u i :: (unit, 'u) result) = Inr cb"
    and "uri_path (uri_of L) (req_uri req) = uri_path (uri_of L) cb"
  shows "service_call get D L K F debug \<lparr>callback = u', renewal_margin = m\<rparr> now req x =
    (Inr (empty_response NOT_FOUND), x)"
proof -
  let ?U = "uri_of L" and ?seg = "encode (memchr_of L) (base64_of L) (to_le_bytes i)"
  have us: "uri_spec ?U" and b64: "url_safe_no_pad (base64_of L)" using assms(1) by (simp_all add: crates_spec_def)
  have alphabet: "set ?seg \<subseteq> set url_safe_alphabet"
    using url_safe_no_pad.display_alphabet [OF b64] by (simp add: encode_def Let_def)
  then have seg: "CHR ''/'' \<notin> set ?seg" "CHR ''?'' \<notin> set ?seg" by (auto simp: url_safe_alphabet_def)
  obtain cb' where "(make_callback L u i :: (unit, 'u) result) = Inr cb'"
    "uri_path ?U cb' = path_of (pq_as_str ?U p @ ?seg)"
    by (rule crates_spec.make_callback_text [OF assms(1-3)])
  with assms(7) have "uri_path ?U cb = path_of (pq_as_str ?U p @ ?seg)" by simp
  then have cb: "uri_path ?U cb = pq_as_str ?U p @ ?seg"
    using path_of_no_query [of "pq_as_str ?U p @ ?seg"] assms(4) seg(2) by simp
  obtain v p' where "(prepare_callback_prefix ?U u :: (unit, 'u) result) = Inr v" "path_and_query ?U v = Some p'"
    "pq_as_str ?U p' = (if last (pq_as_str ?U p) = CHR ''/'' then pq_as_str ?U p else pq_as_str ?U p @ ''/'')"
    by (rule prepare_origin_form [OF us assms(2,3)])
  with assms(5,6) have p': "path_and_query ?U u' = Some p'" "pq_as_str ?U p' = pq_as_str ?U p @ ''/''" by simp_all
  then have "uri_path ?U u' = path_of (pq_as_str ?U p @ ''/'')"
    using uri_spec.uri_reads [OF us p'(1)] assms(3) by simp
  then have "uri_path ?U u' = pq_as_str ?U p @ ''/''"
    using path_of_no_query [of "pq_as_str ?U p @ ''/''"] assms(4) by simp
  then have "strip_prefix (uri_path ?U u') (uri_path ?U (req_uri req)) = None"
    unfolding assms(8) cb using seg(1) by (auto simp: strip_prefix_None)
  then show ?thesis by (simp add: service_call_def)
qed

theorem unprepared_callback_unreachable_witness:
  "service_call (ret () :: (mem, unit) pool) (diesel2_connection mem_diesel counter_rng) reference_crates
     (buffered_mac constant_digest) all_features True
     \<lparr>callback = (''http://sub'', Some ''/cb/''), renewal_margin = 3600\<rparr> 1000
     \<lparr>req_uri = (''http://sub'', Some (''/cb'' @ mem_tail 300 @ ''?hub.mode=subscribe'')), req_headers = [], req_body = ()\<rparr>
     (\<lparr>mem_rows = [], mem_faults = []\<rparr>, mem_world) =
   (Inr (empty_response NOT_FOUND), (\<lparr>mem_rows = [], mem_faults = []\<rparr>, mem_world))"
proof -
  let ?u = "(''http://sub'', Some ''/cb'')" and ?cb = "(''http://sub'', Some (''/cb'' @ mem_tail 300))"
  have pq: "path_and_query (uri_of reference_crates) ?u = Some ''/cb''"
    "pq_as_str (uri_of reference_crates) ''/cb'' = CHR ''/'' # ''cb''"
    "CHR ''?'' \<notin> set (pq_as_str (uri_of reference_crates) ''/cb'')"
    "last (pq_as_str (uri_of reference_crates) ''/cb'') \<noteq> CHR ''/''"
    by (simp_all add: reference_crates_def text_uri_def)
  have prefix: "(prepare_callback_prefix (uri_of reference_crates) ?u :: (unit, _) result) =
      Inr (''http://sub'', Some ''/cb/'')"
    by (simp add: prepare_callback_prefix_def reference_crates_def text_uri_def)
  have cb: "(make_callback reference_crates ?u 300 :: (unit, _) result) = Inr ?cb"
    by (simp add: make_callback_def reference_crates_def text_uri_def mem_tail_def Let_def)
  let ?req = "\<lparr>req_uri = (''http://sub'', Some (''/cb'' @ mem_tail 300 @ ''?hub.mode=subscribe'')),
    req_headers = [], req_body = ()\<rparr>"
  have "path_of ((''/cb'' @ mem_tail 300) @ ''?hub.mode=subscribe'') = ''/cb'' @ mem_tail 300"
    unfolding path_of_def using mem_tail_no_query [of 300] by (subst takeWhile_append2) auto
  moreover have "path_of (''/cb'' @ mem_tail 300) = ''/cb'' @ mem_tail 300"
    using path_of_no_query [of "''/cb'' @ mem_tail 300"] mem_tail_no_query [of 300] by simp
  ultimately have path: "uri_path (uri_of reference_crates) (req_uri ?req) = uri_path (uri_of reference_crates) ?cb"
    by (simp add: reference_crates_def text_uri_def)
  show ?thesis
    by (rule unprepared_callback_unreachable [OF reference_crates.crates_spec_axioms, OF pq, OF prefix, OF cb, OF path])
qed

end
