(* ===== verification/Commands.thy ===== *)
theory Commands
  imports Example Wrappers
begin

text \<open>
  How the example sets itself up (\<open>example/src/common.rs\<close>, \<open>example/src/main.rs\<close>) and how \<open>run\<close> binds
  its address and cleans up (\<open>example/src/cmd/run.rs\<close>). SQLite, the builder of \<open>r2d2\<close> and the
  system calls are arguments; \<open>'s\<close> is the state they act on, and an error of \<open>anyhow\<close> is its text.
\<close>

section \<open>The database\<close>

record ('s, 'k) sqlite =
  establish :: "string \<Rightarrow> ('s, string, 'k) action"
  batch_execute :: "'k \<Rightarrow> string \<Rightarrow> ('s, string, unit) action"

datatype r2d2_error = QueryError string

definition DB_URL :: string where
  "DB_URL = ''websub.sqlite3''"

definition on_acquire :: "('s, 'k) sqlite \<Rightarrow> 'k \<Rightarrow> ('s, string, unit) action" where
  "on_acquire Q conn = batch_execute Q conn (''PRAGMA busy_timeout=5000;'' @ ''PRAGMA journal_mode=WAL;'')"

definition customizer_on_acquire :: "('s, 'k) sqlite \<Rightarrow> 'k \<Rightarrow> ('s, r2d2_error, unit) action" where
  "customizer_on_acquire Q conn = map_err QueryError (on_acquire Q conn)"

definition open_database :: "('s, 'k) sqlite \<Rightarrow> ('s, string, 'k) action" where
  "open_database Q =
     and_then (establish Q DB_URL) (\<lambda>conn.
     and_then (on_acquire Q conn) (\<lambda>_. ret conn))"

text \<open>\<open>build_pool\<close> is given what the pool runs on every connection it acquires, and the URL.\<close>

definition database_pool ::
  "type_env \<Rightarrow> ('s, 'k) sqlite \<Rightarrow> (('k \<Rightarrow> ('s, r2d2_error, unit) action) \<Rightarrow> string \<Rightarrow> ('s, string, 'p) action) \<Rightarrow>
    ('s, string, 'p pool_wrapper) action option" where
  "database_pool E Q build_pool =
     (case pool_from E of
        None \<Rightarrow> None
      | Some into \<Rightarrow> Some (and_then (build_pool (customizer_on_acquire Q) DB_URL) (\<lambda>pool. ret (into pool))))"

section \<open>\<open>run\<close>\<close>

record ('s, 'l) os_calls =
  parse_socket_addr :: "string \<Rightarrow> string option"
  to_socket_addrs :: "string \<Rightarrow> nat \<Rightarrow> (string, string list) result"
  bind_tcp :: "string \<Rightarrow> ('s, string, 'l) action"
  bind_unix :: "string \<Rightarrow> ('s, string, 'l) action"
  remove_file :: "string \<Rightarrow> ('s, string, unit) action"

text \<open>\<open>let _ = \<dots>\<close> ignores an error, not a panic.\<close>

definition ignore_error :: "('s, 'e, unit) action \<Rightarrow> ('s, 'f, unit) action" where
  "ignore_error m = (\<lambda>s. case m s of
     (Inl Panic, s') \<Rightarrow> (Inl Panic, s') | (Inl Diverge, s') \<Rightarrow> (Inl Diverge, s') | (_, s') \<Rightarrow> (Inr (), s'))"

definition rm_guard_drop :: "('s, 'l) os_calls \<Rightarrow> string \<Rightarrow> ('s, 'e, unit) action" where
  "rm_guard_drop S path = ignore_error (remove_file S path)"

text \<open>A value is dropped when its function returns, fails or panics.\<close>

definition dropping :: "('s, 'e, unit) action \<Rightarrow> ('s, 'e, 'a) action \<Rightarrow> ('s, 'e, 'a) action" where
  "dropping drop_value run_body = (\<lambda>s. case run_body s of
     (Inl Diverge, s') \<Rightarrow> (Inl Diverge, s')
   | (r, s') \<Rightarrow> (case drop_value s' of (Inl f, s'') \<Rightarrow> (Inl f, s'') | (Inr _, s'') \<Rightarrow> (r, s'')))"

text \<open>\<open>serve_all\<close> makes the subscriber on a listener and prints its updates until the stream ends.\<close>

definition run_main ::
  "('s, 'l) os_calls \<Rightarrow> 'u client_crates \<Rightarrow> ('s, string, 'p pool_wrapper) action \<Rightarrow>
    ('l \<Rightarrow> 'u \<Rightarrow> 'p pool_wrapper \<Rightarrow> ('s, string, unit) action) \<Rightarrow> 'u \<Rightarrow> string option \<Rightarrow> ('s, string, unit) action" where
  "run_main S X open_pool serve_all uri bind_to =
     and_then open_pool (\<lambda>pool.
     and_then (lift (bind_address X uri bind_to)) (\<lambda>on. case on of
       TcpAddress addr \<Rightarrow>
         (case parse_socket_addr S addr of
            None \<Rightarrow> lift (Inl (Err ''invalid socket address syntax''))
          | Some addr \<Rightarrow> and_then (bind_tcp S addr) (\<lambda>listener. serve_all listener uri pool))
     | UnixPath path \<Rightarrow>
         and_then (ignore_error (remove_file S path)) (\<lambda>_.
         and_then (bind_unix S path) (\<lambda>listener.
         dropping (rm_guard_drop S path) (serve_all listener uri pool)))
     | HostPort host port \<Rightarrow>
         and_then (lift (to_socket_addrs S host port)) (\<lambda>addrs.
         and_then (lift (unwrap (case addrs of [] \<Rightarrow> None | addr # _ \<Rightarrow> Some addr))) (\<lambda>addr.
         and_then (bind_tcp S addr) (\<lambda>listener. serve_all listener uri pool)))))"

section \<open>The arguments\<close>

record 'u run_opt =
  run_callback :: 'u
  run_bind :: "string option"

record 'u request_opt =
  request_callback :: 'u
  request_hub :: "string option"
  request_topic :: string

datatype 'u cmd = Run "'u run_opt" | Subscribe "'u request_opt" | Unsubscribe "'u request_opt"

text \<open>The commands that ask hubs open the database and wrap the connection.\<close>

definition with_database ::
  "type_env \<Rightarrow> ('s, 'k) sqlite \<Rightarrow> ('k conn_wrapper \<Rightarrow> ('s, string, unit) action) \<Rightarrow> ('s, string, unit) action option" where
  "with_database E Q run_body =
     (case conn_new E of
        None \<Rightarrow> None | Some new \<Rightarrow> Some (and_then (open_database Q) (\<lambda>conn. run_body (new conn))))"

definition example_main ::
  "('u run_opt \<Rightarrow> ('s, string, unit) action) \<Rightarrow> ('u request_opt \<Rightarrow> ('s, string, unit) action) \<Rightarrow>
    ('u request_opt \<Rightarrow> ('s, string, unit) action) \<Rightarrow> 'u cmd \<Rightarrow> ('s, string, unit) action" where
  "example_main run subscribe unsubscribe cmd =
     (case cmd of Run opt \<Rightarrow> run opt | Subscribe opt \<Rightarrow> subscribe opt | Unsubscribe opt \<Rightarrow> unsubscribe opt)"

section \<open>What is left behind\<close>

text \<open>
  Files by their paths: a removal removes its path and no other, here always, and a socket that
  cannot be bound makes no file.
\<close>

locale unix_files =
  fixes S :: "('s, 'l) os_calls" and files :: "'s \<Rightarrow> string set"
  assumes removed: "remove_file S path s = (r, s') \<Longrightarrow> files s' = files s - {path} \<and> r \<noteq> Inl Panic \<and> r \<noteq> Inl Diverge"
    and bound: "bind_unix S path s = (Inl e, s') \<Longrightarrow> files s' \<subseteq> files s"
begin

lemma ignored: "ignore_error (remove_file S path) s = (r, s') \<Longrightarrow> r = Inr () \<and> files s' = files s - {path}"
  using removed by (auto simp: ignore_error_def split: prod.splits sum.splits fault.splits)

lemma dropping_removes:
  fixes m :: "('s, 'e, 'a) action"
  assumes "dropping (rm_guard_drop S path) m s = (r, s')" "r \<noteq> Inl Diverge"
  shows "path \<notin> files s'"
proof -
  obtain r1 s1 where m: "m s = (r1, s1)" by (metis prod.collapse)
  obtain r2 :: "('e, unit) result" and s2 where rm: "ignore_error (remove_file S path) s1 = (r2, s2)"
    by (metis prod.collapse)
  have r1: "r1 \<noteq> Inl Diverge" using assms m by (auto simp: dropping_def)
  have "dropping (rm_guard_drop S path) m s = (r1, s2)"
    using m rm ignored [OF rm] r1 by (auto simp: dropping_def rm_guard_drop_def split: sum.split fault.split)
  with assms(1) ignored [OF rm] show ?thesis by simp
qed

text \<open>Once the pool is open, \<open>run\<close> leaves no file at the path of its socket, however it ends.\<close>

lemma run_cleans_up:
  assumes "open_pool s = (Inr pool, s1)" "strip_prefix ''tcp://'' b = None" "strip_prefix ''unix://'' b = Some path"
    and "run_main S X open_pool serve_all uri (Some b) s = (r, s')" "r \<noteq> Inl Diverge"
  shows "path \<notin> files s'"
proof -
  obtain r0 :: "(string, unit) result" and s2 where rm: "ignore_error (remove_file S path) s1 = (r0, s2)" by (metis prod.collapse)
  from ignored [OF this] have r0: "r0 = Inr ()" and gone: "path \<notin> files s2" by auto
  have run: "and_then (bind_unix S path) (\<lambda>listener.
      dropping (rm_guard_drop S path) (serve_all listener uri pool)) s2 = (r, s')"
    using assms(4) rm unfolding r0
    by (simp add: run_main_def bind_address_def assms(1-3) and_then_def lift_def)
  obtain r1 s3 where bind: "bind_unix S path s2 = (r1, s3)" by (metis prod.collapse)
  show ?thesis
  proof (cases r1)
    case (Inl e)
    with run bind bound [of path s2 e s3] gone show ?thesis by (auto simp: and_then_def)
  next
    case (Inr listener)
    with run bind have "dropping (rm_guard_drop S path) (serve_all listener uri pool) s3 = (r, s')"
      by (simp add: and_then_def)
    from dropping_removes [OF this assms(5)] show ?thesis .
  qed
qed

end

text \<open>A file system of which only the paths matter: a socket cannot be bound where a file is.\<close>

definition unix_process :: "(string set, string) os_calls" where
  "unix_process = \<lparr>parse_socket_addr = Some, to_socket_addrs = (\<lambda>host port. Inr [host]), bind_tcp = ret,
     bind_unix = (\<lambda>path fs. if path \<in> fs then (Inl (Err ''address in use''), fs) else (Inr path, insert path fs)),
     remove_file = (\<lambda>path fs. (if path \<in> fs then Inr () else Inl (Err ''no such file''), fs - {path}))\<rparr>"

interpretation unix_process: unix_files unix_process id
  by unfold_locales (auto simp: unix_process_def split: if_splits)

lemma run_cleans_up_witness:
  "run_main unix_process X (ret pool) (\<lambda>listener uri pool. lift (Inl (Err ''broken pipe''))) uri
     (Some ''unix://s'') {''s'', ''t''} = (Inl (Err ''broken pipe''), {''t''}) \<and>
   ''s'' \<notin> snd (run_main unix_process X (ret pool) (\<lambda>listener uri pool. lift (Inl Panic)) uri
     (Some ''unix://s'') {''s'', ''t''})"
proof -
  have s: "strip_prefix ''tcp://'' ''unix://s'' = None" "strip_prefix ''unix://'' ''unix://s'' = Some ''s''"
    by (simp_all add: strip_prefix_def)
  have "run_main unix_process X (ret pool) (\<lambda>listener uri pool. lift (Inl e)) uri
     (Some ''unix://s'') {''s'', ''t''} = (Inl e, {''t''})" if "e \<noteq> Diverge" for e
    using that by (cases e; auto simp: run_main_def bind_address_def s and_then_def lift_def ret_def dropping_def
        rm_guard_drop_def ignore_error_def unix_process_def)
  then show ?thesis by simp
qed

end
