(* ===== verification/Spec2Isabelle.thy ===== *)
theory Spec2Isabelle
  imports Diesel1 Diesel1_Macro Columns Wrappers Client Provenance Atomics Tests Protocol MultiSubs Commands
begin

text \<open>
  A model of websub-sub, a WebSub subscriber in Rust. All paths below are under \<open>src/\<close> of the
  repository, which holds the crate \<open>src/src\<close> and an example \<open>src/example\<close>.

  \<^bold>\<open>The program.\<close> A user subscribes to a topic at a hub. The crate draws a random id and a secret,
  stores a row for it, and asks the hub with an HTTP request whose callback ends in the encoded
  id. The hub verifies the intent with a request to that callback: the subscription becomes
  active until its lease ends. The hub then distributes updates to the callback, signed with the
  secret; the user reads them from a stream that checks the signature as the body passes. A
  background future renews what expires within a margin: it subscribes anew under a fresh id
  and, once the new subscription is verified, drops the old one. The state of the program is the
  table of subscriptions (a database), the handle of the scheduler (the next tick, an atomic
  word shared by the threads), the sleep of the scheduler, the acceptor of connections with its
  backoff, the channel of updates and the requests that have been spawned.

  \<^bold>\<open>How code is read.\<close> A \<open>Result\<close> with panics is \<open>('e, 'a) result\<close> (\<open>Prelude\<close>): an error, a panic and
  a loop that never ends are values. Code that mutates is an \<open>action\<close>: a function from a state
  to a result and a state, composed with \<open>and_then\<close> and the \<open>?\<close> of the source; \<open>transaction\<close> and
  the pool are actions of the connection. Machine integers are words of their width; the flag
  \<open>debug\<close> selects between the overflow check and wrap-around. Durations and instants are numbers
  of nanoseconds, and \<open>platform\<close> says which instants the target can represent. A future is the
  function that polls it, a sleep its deadline, a waker a flag of the world. A closure or a
  generic parameter is an argument of the definition. Cargo features are the record \<open>features\<close>.
\<close>

text \<open>
  \<^bold>\<open>The crates called.\<close> \<open>memchr\<close>, \<open>base64\<close>, \<open>hex\<close>, \<open>hmac\<close> and \<open>rand\<close> (\<open>Crates\<close>), \<open>http\<close> and
  \<open>serde_urlencoded\<close> (\<open>Http\<close>), \<open>bytes\<close> and \<open>http_body\<close> (\<open>Content\<close>), \<open>diesel\<close> (\<open>Sql\<close>), the sleeps
  of the runtime (\<open>Time\<close>), the runtime itself under test (\<open>Flow\<close>), \<open>tower\<close> (\<open>Client\<close>), \<open>r2d2\<close> (\<open>Wrappers\<close>) and the system calls of the example
  (\<open>Commands\<close>) are records of functions or single functions, given to the definitions
  as arguments. What the code relies on is a locale of documented laws (\<open>memchr_spec\<close>,
  \<open>url_safe_no_pad\<close>, \<open>hex_spec\<close>, \<open>mac_spec\<close>, \<open>rng_spec\<close>, \<open>uri_spec\<close>, \<open>form_spec\<close>, \<open>buf_spec\<close>,
  \<open>diesel_spec\<close>, \<open>sleep_spec\<close>, \<open>oneshot_spec\<close>, \<open>tokio\<close>, \<open>unix_files\<close>), each
  interpreted on an executable reference instance (RFC 4648, an in-memory database, and so on). Properties name the laws they need as hypotheses, and
  their witnesses evaluate the model on the reference instances.

  \<^bold>\<open>The parts of the model and the code they translate.\<close>

  \<^item> \<open>Prelude\<close>: integers, results, actions, bytes and text.
  \<^item> \<open>CallbackId\<close> (\<open>src/util/callback_id.rs\<close>): \<open>encode\<close> and \<open>decode\<close>. The round trip holds exactly
    of the ids the property describes.
  \<^item> \<open>Signature\<close> (\<open>src/signature.rs\<close>): \<open>parse\<close> of the header, \<open>is_preferable_to\<close>, and the
    \<open>verifier\<close>; parsing and verification are characterised, and the preference is the order of
    the algorithms by strength.
  \<^item> \<open>Content\<close> (\<open>src/subscriber/update.rs\<close>, \<open>src/subscriber/update/content.rs\<close>): \<open>poll_data\<close> hashes and
    hands on each chunk and judges the signature at the end.
  \<^item> \<open>Database\<close> (\<open>src/db.rs\<close>): the record \<open>connection\<close> is the trait \<open>ConnectionRef\<close>, the locale
    \<open>connection_ref\<close> its contract, in terms of operations on an abstract table, a map from ids
    to rows. Every higher component is proved against the contract only.
  \<^item> \<open>Sql\<close>, \<open>Diesel2\<close>, \<open>Diesel1\<close> (\<open>src/db/diesel2.rs\<close>, \<open>src/db/diesel1.rs\<close>): the statements of each
    method, the loop that inserts under a fresh id, and the proof that both backends keep
    the contract, errors and rollbacks included.
  \<^item> \<open>Columns\<close> (\<open>src/schema.rs\<close>, the trait bounds of \<open>src/db/diesel2.rs\<close>,
    \<open>src/example/src/websub.rs\<close>): the statements as typed terms, type soundness, and the
    refinement of these statements by the methods of \<open>Diesel2\<close>.
  \<^item> \<open>Wrappers\<close> (\<open>src/db/diesel2.rs\<close>, the expansion of \<open>src/db/diesel1.rs\<close>): \<open>Connection\<close> and \<open>Pool\<close>, each
    impl with its \<open>where\<close> clause as a list of bounds. For all types that meet the bounds of the
    pool every impl that its methods call exists, in both backends.
  \<^item> \<open>Diesel1_Macro\<close> (\<open>src/db/diesel1.rs\<close>): the columns the macro munches and the errors it raises.
  \<^item> \<open>Time\<close> (\<open>src/util/time.rs\<close>, \<open>src/util/backoff.rs\<close>) and \<open>Scheduler\<close>
    (\<open>src/subscriber/scheduler.rs\<close>): clocks, the backoff, the handle with \<open>hasten\<close>, and
    \<open>scheduler_poll\<close>. The scheduler with its handle is also a step relation; that it never
    misses a time is an invariant of the reachable states.
  \<^item> \<open>Hub\<close> (\<open>src/hub.rs\<close>): \<open>hub_subscribe\<close>, \<open>hub_unsubscribe\<close>, secrets, callbacks, forms and the
    handling of the hub's answer.
  \<^item> \<open>Client\<close> (\<open>src/util/http_service.rs\<close>, \<open>ResponseFuture\<close> in \<open>src/hub.rs\<close>): the alias of the client's
    trait, the wrapper back, and the future of a request. The client behind them is asked what a
    client used directly is asked, once per request.
  \<^item> \<open>Service\<close> (\<open>src/subscriber/service.rs\<close>, \<open>src/subscriber/renew_subscriptions.rs\<close>):
    \<open>service_call\<close>, \<open>verify_intent\<close>, \<open>renew_subscriptions\<close>, the tick. What they achieve is proved in
    \<open>Renewal\<close> (renewals), \<open>Intent\<close> (verification) and \<open>Requests\<close> (distributions and the way of a
    subscription from its request to the delivery of an update).
  \<^item> \<open>Subscriber\<close> (\<open>src/subscriber.rs\<close>): the builder, the callback prefix, the accept loop, the
    stream of updates.
  \<^item> \<open>System\<close>, \<open>InTime\<close>, \<open>Provenance\<close>: all parts interleaved as the relation \<open>system_step\<close>, from
    a state that \<open>build\<close> returns; a call is one step. No active subscription is overlooked, each
    is renewed by the first poll after it is due, and hubs are asked only about what the user
    subscribed to.
  \<^item> \<open>Atomics\<close>: the polls of the renewal future and the verifications of hubs on threads of their
    own, a step being one access to the handle or the database (\<open>threads_step\<close>). The calls of
    \<open>System\<close> are runs of these steps. In every interleaving no wake-up is lost; the scheduler is
    in time as long as no verification is under way when a tick has queried and not yet stored.
    If one is, a renewal can be lost, in the two ways of \<open>activation_overlooked\<close> and
    \<open>concurrent_hasten_lost\<close>.
  \<^item> \<open>Testing\<close> (\<open>src/util/time/sleep.rs\<close>, \<open>src/util/connection.rs\<close>, \<open>src/util/first.rs\<close>, the mocked
    clocks of \<open>src/util/time.rs\<close>) and \<open>Tests\<close> (the tests of the scheduler and the backoff).
  \<^item> \<open>Flow\<close>, \<open>Bench\<close>, \<open>Protocol\<close>, \<open>MultiSubs\<close> (the tests of \<open>src/subscriber.rs\<close>): the test of
    the callback prefix, \<open>entire_flow\<close> and \<open>renew_multi_subs\<close> as scripts of a hub and a subscriber.
    They tie all components together: request, verification, distribution, renewal, unsubscription.
    What tokio does while a test waits is a parameter (\<open>runtime\<close>), whose laws (the locale
    \<open>tokio\<close>) are those its documentation states: the renewal task is polled when it is ready, and
    the paused clock moves when the test advances it, or to the next timer when the runtime is
    idle. The tests pass, started at any time and with any random generator that keeps its laws,
    if the runtime is busy while they wait (the bench of \<open>flow_bench\<close> lasts \<open>Z\<close> nanoseconds). The
    source of \<open>entire_flow\<close> has a comment at its last assertion on the listener, \<open>FIXME: The listener
    unexpectedly receives a subscription request\<close>: \<open>entire_flow_fails_idle\<close> shows the run in which it
    does, one in which the runtime is idle before the assertion.
  \<^item> \<open>Feed\<close>, \<open>Example\<close>, \<open>Commands\<close> (\<open>src/example/src\<close>): the topic and the hubs of a feed, the commands
    \<open>subscribe\<close> and \<open>unsubscribe\<close>, what \<open>run\<close> listens on and prints, that it removes its socket
    file however it ends, and how connections and the pool are opened.
\<close>

text \<open>
  \<^bold>\<open>Bounds and loops.\<close> Loops that need not end are \<open>partial_function (option)\<close>, with \<open>None\<close> for not
  ending: \<open>update_chunks\<close> (ends on every buffer that keeps the laws of \<open>Buf\<close>), \<open>insert_loop\<close> (ends
  if the database answers and is not full, for a generator that reaches every id),
  \<open>accept_loop\<close> (ends on a stream that fails for ever, after eight waits, and on one that becomes
  pending). Theorems about the system take the
  times below \<open>2 ^ 62\<close> seconds of the Unix epoch, the scripts of \<open>Flow\<close> below \<open>2 ^ 61\<close>, so that the
  sums of the code do not overflow; the behaviour beyond is the subject of
  \<open>verify_refresh_underflow\<close>. The scripts start a margin after the epoch, and \<open>renew_multi_subs\<close> not
  in the last four milliseconds of a second, the time its network delays take: there the clock
  reads another second in the middle of a renewal, which the theorem does not follow. A script
  that draws an id whose callback does not decode to it (see \<open>callback_id_roundtrip\<close>) may end with
  a panic, and \<open>renew_multi_subs\<close> also if it draws the id \<open>1\<close> again; on a busy runtime the two theorems leave
  out no other case, and only ids that the hub has been sent.

  \<^bold>\<open>What is not modelled.\<close> The crate root and \<open>src/example/src/cmd.rs\<close> are module declarations; the
  arguments of the example are parsed by \<open>clap\<close>, and its HTTP client is built by \<open>hyper\<close>. The
  \<open>Debug\<close> impls of signatures and contents carry no state; \<open>Maybe\<close> and \<open>Never\<close> of \<open>src/util.rs\<close> are a
  helper of \<open>serde\<close> and an empty type, which HOL does not have. The tests of
  \<open>src/subscriber/update/content.rs\<close> are not compiled under any feature. HTTP, TLS and sockets are hyper's: a connection is the list of the
  requests it carries. Log output is left out but for the warnings about a hub's answer and the
  lines \<open>run\<close> prints. The in-memory connections of the tests carry whole requests, and of tokio's timers
  only the renewal task's sleep is modelled, the only one there is when no connection fails to be accepted.
  The timeouts of the tests, which are in real time, do not strike before a task that is ready
  has been polled. Threads share one memory: the
  orderings \<open>Relaxed\<close> of the handle are read as sequentially consistent, as is a transaction of the database.

  \<^bold>\<open>What is left to do.\<close> Interleavings of the accesses of several requests that fail or panic between
  their accesses, weaker memory than one memory, the exact window in which \<open>renew_multi_subs\<close>
  cannot pass, and runtimes that are idle at other points of the tests than the one of
  \<open>entire_flow_fails_idle\<close>.
\<close>

end
